(* ===== verification/Prelude.thy ===== *)
theory Prelude
  imports Complex_Main "HOL-Library.Word"
begin

text \<open>
  Shared vocabulary of the development: Go's instants, durations and \<^verbatim>\<open>time\<close>
  arithmetic, the sentinel errors and the \<^verbatim>\<open>errors\<close> package as values, and the
  collections of rewrite rules the component theories add to.

  Instants and durations are integers counting nanoseconds, as \<^verbatim>\<open>time.Duration\<close> does.
  Go's zero \<^verbatim>\<open>time.Time\<close> (a lease that is not held) is \<^term>\<open>None\<close>.
\<close>

named_theorems kv \<open>access to a keyspace after an update\<close>
named_theorems redis_step \<open>one command of a script, symbolically executed\<close>
named_theorems go_defs \<open>definitions of Go methods that proofs unfold\<close>
named_theorems confined \<open>programs that stay within a set of keys\<close>

section \<open>Time\<close>

type_synonym instant = int
type_synonym duration = int

abbreviation Millisecond :: duration where "Millisecond \<equiv> 1000000"
abbreviation Second :: duration where "Second \<equiv> 1000000000"

text \<open>Go's integer division truncates towards zero; \<^verbatim>\<open>int64\<close> arithmetic wraps.\<close>

definition quot :: "int \<Rightarrow> int \<Rightarrow> int" where
  "quot a b = sgn a * sgn b * (\<bar>a\<bar> div \<bar>b\<bar>)"

definition int64 :: "int \<Rightarrow> int" where
  "int64 x = (x + 2 ^ 63) mod 2 ^ 64 - 2 ^ 63"

definition Milliseconds :: "duration \<Rightarrow> int" where
  "Milliseconds d = quot d Millisecond"

definition UnixMilli :: "instant \<Rightarrow> int" where
  "UnixMilli t = t div Millisecond"

definition After :: "instant option \<Rightarrow> instant \<Rightarrow> bool" where
  "After t u = (case t of None \<Rightarrow> False | Some v \<Rightarrow> u < v)"

lemma quot_nonneg [simp]: "0 \<le> a \<Longrightarrow> 0 < b \<Longrightarrow> quot a b = a div b"
  by (cases "a = 0") (auto simp: quot_def)

lemma Milliseconds_nonneg: "0 \<le> d \<Longrightarrow> Milliseconds d = d div Millisecond"
  by (simp add: Milliseconds_def)

lemma int64_id [simp]: "- (2 ^ 63) \<le> x \<Longrightarrow> x < 2 ^ 63 \<Longrightarrow> int64 x = x"
  by (simp add: int64_def)

lemma int64_range: "- (2 ^ 63) \<le> int64 x \<and> int64 x < 2 ^ 63"
  using pos_mod_bound [of "2 ^ 64" "x + 2 ^ 63"] pos_mod_sign [of "2 ^ 64" "x + 2 ^ 63"]
  by (simp add: int64_def)

lemma After_simps [simp]: "After None u = False" "After (Some v) u = (u < v)"
  by (simp_all add: After_def)

lemma mult_div_bounds:
  fixes a b :: int
  assumes "0 < b"
  shows "b * (a div b) \<le> a" and "a < b * (a div b) + b"
  using assms pos_mod_bound [of b a] pos_mod_sign [of b a] mult_div_mod_eq [of b a]
  by linarith+

section \<open>Errors\<close>

text \<open>
  Every error value the library builds: its sentinels, what the server or the transport
  reports, a cancelled context, \<^verbatim>\<open>fmt.Errorf\<close> with \<^verbatim>\<open>%w\<close> (\<open>Wrap\<close>),
  \<^verbatim>\<open>errors.Join\<close> (\<open>Join\<close>), and an error of the caller's callback.
  \<^verbatim>\<open>error\<close> with its \<^verbatim>\<open>nil\<close> is \<open>goerr option\<close>.
\<close>

datatype goerr =
    ErrBusy
  | ErrLost
  | ErrNotAcquired
  | ErrLeadershipLost
  | Canceled
  | DeadlineExceeded
  | ScriptError string
  | TransportError string
  | Message string
  | CallbackError string
  | Wrap string goerr
  | Join "goerr list"

fun errors_Is :: "goerr \<Rightarrow> goerr \<Rightarrow> bool" where
  "errors_Is (Wrap m e) t = (Wrap m e = t \<or> errors_Is e t)"
| "errors_Is (Join es) t = (Join es = t \<or> list_ex (\<lambda>e. errors_Is e t) es)"
| "errors_Is e t = (e = t)"

definition err_Is :: "goerr option \<Rightarrow> goerr \<Rightarrow> bool" where
  "err_Is e t = (case e of None \<Rightarrow> False | Some x \<Rightarrow> errors_Is x t)"

text \<open>
  \<^verbatim>\<open>errors.Join\<close> drops nil arguments and is nil when both are. A single error that is left is
  wrapped all the same: the result matches it, but is not equal to it.
\<close>

fun errors_Join :: "goerr option \<Rightarrow> goerr option \<Rightarrow> goerr option" where
  "errors_Join None None = None"
| "errors_Join None (Some b) = Some (Join [b])"
| "errors_Join (Some a) None = Some (Join [a])"
| "errors_Join (Some a) (Some b) = Some (Join [a, b])"

lemma err_Is_simps [simp]: "err_Is None t = False" "err_Is (Some x) t = errors_Is x t"
  by (simp_all add: err_Is_def)

lemma errors_Is_refl [simp]: "errors_Is e e"
  by (cases e) auto

lemma err_Is_Join: "(\<nexists>es. t = Join es) \<Longrightarrow>
    err_Is (errors_Join a b) t = (err_Is a t \<or> err_Is b t)"
  by (cases a; cases b) auto

lemma errors_Join_None [simp]: "errors_Join a b = None \<longleftrightarrow> a = None \<and> b = None"
  by (cases a; cases b) auto

end
