(* ===== verification/Redis.thy ===== *)
theory Redis
  imports Prelude "HOL-Library.Char_ord" "HOL-Library.List_Lexorder" "HOL-Library.AList"
begin

text \<open>
  The Redis (or Valkey) server the library talks to. It is not part of the repository, so
  it is a parameter: a record of two functions, \<open>call\<close> (what \<^verbatim>\<open>redis.call\<close> runs) and
  \<open>elapse\<close> (the server at a later reading of its clock). What the library relies on is
  the locale \<open>redis_server\<close>: for each command the scripts issue, the reply and the new
  keyspace as the command's documentation states them, for keys of the documented type.
  \<open>mem_redis\<close> is a concrete server that satisfies every law; it is the instance the
  witnesses evaluate. The laws put no bound on times and scores; a real server keeps deadlines
  as 64-bit integers and scores as binary64 numbers, and the laws describe it for times to live
  and scores that these hold exactly.
\<close>

section \<open>Values, commands and replies\<close>

text \<open>
  A bulk string is either text or the decimal rendering of a number; Lua's
  \<^verbatim>\<open>tonumber\<close> reads the latter back. A sorted set is the list of its members with
  their scores in rank order (score, then member); every script writes integer scores. A
  hash is an association list. An entry of the keyspace carries its deadline, in
  milliseconds of the server's clock, when a time to live is set.
\<close>

datatype bulk = Text string | Num rat

definition inum :: "int \<Rightarrow> bulk" where
  "inum n = Num (of_int n)"

lemma inum_inject [simp]: "inum m = inum n \<longleftrightarrow> m = n" "inum n \<noteq> Text t" "Text t \<noteq> inum n"
  by (simp_all add: inum_def)

type_synonym zset = "(string \<times> int) list"

datatype rval = VStr bulk | VZset zset | VHash "(string \<times> bulk) list"

type_synonym keyspace = "string \<Rightarrow> (rval \<times> int option) option"

datatype cmd =
    GET string
  | EXISTS string
  | DEL string
  | SET_PX string bulk int
  | SET_NX_PX string bulk int
  | INCRBY string int
  | PEXPIRE string int
  | ZADD string int string
  | ZREM string string
  | ZSCORE string string
  | ZCARD string
  | ZREMRANGEBYSCORE string int
  | ZRANGE_0_0 string
  | ZRANGE_0_0_WITHSCORES string
  | ZRANGEBYSCORE_below string int
  | HGET string string
  | HSET string "(string \<times> bulk) list"
  | HDEL string string

text \<open>The key a command is about; each of these commands has exactly one.\<close>

fun cmd_key :: "cmd \<Rightarrow> string" where
  "cmd_key (GET k) = k"
| "cmd_key (EXISTS k) = k"
| "cmd_key (DEL k) = k"
| "cmd_key (SET_PX k b t) = k"
| "cmd_key (SET_NX_PX k b t) = k"
| "cmd_key (INCRBY k i) = k"
| "cmd_key (PEXPIRE k t) = k"
| "cmd_key (ZADD k sc m) = k"
| "cmd_key (ZREM k m) = k"
| "cmd_key (ZSCORE k m) = k"
| "cmd_key (ZCARD k) = k"
| "cmd_key (ZREMRANGEBYSCORE k hi) = k"
| "cmd_key (ZRANGE_0_0 k) = k"
| "cmd_key (ZRANGE_0_0_WITHSCORES k) = k"
| "cmd_key (ZRANGEBYSCORE_below k hi) = k"
| "cmd_key (HGET k f) = k"
| "cmd_key (HSET k fvs) = k"
| "cmd_key (HDEL k f) = k"

datatype reply = RNil | ROk | RInt int | RBulk bulk | RArr "bulk list" | RErr string

record 's redis =
  call :: "cmd \<Rightarrow> 's \<Rightarrow> reply \<times> 's"
  elapse :: "int \<Rightarrow> 's \<Rightarrow> 's"

section \<open>Reading and writing a keyspace\<close>

definition is_str :: "keyspace \<Rightarrow> string \<Rightarrow> bool" where
  "is_str d k = (case d k of Some (VStr _, _) \<Rightarrow> True | None \<Rightarrow> True | _ \<Rightarrow> False)"

definition is_zset :: "keyspace \<Rightarrow> string \<Rightarrow> bool" where
  "is_zset d k = (case d k of Some (VZset _, _) \<Rightarrow> True | None \<Rightarrow> True | _ \<Rightarrow> False)"

definition is_hash :: "keyspace \<Rightarrow> string \<Rightarrow> bool" where
  "is_hash d k = (case d k of Some (VHash _, _) \<Rightarrow> True | None \<Rightarrow> True | _ \<Rightarrow> False)"

definition strv :: "keyspace \<Rightarrow> string \<Rightarrow> bulk option" where
  "strv d k = (case d k of Some (VStr b, _) \<Rightarrow> Some b | _ \<Rightarrow> None)"

definition zsetv :: "keyspace \<Rightarrow> string \<Rightarrow> zset" where
  "zsetv d k = (case d k of Some (VZset z, _) \<Rightarrow> z | _ \<Rightarrow> [])"

definition hashv :: "keyspace \<Rightarrow> string \<Rightarrow> (string \<times> bulk) list" where
  "hashv d k = (case d k of Some (VHash h, _) \<Rightarrow> h | _ \<Rightarrow> [])"

definition ttlv :: "keyspace \<Rightarrow> string \<Rightarrow> int option" where
  "ttlv d k = (case d k of None \<Rightarrow> None | Some (_, e) \<Rightarrow> e)"

definition put_str :: "keyspace \<Rightarrow> string \<Rightarrow> bulk \<Rightarrow> keyspace" where
  "put_str d k b = d(k := Some (VStr b, ttlv d k))"

text \<open>A sorted set or hash that becomes empty is removed with its time to live.\<close>

definition put_zset :: "keyspace \<Rightarrow> string \<Rightarrow> zset \<Rightarrow> keyspace" where
  "put_zset d k z = d(k := (if z = [] then None else Some (VZset z, ttlv d k)))"

definition put_hash :: "keyspace \<Rightarrow> string \<Rightarrow> (string \<times> bulk) list \<Rightarrow> keyspace" where
  "put_hash d k h = d(k := (if h = [] then None else Some (VHash h, ttlv d k)))"

definition set_ttl :: "keyspace \<Rightarrow> string \<Rightarrow> int \<Rightarrow> keyspace" where
  "set_ttl d k e = d(k := (case d k of None \<Rightarrow> None | Some (v, _) \<Rightarrow> Some (v, Some e)))"

text \<open>The integer a string key holds; an absent key counts as 0 for \<^verbatim>\<open>INCRBY\<close>.\<close>

definition counter :: "keyspace \<Rightarrow> string \<Rightarrow> int option" where
  "counter d k = (case d k of
       None \<Rightarrow> Some 0
     | Some (VStr (Num q), _) \<Rightarrow> (if of_int \<lfloor>q\<rfloor> = q then Some \<lfloor>q\<rfloor> else None)
     | _ \<Rightarrow> None)"

lemmas kv_defs = is_str_def is_zset_def is_hash_def strv_def zsetv_def hashv_def ttlv_def
  put_str_def put_zset_def put_hash_def set_ttl_def counter_def

lemma put_zset_other: "j \<noteq> k \<Longrightarrow> put_zset d k z j = d j"
  and put_str_other: "j \<noteq> k \<Longrightarrow> put_str d k b j = d j"
  and put_hash_other: "j \<noteq> k \<Longrightarrow> put_hash d k h j = d j"
  and set_ttl_other: "j \<noteq> k \<Longrightarrow> set_ttl d k e j = d j"
  by (auto simp: kv_defs)

lemmas put_other [kv] = put_zset_other put_str_other put_hash_other set_ttl_other

section \<open>Sorted sets\<close>

definition zless :: "string \<times> int \<Rightarrow> string \<times> int \<Rightarrow> bool" where
  "zless p q = (snd p < snd q \<or> (snd p = snd q \<and> fst p < fst q))"

definition zrem :: "string \<Rightarrow> zset \<Rightarrow> zset" where
  "zrem m z = filter (\<lambda>p. fst p \<noteq> m) z"

fun zinsert :: "string \<times> int \<Rightarrow> zset \<Rightarrow> zset" where
  "zinsert p [] = [p]"
| "zinsert p (q # z) = (if zless p q then p # q # z else q # zinsert p z)"

definition zadd :: "string \<Rightarrow> int \<Rightarrow> zset \<Rightarrow> zset" where
  "zadd m sc z = zinsert (m, sc) (zrem m z)"

definition zwf :: "zset \<Rightarrow> bool" where
  "zwf z = (sorted_wrt zless z \<and> distinct (map fst z))"

lemma zwf_Nil [simp]: "zwf []"
  by (simp add: zwf_def)

lemma set_zinsert [simp]: "set (zinsert p z) = insert p (set z)"
  by (induction z) auto

lemma length_zinsert [simp]: "length (zinsert p z) = Suc (length z)"
  by (induction z) auto

lemma zless_trans: "zless p q \<Longrightarrow> zless q r \<Longrightarrow> zless p r"
  by (auto simp: zless_def)

lemma zless_total: "p \<noteq> q \<Longrightarrow> \<not> zless p q \<Longrightarrow> zless q p"
  by (cases p; cases q) (auto simp: zless_def)

lemma sorted_zinsert: "sorted_wrt zless z \<Longrightarrow> p \<notin> set z \<Longrightarrow> sorted_wrt zless (zinsert p z)"
  by (induction z) (auto intro: zless_trans zless_total)

lemma set_zrem: "set (zrem m z) = {p \<in> set z. fst p \<noteq> m}"
  by (auto simp: zrem_def)

lemma set_zadd: "set (zadd m sc z) = insert (m, sc) {p \<in> set z. fst p \<noteq> m}"
  by (simp add: zadd_def set_zrem)

lemma zwf_filter: "zwf z \<Longrightarrow> zwf (filter P z)"
  by (simp add: zwf_def sorted_wrt_filter distinct_map_filter)

lemma zwf_zrem: "zwf z \<Longrightarrow> zwf (zrem m z)"
  by (simp add: zrem_def zwf_filter)

lemma distinct_fst_zinsert:
  "distinct (map fst (zinsert p z)) = (fst p \<notin> fst ` set z \<and> distinct (map fst z))"
  by (induction z) auto

lemma zwf_zadd: "zwf z \<Longrightarrow> zwf (zadd m sc z)"
  using zwf_zrem [of z m] unfolding zwf_def zadd_def
  by (auto simp: set_zrem distinct_fst_zinsert intro: sorted_zinsert)

lemma zadd_not_Nil [simp]: "zadd m sc z \<noteq> []"
  by (cases "zrem m z") (auto simp: zadd_def)

lemma length_zadd: "length (zadd m sc z) = Suc (length (zrem m z))"
  by (simp add: zadd_def)

lemma map_of_filter_fst: "map_of (filter (\<lambda>p. fst p \<noteq> m) z) a = (if a = m then None else map_of z a)"
  by (induction z) auto

lemma map_of_zrem: "map_of (zrem m z) a = (if a = m then None else map_of z a)"
  by (simp add: zrem_def map_of_filter_fst)

lemma map_of_zinsert: "fst p \<notin> fst ` set z \<Longrightarrow>
    map_of (zinsert p z) a = (if a = fst p then Some (snd p) else map_of z a)"
  by (induction z) auto

lemma map_of_zadd: "map_of (zadd m sc z) a = (if a = m then Some sc else map_of z a)"
  by (subst zadd_def, subst map_of_zinsert) (auto simp: set_zrem map_of_zrem)

lemma zwf_map_of: "zwf z \<Longrightarrow> (map_of z m = Some sc) = ((m, sc) \<in> set z)"
  by (simp add: zwf_def map_of_eq_Some_iff)

lemma length_zrem: "zwf z \<Longrightarrow> length (zrem m z) = length z - (if map_of z m = None then 0 else 1)"
proof (induction z)
  case (Cons p z)
  then have z: "zwf z" and p: "fst p \<notin> fst ` set z"
    by (auto simp: zwf_def)
  have *: "zrem m z = z" if "m \<notin> fst ` set z" for m
    using that by (auto simp: zrem_def intro!: filter_True)
  show ?case
  proof (cases "fst p = m")
    case True
    with p * [of m] show ?thesis by (auto simp: zrem_def)
  next
    case False
    then have "zrem m (p # z) = p # zrem m z" by (simp add: zrem_def)
    moreover have "map_of (p # z) m = map_of z m" using False by auto
    moreover have "map_of z m \<noteq> None \<Longrightarrow> z \<noteq> []" by auto
    ultimately show ?thesis using Cons.IH [OF z] by (cases z) auto
  qed
qed (simp add: zrem_def)

text \<open>The first entry has the least score.\<close>

lemma zwf_head_least: "zwf (p # z) \<Longrightarrow> q \<in> set z \<Longrightarrow> snd p \<le> snd q"
  by (auto simp: zwf_def zless_def)

lemma zinsert_last: "(\<forall>q \<in> set z. zless q p) \<Longrightarrow> zinsert p z = z @ [p]"
  by (induction z) (auto simp: zless_def)

section \<open>What the library relies on\<close>

abbreviation INCR :: "string \<Rightarrow> cmd" where "INCR k \<equiv> INCRBY k 1"
abbreviation DECRBY :: "string \<Rightarrow> int \<Rightarrow> cmd" where "DECRBY k n \<equiv> INCRBY k (- n)"

text \<open>The reply of a call together with the keyspace after it.\<close>

definition view :: "('s \<Rightarrow> keyspace) \<Rightarrow> reply \<times> 's \<Rightarrow> reply \<times> keyspace" where
  "view db r = (fst r, db (snd r))"

definition bulk_reply :: "bulk option \<Rightarrow> reply" where
  "bulk_reply b = (case b of None \<Rightarrow> RNil | Some x \<Rightarrow> RBulk x)"

definition hash_set :: "(string \<times> bulk) list \<Rightarrow> (string \<times> bulk) list \<Rightarrow> (string \<times> bulk) list" where
  "hash_set fvs h = fold (\<lambda>(f, v). AList.update f v) fvs h"

text \<open>A command on a key that holds another type of value is an error.\<close>

fun well_typed :: "keyspace \<Rightarrow> cmd \<Rightarrow> bool" where
  "well_typed d (GET k) = is_str d k"
| "well_typed d (INCRBY k i) = is_str d k"
| "well_typed d (ZADD k sc m) = is_zset d k"
| "well_typed d (ZREM k m) = is_zset d k"
| "well_typed d (ZSCORE k m) = is_zset d k"
| "well_typed d (ZCARD k) = is_zset d k"
| "well_typed d (ZREMRANGEBYSCORE k hi) = is_zset d k"
| "well_typed d (ZRANGE_0_0 k) = is_zset d k"
| "well_typed d (ZRANGE_0_0_WITHSCORES k) = is_zset d k"
| "well_typed d (ZRANGEBYSCORE_below k hi) = is_zset d k"
| "well_typed d (HGET k f) = is_hash d k"
| "well_typed d (HSET k fvs) = is_hash d k"
| "well_typed d (HDEL k f) = is_hash d k"
| "well_typed d _ = True"

locale redis_server =
  fixes R :: "'s redis"
    and clock :: "'s \<Rightarrow> int"
    and db :: "'s \<Rightarrow> keyspace"
  assumes clock_call: "clock (snd (call R c s)) = clock s"
    and call_frame: "k \<noteq> cmd_key c \<Longrightarrow> db (snd (call R c s)) k = db s k"
    and wrong_type: "\<not> well_typed (db s) c \<Longrightarrow> \<exists>msg. view db (call R c s) = (RErr msg, db s)"
    and clock_elapse: "clock s \<le> T \<Longrightarrow> clock (elapse R T s) = T"
    and elapse_absent: "clock s \<le> T \<Longrightarrow> db s k = None \<Longrightarrow> db (elapse R T s) k = None"
    and elapse_persistent: "clock s \<le> T \<Longrightarrow> db s k = Some (v, None) \<Longrightarrow>
          db (elapse R T s) k = Some (v, None)"
    and elapse_live: "clock s \<le> T \<Longrightarrow> db s k = Some (v, Some e) \<Longrightarrow> T < e \<Longrightarrow>
          db (elapse R T s) k = Some (v, Some e)"
    and elapse_expired: "clock s \<le> T \<Longrightarrow> db s k = Some (v, Some e) \<Longrightarrow> e < T \<Longrightarrow>
          db (elapse R T s) k = None"
    and elapse_either: "clock s \<le> T \<Longrightarrow>
          db (elapse R T s) k = db s k \<or> db (elapse R T s) k = None"
    and zset_ranked: "db s k = Some (VZset z, x) \<Longrightarrow> zwf z \<and> z \<noteq> []"
    and elapse_together: "clock s \<le> T \<Longrightarrow> db s k = Some (v, Some e) \<Longrightarrow> db s k' = Some (v', Some e) \<Longrightarrow>
          (db (elapse R T s) k = None) = (db (elapse R T s) k' = None)"
    and get_law: "is_str (db s) k \<Longrightarrow>
          view db (call R (GET k) s) = (bulk_reply (strv (db s) k), db s)"
    and exists_law: "view db (call R (EXISTS k) s) =
          (RInt (if db s k = None then 0 else 1), db s)"
    and del_law: "view db (call R (DEL k) s) =
          (RInt (if db s k = None then 0 else 1), (db s)(k := None))"
    and set_px_law: "0 < t \<Longrightarrow> view db (call R (SET_PX k b t) s) =
          (ROk, (db s)(k := Some (VStr b, Some (clock s + t))))"
    and set_px_invalid: "t \<le> 0 \<Longrightarrow> \<exists>msg. view db (call R (SET_PX k b t) s) = (RErr msg, db s)"
    and set_nx_law: "0 < t \<Longrightarrow> view db (call R (SET_NX_PX k b t) s) =
          (if db s k = None then (ROk, (db s)(k := Some (VStr b, Some (clock s + t))))
           else (RNil, db s))"
    and set_nx_invalid: "t \<le> 0 \<Longrightarrow> \<exists>msg. view db (call R (SET_NX_PX k b t) s) = (RErr msg, db s)"
    and incrby_law: "counter (db s) k = Some n \<Longrightarrow> \<bar>n + i\<bar> < 2 ^ 63 \<Longrightarrow>
          view db (call R (INCRBY k i) s) =
            (RInt (n + i), put_str (db s) k (inum (n + i)))"
    and pexpire_law: "view db (call R (PEXPIRE k t) s) =
          (RInt (if db s k = None then 0 else 1),
           if t \<le> 0 then (db s)(k := None) else set_ttl (db s) k (clock s + t))"
    and zadd_law: "is_zset (db s) k \<Longrightarrow> view db (call R (ZADD k sc m) s) =
          (RInt (if map_of (zsetv (db s) k) m = None then 1 else 0),
           put_zset (db s) k (zadd m sc (zsetv (db s) k)))"
    and zrem_law: "is_zset (db s) k \<Longrightarrow> view db (call R (ZREM k m) s) =
          (RInt (if map_of (zsetv (db s) k) m = None then 0 else 1),
           put_zset (db s) k (zrem m (zsetv (db s) k)))"
    and zscore_law: "is_zset (db s) k \<Longrightarrow> view db (call R (ZSCORE k m) s) =
          (bulk_reply (map_option inum (map_of (zsetv (db s) k) m)), db s)"
    and zcard_law: "is_zset (db s) k \<Longrightarrow> view db (call R (ZCARD k) s) =
          (RInt (int (length (zsetv (db s) k))), db s)"
    and zremrangebyscore_law: "is_zset (db s) k \<Longrightarrow>
          view db (call R (ZREMRANGEBYSCORE k hi) s) =
            (RInt (int (length (filter (\<lambda>p. snd p \<le> hi) (zsetv (db s) k)))),
             put_zset (db s) k (filter (\<lambda>p. hi < snd p) (zsetv (db s) k)))"
    and zrange_law: "is_zset (db s) k \<Longrightarrow> view db (call R (ZRANGE_0_0 k) s) =
          (RArr (map (\<lambda>p. Text (fst p)) (take 1 (zsetv (db s) k))), db s)"
    and zrange_withscores_law: "is_zset (db s) k \<Longrightarrow>
          view db (call R (ZRANGE_0_0_WITHSCORES k) s) =
            (RArr (concat (map (\<lambda>p. [Text (fst p), inum (snd p)]) (take 1 (zsetv (db s) k)))),
             db s)"
    and zrangebyscore_law: "is_zset (db s) k \<Longrightarrow>
          view db (call R (ZRANGEBYSCORE_below k hi) s) =
            (RArr (map (\<lambda>p. Text (fst p)) (filter (\<lambda>p. snd p < hi) (zsetv (db s) k))), db s)"
    and hget_law: "is_hash (db s) k \<Longrightarrow> view db (call R (HGET k f) s) =
          (bulk_reply (map_of (hashv (db s) k) f), db s)"
    and hset_law: "is_hash (db s) k \<Longrightarrow> fvs \<noteq> [] \<Longrightarrow> \<exists>n.
          view db (call R (HSET k fvs) s) =
            (RInt n, put_hash (db s) k (hash_set fvs (hashv (db s) k)))"
    and hdel_law: "is_hash (db s) k \<Longrightarrow> view db (call R (HDEL k f) s) =
          (RInt (if map_of (hashv (db s) k) f = None then 0 else 1),
           put_hash (db s) k (AList.delete f (hashv (db s) k)))"

section \<open>A concrete server\<close>

record mem =
  mclock :: int
  mdata :: keyspace

text \<open>Sorted sets are kept in rank order; the view drops an entry that is not.\<close>

definition mem_db :: "mem \<Rightarrow> keyspace" where
  "mem_db s k = (case mdata s k of
       Some (VZset z, e) \<Rightarrow> if zwf z \<and> z \<noteq> [] then Some (VZset z, e) else None
     | x \<Rightarrow> x)"

definition wrongtype :: "mem \<Rightarrow> reply \<times> mem" where
  "wrongtype s = (RErr ''WRONGTYPE'', s)"

definition mem_read :: "bool \<Rightarrow> reply \<Rightarrow> mem \<Rightarrow> reply \<times> mem" where
  "mem_read ok r s = (if ok then (r, s) else wrongtype s)"

definition mem_write :: "bool \<Rightarrow> reply \<Rightarrow> keyspace \<Rightarrow> mem \<Rightarrow> reply \<times> mem" where
  "mem_write ok r d s = (if ok then (r, s\<lparr>mdata := d\<rparr>) else wrongtype s)"

fun mem_call :: "cmd \<Rightarrow> mem \<Rightarrow> reply \<times> mem" where
  "mem_call (GET k) s = (let d = mem_db s in
     mem_read (is_str d k) (bulk_reply (strv d k)) s)"
| "mem_call (EXISTS k) s = (RInt (if mem_db s k = None then 0 else 1), s)"
| "mem_call (DEL k) s = (let d = mem_db s in
     (RInt (if d k = None then 0 else 1), s\<lparr>mdata := d(k := None)\<rparr>))"
| "mem_call (SET_PX k b t) s =
     (if t \<le> 0 then (RErr ''ERR invalid expire time'', s)
      else (ROk, s\<lparr>mdata := (mem_db s)(k := Some (VStr b, Some (mclock s + t)))\<rparr>))"
| "mem_call (SET_NX_PX k b t) s =
     (if t \<le> 0 then (RErr ''ERR invalid expire time'', s)
      else if mem_db s k = None
      then (ROk, s\<lparr>mdata := (mem_db s)(k := Some (VStr b, Some (mclock s + t)))\<rparr>)
      else (RNil, s))"
| "mem_call (INCRBY k i) s = (let d = mem_db s in
     case counter d k of
       None \<Rightarrow> (RErr ''ERR value is not an integer or out of range'', s)
     | Some n \<Rightarrow> if \<bar>n + i\<bar> < 2 ^ 63
         then (RInt (n + i), s\<lparr>mdata := put_str d k (inum (n + i))\<rparr>)
         else (RErr ''ERR increment or decrement would overflow'', s))"
| "mem_call (PEXPIRE k t) s = (let d = mem_db s in
     (RInt (if d k = None then 0 else 1),
      s\<lparr>mdata := (if t \<le> 0 then d(k := None) else set_ttl d k (mclock s + t))\<rparr>))"
| "mem_call (ZADD k sc m) s = (let d = mem_db s; z = zsetv d k in
     mem_write (is_zset d k) (RInt (if map_of z m = None then 1 else 0))
       (put_zset d k (zadd m sc z)) s)"
| "mem_call (ZREM k m) s = (let d = mem_db s; z = zsetv d k in
     mem_write (is_zset d k) (RInt (if map_of z m = None then 0 else 1))
       (put_zset d k (zrem m z)) s)"
| "mem_call (ZSCORE k m) s = (let d = mem_db s in
     mem_read (is_zset d k)
       (bulk_reply (map_option inum (map_of (zsetv d k) m))) s)"
| "mem_call (ZCARD k) s = (let d = mem_db s in
     mem_read (is_zset d k) (RInt (int (length (zsetv d k)))) s)"
| "mem_call (ZREMRANGEBYSCORE k hi) s = (let d = mem_db s; z = zsetv d k in
     mem_write (is_zset d k) (RInt (int (length (filter (\<lambda>p. snd p \<le> hi) z))))
       (put_zset d k (filter (\<lambda>p. hi < snd p) z)) s)"
| "mem_call (ZRANGE_0_0 k) s = (let d = mem_db s in
     mem_read (is_zset d k) (RArr (map (\<lambda>p. Text (fst p)) (take 1 (zsetv d k)))) s)"
| "mem_call (ZRANGE_0_0_WITHSCORES k) s = (let d = mem_db s in
     mem_read (is_zset d k)
       (RArr (concat (map (\<lambda>p. [Text (fst p), inum (snd p)]) (take 1 (zsetv d k))))) s)"
| "mem_call (ZRANGEBYSCORE_below k hi) s = (let d = mem_db s in
     mem_read (is_zset d k)
       (RArr (map (\<lambda>p. Text (fst p)) (filter (\<lambda>p. snd p < hi) (zsetv d k)))) s)"
| "mem_call (HGET k f) s = (let d = mem_db s in
     mem_read (is_hash d k) (bulk_reply (map_of (hashv d k) f)) s)"
| "mem_call (HSET k fvs) s = (let d = mem_db s; h = hashv d k in
     mem_write (is_hash d k)
       (RInt (int (length (hash_set fvs h)) - int (length h)))
       (put_hash d k (hash_set fvs h)) s)"
| "mem_call (HDEL k f) s = (let d = mem_db s; h = hashv d k in
     mem_write (is_hash d k) (RInt (if map_of h f = None then 0 else 1))
       (put_hash d k (AList.delete f h)) s)"

text \<open>A key is gone once the clock has passed its deadline.\<close>

definition mem_elapse :: "int \<Rightarrow> mem \<Rightarrow> mem" where
  "mem_elapse T s = \<lparr>mclock = T,
     mdata = (\<lambda>k. case mem_db s k of
         Some (v, Some e) \<Rightarrow> if e < T then None else Some (v, Some e)
       | x \<Rightarrow> x)\<rparr>"

definition mem_redis :: "mem redis" where
  "mem_redis = \<lparr>call = mem_call, elapse = mem_elapse\<rparr>"

definition empty_mem :: mem where
  "empty_mem = \<lparr>mclock = 0, mdata = (\<lambda>_. None)\<rparr>"

definition db_ranked :: "keyspace \<Rightarrow> bool" where
  "db_ranked d = (\<forall>k z e. d k = Some (VZset z, e) \<longrightarrow> zwf z \<and> z \<noteq> [])"

lemma db_ranked_mem_db [simp]: "db_ranked (mem_db s)"
  by (auto simp: db_ranked_def mem_db_def split: option.splits rval.splits if_splits)

lemma mem_db_ranked: "db_ranked d \<Longrightarrow> mem_db (s\<lparr>mdata := d\<rparr>) = d"
  by (rule ext) (auto simp: db_ranked_def mem_db_def split: option.splits rval.splits)

lemma db_ranked_updates [simp]:
  "db_ranked d \<Longrightarrow> db_ranked (d(k := None))"
  "db_ranked d \<Longrightarrow> db_ranked (d(k := Some (VStr b, e)))"
  "db_ranked d \<Longrightarrow> db_ranked (put_str d k b)"
  "db_ranked d \<Longrightarrow> zwf z \<Longrightarrow> db_ranked (put_zset d k z)"
  "db_ranked d \<Longrightarrow> db_ranked (put_hash d k h)"
  "db_ranked d \<Longrightarrow> db_ranked (set_ttl d k t)"
  by (auto simp: db_ranked_def kv_defs split: option.splits)

lemma zwf_zsetv: "db_ranked d \<Longrightarrow> zwf (zsetv d k)"
  by (auto simp: db_ranked_def zsetv_def split: option.splits rval.splits)

lemma mem_db_elapse: "mem_db (mem_elapse T s) = (\<lambda>k. case mem_db s k of
     Some (v, Some e) \<Rightarrow> if e < T then None else Some (v, Some e) | x \<Rightarrow> x)"
  by (rule ext) (auto simp: mem_elapse_def mem_db_def split: option.splits rval.splits if_splits)

lemma mclock_mem_elapse: "mclock (mem_elapse T s) = T"
  by (simp add: mem_elapse_def)

lemma mclock_mem_call: "mclock (snd (mem_call c s)) = mclock s"
  by (cases c) (auto simp: mem_read_def mem_write_def wrongtype_def Let_def split: option.splits)

lemma mem_call_frame: "k \<noteq> cmd_key c \<Longrightarrow> mem_db (snd (mem_call c s)) k = mem_db s k"
  by (cases c) (auto simp: mem_read_def mem_write_def wrongtype_def Let_def mem_db_ranked zwf_zsetv zwf_zadd zwf_zrem zwf_filter
      put_other split: option.splits)

lemma mem_call_wrong_type: "\<not> well_typed (mem_db s) c \<Longrightarrow> \<exists>msg. view mem_db (mem_call c s) = (RErr msg, mem_db s)"
  by (cases c) (auto simp: view_def mem_read_def mem_write_def wrongtype_def Let_def counter_def is_str_def split: option.splits rval.splits)

lemmas mem_simps = mem_redis_def view_def mem_read_def mem_write_def wrongtype_def Let_def
  mem_db_ranked zwf_zsetv zwf_zadd zwf_zrem zwf_filter

interpretation mem: redis_server mem_redis mclock mem_db
proof (unfold_locales, goal_cases)
  case (3 s c)
  then show ?case using mem_call_wrong_type by (simp add: mem_redis_def)
next
  case (10 s k z x)
  then show ?case using db_ranked_mem_db [of s] by (auto simp: db_ranked_def)
qed (auto simp: mem_simps mclock_mem_call mem_call_frame mem_db_elapse mclock_mem_elapse split: option.splits)

lemma mem_server: "redis_server mem_redis mclock mem_db"
  by unfold_locales

section \<open>Access after an update\<close>

lemma strv_put [kv]:
  "strv (put_str d k b) j = (if j = k then Some b else strv d j)"
  "strv (put_zset d k z) j = (if j = k then None else strv d j)"
  "strv (put_hash d k h) j = (if j = k then None else strv d j)"
  "strv (set_ttl d k e) j = strv d j"
  "strv (d(k := None)) j = (if j = k then None else strv d j)"
  "strv (d(k := Some (VStr b, x))) j = (if j = k then Some b else strv d j)"
  by (auto simp: kv_defs split: option.splits)

lemma zsetv_put [kv]:
  "zsetv (put_str d k b) j = (if j = k then [] else zsetv d j)"
  "zsetv (put_zset d k z) j = (if j = k then z else zsetv d j)"
  "zsetv (put_hash d k h) j = (if j = k then [] else zsetv d j)"
  "zsetv (set_ttl d k e) j = zsetv d j"
  "zsetv (d(k := None)) j = (if j = k then [] else zsetv d j)"
  "zsetv (d(k := Some (VStr b, x))) j = (if j = k then [] else zsetv d j)"
  by (auto simp: kv_defs split: option.splits)

lemma hashv_put [kv]:
  "hashv (put_str d k b) j = (if j = k then [] else hashv d j)"
  "hashv (put_zset d k z) j = (if j = k then [] else hashv d j)"
  "hashv (put_hash d k h) j = (if j = k then h else hashv d j)"
  "hashv (set_ttl d k e) j = hashv d j"
  "hashv (d(k := None)) j = (if j = k then [] else hashv d j)"
  "hashv (d(k := Some (VStr b, x))) j = (if j = k then [] else hashv d j)"
  by (auto simp: kv_defs split: option.splits)

lemma is_str_put [kv]:
  "is_str (put_str d k b) j = (j = k \<or> is_str d j)"
  "is_str (put_zset d k z) j = (if j = k then z = [] else is_str d j)"
  "is_str (put_hash d k h) j = (if j = k then h = [] else is_str d j)"
  "is_str (set_ttl d k e) j = is_str d j"
  "is_str (d(k := None)) j = (j = k \<or> is_str d j)"
  "is_str (d(k := Some (VStr b, x))) j = (j = k \<or> is_str d j)"
  by (auto simp: kv_defs split: option.splits)

lemma is_zset_put [kv]:
  "is_zset (put_str d k b) j = (j \<noteq> k \<and> is_zset d j)"
  "is_zset (put_zset d k z) j = (j = k \<or> is_zset d j)"
  "is_zset (put_hash d k h) j = (if j = k then h = [] else is_zset d j)"
  "is_zset (set_ttl d k e) j = is_zset d j"
  "is_zset (d(k := None)) j = (j = k \<or> is_zset d j)"
  "is_zset (d(k := Some (VStr b, x))) j = (j \<noteq> k \<and> is_zset d j)"
  by (auto simp: kv_defs split: option.splits)

lemma is_hash_put [kv]:
  "is_hash (put_str d k b) j = (j \<noteq> k \<and> is_hash d j)"
  "is_hash (put_zset d k z) j = (if j = k then z = [] else is_hash d j)"
  "is_hash (put_hash d k h) j = (j = k \<or> is_hash d j)"
  "is_hash (set_ttl d k e) j = is_hash d j"
  "is_hash (d(k := None)) j = (j = k \<or> is_hash d j)"
  "is_hash (d(k := Some (VStr b, x))) j = (j \<noteq> k \<and> is_hash d j)"
  by (auto simp: kv_defs split: option.splits)

lemma ttlv_put [kv]:
  "ttlv (put_str d k b) j = ttlv d j"
  "ttlv (put_zset d k z) j = (if j = k \<and> z = [] then None else ttlv d j)"
  "ttlv (put_hash d k h) j = (if j = k \<and> h = [] then None else ttlv d j)"
  "ttlv (set_ttl d k e) j = (if j = k then (if d k = None then None else Some e) else ttlv d j)"
  "ttlv (d(k := None)) j = (if j = k then None else ttlv d j)"
  "ttlv (d(k := Some (v, x))) j = (if j = k then x else ttlv d j)"
  by (auto simp: kv_defs split: option.splits)

lemma absent_put [kv]:
  "put_str d k b j = None \<longleftrightarrow> j \<noteq> k \<and> d j = None"
  "put_zset d k z j = None \<longleftrightarrow> (if j = k then z = [] else d j = None)"
  "put_hash d k h j = None \<longleftrightarrow> (if j = k then h = [] else d j = None)"
  "set_ttl d k e j = None \<longleftrightarrow> d j = None"
  by (auto simp: kv_defs split: option.splits)

lemma counter_put [kv]:
  "counter (put_str d k (inum n)) j = (if j = k then Some n else counter d j)"
  "j \<noteq> k \<Longrightarrow> counter (put_zset d k z) j = counter d j"
  "j \<noteq> k \<Longrightarrow> counter (put_hash d k h) j = counter d j"
  "counter (set_ttl d k e) j = counter d j"
  "j \<noteq> k \<Longrightarrow> counter (d(k := x)) j = counter d j"
  by (auto simp: kv_defs inum_def split: option.splits)

lemma strv_eq_Some: "strv d k = Some b \<longleftrightarrow> (\<exists>e. d k = Some (VStr b, e))"
  by (auto simp: strv_def split: option.splits rval.splits)

lemma strv_None: "is_str d k \<Longrightarrow> strv d k = None \<longleftrightarrow> d k = None"
  by (auto simp: strv_def is_str_def split: option.splits rval.splits)

end
