(* ===== verification/Script.thy ===== *)
theory Script
  imports Redis
begin

text \<open>
  How a Lua script runs on the server and how go-redis runs it from the client. A script is
  a computation over the server's state that returns a Lua value or raises an error
  (\<^verbatim>\<open>redis.call\<close> raises on an error reply). The server runs a script without other
  commands in between and with its clock stopped. \<open>Run\<close> is \<^verbatim>\<open>Script.Run\<close> of go-redis
  over a network that may lose requests and replies.
\<close>

section \<open>Lua computations\<close>

type_synonym ('s, 'a) lua = "'s \<Rightarrow> (string + 'a) \<times> 's"

definition lua_return :: "'a \<Rightarrow> ('s, 'a) lua" where
  "lua_return x s = (Inr x, s)"

definition lua_bind :: "('s, 'a) lua \<Rightarrow> ('a \<Rightarrow> ('s, 'b) lua) \<Rightarrow> ('s, 'b) lua" where
  "lua_bind m f s = (case m s of (Inl e, s') \<Rightarrow> (Inl e, s') | (Inr x, s') \<Rightarrow> f x s')"

definition redis_call :: "'s redis \<Rightarrow> cmd \<Rightarrow> ('s, reply) lua" where
  "redis_call R c s = (case call R c s of (RErr e, s') \<Rightarrow> (Inl e, s') | (r, s') \<Rightarrow> (Inr r, s'))"

text \<open>
  \<^verbatim>\<open>local x = redis.call(c) ...\<close> is \<open>invoke R c (\<lambda>x. ...)\<close>; \<open>for_each xs f m\<close> is the
  numeric loop over the arguments followed by \<open>m\<close>.
\<close>

definition invoke :: "'s redis \<Rightarrow> cmd \<Rightarrow> (reply \<Rightarrow> ('s, 'b) lua) \<Rightarrow> ('s, 'b) lua" where
  "invoke R c f = lua_bind (redis_call R c) f"

text \<open>\<^verbatim>\<open>tonumber\<close>; a nil bulk reply is \<^verbatim>\<open>false\<close> in Lua and has no number.\<close>

fun tonumber :: "reply \<Rightarrow> rat option" where
  "tonumber (RBulk (Num q)) = Some q"
| "tonumber (RInt n) = Some (of_int n)"
| "tonumber _ = None"

lemma tonumber_inum [simp]: "tonumber (RBulk (inum n)) = Some (of_int n)"
  by (simp add: inum_def)

fun truthy :: "reply \<Rightarrow> bool" where
  "truthy RNil = False"
| "truthy _ = True"

text \<open>
  What a script returns: Lua's nil, a number (cut to an integer on the way out), or a
  table of numbers.
\<close>

datatype sreply = SNil | SInt int | SInts "int list"

definition to_integer :: "rat \<Rightarrow> int" where
  "to_integer q = (if q < 0 then \<lceil>q\<rceil> else \<lfloor>q\<rfloor>)"

definition number_reply :: "rat option \<Rightarrow> sreply" where
  "number_reply q = (case q of None \<Rightarrow> SNil | Some x \<Rightarrow> SInt (to_integer x))"

lemma to_integer_of_int [simp]: "to_integer (of_int n) = n"
  by (simp add: to_integer_def)

lemma number_reply_simps [simp]:
  "number_reply None = SNil" "number_reply (Some x) = SInt (to_integer x)"
  by (simp_all add: number_reply_def)

text \<open>\<^verbatim>\<open>return redis.call(...)\<close> and \<^verbatim>\<open>return tonumber(redis.call(...))\<close> for a numeric reply.\<close>

definition integer_reply :: "reply \<Rightarrow> sreply" where
  "integer_reply r = number_reply (tonumber r)"

lemma integer_reply_simps [simp]:
  "integer_reply (RInt n) = SInt n"
  "integer_reply (RBulk (inum n)) = SInt n"
  "integer_reply RNil = SNil"
  by (simp_all add: integer_reply_def)

section \<open>go-redis\<close>

text \<open>
  One \<^verbatim>\<open>Run\<close> as the network lets it happen. \<open>Reply ts t\<close>: the script ran at the server
  times \<open>ts\<close> with the replies lost and go-redis retrying, then at time \<open>t\<close> with its
  reply delivered. \<open>Fail ts e\<close>: it ran at the times \<open>ts\<close> (perhaps never) and the client
  gave up with the transport or context error \<open>e\<close>.
\<close>

datatype transport = Reply "int list" int | Fail "int list" goerr

fun run_lost :: "'s redis \<Rightarrow> ('s, 'a) lua \<Rightarrow> int list \<Rightarrow> 's \<Rightarrow> 's" where
  "run_lost R m [] s = s"
| "run_lost R m (t # ts) s = run_lost R m ts (snd (m (elapse R t s)))"

fun Run :: "'s redis \<Rightarrow> transport \<Rightarrow> ('s, 'a) lua \<Rightarrow> 's \<Rightarrow> (goerr + 'a) \<times> 's" where
  "Run R (Fail ts e) m s = (Inl e, run_lost R m ts s)"
| "Run R (Reply ts t) m s = (case m (elapse R t (run_lost R m ts s)) of
       (Inl e, s') \<Rightarrow> (Inl (ScriptError e), s')
     | (Inr x, s') \<Rightarrow> (Inr x, s'))"

text \<open>
  \<^verbatim>\<open>.Int64()\<close> on a script's reply: \<^verbatim>\<open>redis.Nil\<close> for a nil reply (\<open>Inr None\<close> here, so that
  the callers' test \<^verbatim>\<open>err == redis.Nil\<close> is a case), an error for anything but a number.
\<close>

fun Int64 :: "(goerr + sreply) \<times> 's \<Rightarrow> (goerr + int option) \<times> 's" where
  "Int64 (Inl e, s) = (Inl e, s)"
| "Int64 (Inr SNil, s) = (Inr None, s)"
| "Int64 (Inr (SInt n), s) = (Inr (Some n), s)"
| "Int64 (Inr (SInts _), s) = (Inl (Message ''redis: unexpected type for Int64''), s)"

text \<open>What go-redis returns for a nil reply where an integer is expected.\<close>

definition redis_Nil :: goerr where "redis_Nil = Message ''redis: nil''"

text \<open>Times at which the server runs a request are not before its clock and do not go back.\<close>

fun times_from :: "int \<Rightarrow> int list \<Rightarrow> bool" where
  "times_from t [] = True"
| "times_from t (u # us) = (t \<le> u \<and> times_from u us)"

fun transport_ok :: "int \<Rightarrow> transport \<Rightarrow> bool" where
  "transport_ok t (Fail ts e) = times_from t ts"
| "transport_ok t (Reply ts u) = times_from t (ts @ [u])"

lemma times_from_snoc: "times_from t0 (ts @ [t]) \<longleftrightarrow>
    times_from t0 ts \<and> (if ts = [] then t0 else last ts) \<le> t"
  by (induction ts arbitrary: t0) auto

section \<open>Symbolic execution\<close>

definition after :: "'s redis \<Rightarrow> cmd \<Rightarrow> 's \<Rightarrow> 's" where
  "after R c s = snd (call R c s)"

lemma invoke_view:
  assumes "view db (call R c s) = (r, d)" and "\<forall>e. r \<noteq> RErr e"
  shows "invoke R c f s = f r (after R c s)"
  using assms
  by (cases "call R c s") (auto simp: view_def invoke_def lua_bind_def redis_call_def after_def split: reply.splits)

lemma invoke_error:
  assumes "view db (call R c s) = (RErr e, d)"
  shows "invoke R c f s = (Inl e, after R c s)"
  using assms
  by (cases "call R c s") (auto simp: view_def invoke_def lua_bind_def redis_call_def after_def split: reply.splits)

lemma after_view: "view db (call R c s) = (r, d) \<Longrightarrow> db (after R c s) = d"
  by (auto simp: view_def after_def)

lemma bulk_reply_no_error [simp]: "bulk_reply b \<noteq> RErr e"
  by (simp add: bulk_reply_def split: option.splits)

section \<open>The keys a script uses\<close>

text \<open>
  A computation that issues commands on keys of \<open>K\<close> only: whatever every such command keeps of
  the server's state, the computation keeps as well.
\<close>

definition only_keys :: "'s redis \<Rightarrow> string set \<Rightarrow> ('s, 'a) lua \<Rightarrow> bool" where
  "only_keys R K m = (\<forall>Q. (\<forall>c s. cmd_key c \<in> K \<longrightarrow> Q s \<longrightarrow> Q (snd (call R c s))) \<longrightarrow> (\<forall>s. Q s \<longrightarrow> Q (snd (m s))))"

lemma only_keys_return [confined]: "only_keys R K (lua_return x)"
  by (simp add: only_keys_def lua_return_def)

lemma only_keys_raise [confined]: "only_keys R K (\<lambda>s. (Inl e, s))"
  by (simp add: only_keys_def)

lemma only_keys_invoke [confined]:
  assumes "cmd_key c \<in> K" and "\<And>r. only_keys R K (f r)"
  shows "only_keys R K (invoke R c f)"
  unfolding only_keys_def
proof (intro allI impI)
  fix Q s assume Q: "\<forall>c s. cmd_key c \<in> K \<longrightarrow> Q s \<longrightarrow> Q (snd (call R c s))" and s: "Q s"
  obtain r s' where c: "call R c s = (r, s')" by fastforce
  then have "Q s'" using Q s assms(1) by (metis snd_conv)
  then have "Q (snd (f r s'))" using assms(2) [of r] Q by (auto simp: only_keys_def)
  then show "Q (snd (invoke R c f s))" using c \<open>Q s'\<close>
    by (cases r) (simp_all add: invoke_def lua_bind_def redis_call_def)
qed

lemma only_keys_call [confined]: "cmd_key c \<in> K \<Longrightarrow> only_keys R K (redis_call R c)"
  by (auto simp: only_keys_def redis_call_def split: prod.splits reply.splits) (metis snd_conv)+

lemma only_keys_if [confined]: "only_keys R K a \<Longrightarrow> only_keys R K b \<Longrightarrow> only_keys R K (if P then a else b)"
  by simp

lemma only_keys_option [confined]:
  "only_keys R K a \<Longrightarrow> (\<And>x. only_keys R K (f x)) \<Longrightarrow> only_keys R K (case y of None \<Rightarrow> a | Some x \<Rightarrow> f x)"
  by (cases y) simp_all

lemma only_keysD:
  assumes "only_keys R K m" and "\<And>c s. cmd_key c \<in> K \<Longrightarrow> Q s \<Longrightarrow> Q (snd (call R c s))" and "Q s"
  shows "Q (snd (m s))"
  using assms unfolding only_keys_def by blast

lemma only_keys_mono: "only_keys R K m \<Longrightarrow> K \<subseteq> K' \<Longrightarrow> only_keys R K' m"
  unfolding only_keys_def by blast

context redis_server
begin

lemma clock_after [redis_step]: "clock (after R c s) = clock s"
  by (simp add: after_def clock_call)

lemmas read_laws = get_law exists_law zscore_law zcard_law zrange_law zrange_withscores_law
  zrangebyscore_law hget_law

lemma read_after [redis_step]:
  "is_str (db s) k \<Longrightarrow> db (after R (GET k) s) = db s"
  "db (after R (EXISTS k) s) = db s"
  "is_zset (db s) k \<Longrightarrow> db (after R (ZSCORE k m) s) = db s"
  "is_zset (db s) k \<Longrightarrow> db (after R (ZCARD k) s) = db s"
  "is_zset (db s) k \<Longrightarrow> db (after R (ZRANGE_0_0 k) s) = db s"
  "is_zset (db s) k \<Longrightarrow> db (after R (ZRANGE_0_0_WITHSCORES k) s) = db s"
  "is_zset (db s) k \<Longrightarrow> db (after R (ZRANGEBYSCORE_below k hi) s) = db s"
  "is_hash (db s) k \<Longrightarrow> db (after R (HGET k m) s) = db s"
  by (auto intro: after_view read_laws)

lemma read_invoke [redis_step]:
  "is_str (db s) k \<Longrightarrow> invoke R (GET k) f s = f (bulk_reply (strv (db s) k)) (after R (GET k) s)"
  "invoke R (EXISTS k) f s = f (RInt (if db s k = None then 0 else 1)) (after R (EXISTS k) s)"
  "is_zset (db s) k \<Longrightarrow> invoke R (ZSCORE k m) f s =
     f (bulk_reply (map_option inum (map_of (zsetv (db s) k) m))) (after R (ZSCORE k m) s)"
  "is_zset (db s) k \<Longrightarrow> invoke R (ZCARD k) f s =
     f (RInt (int (length (zsetv (db s) k)))) (after R (ZCARD k) s)"
  "is_zset (db s) k \<Longrightarrow> invoke R (ZRANGE_0_0 k) f s =
     f (RArr (map (\<lambda>p. Text (fst p)) (take 1 (zsetv (db s) k)))) (after R (ZRANGE_0_0 k) s)"
  "is_zset (db s) k \<Longrightarrow> invoke R (ZRANGE_0_0_WITHSCORES k) f s =
     f (RArr (concat (map (\<lambda>p. [Text (fst p), inum (snd p)]) (take 1 (zsetv (db s) k)))))
       (after R (ZRANGE_0_0_WITHSCORES k) s)"
  "is_zset (db s) k \<Longrightarrow> invoke R (ZRANGEBYSCORE_below k hi) f s =
     f (RArr (map (\<lambda>p. Text (fst p)) (filter (\<lambda>p. snd p < hi) (zsetv (db s) k))))
       (after R (ZRANGEBYSCORE_below k hi) s)"
  "is_hash (db s) k \<Longrightarrow> invoke R (HGET k m) f s =
     f (bulk_reply (map_of (hashv (db s) k) m)) (after R (HGET k m) s)"
  by (simp_all add: invoke_view [OF get_law] invoke_view [OF exists_law] invoke_view [OF zscore_law]
      invoke_view [OF zcard_law] invoke_view [OF zrange_law] invoke_view [OF zrange_withscores_law]
      invoke_view [OF zrangebyscore_law] invoke_view [OF hget_law])

lemma write_after [redis_step]:
  "db (after R (DEL k) s) = (db s)(k := None)"
  "0 < t \<Longrightarrow> db (after R (SET_PX k b t) s) = (db s)(k := Some (VStr b, Some (clock s + t)))"
  "0 < t \<Longrightarrow> db (after R (SET_NX_PX k b t) s) =
     (if db s k = None then (db s)(k := Some (VStr b, Some (clock s + t))) else db s)"
  "counter (db s) k = Some n \<Longrightarrow> \<bar>n + i\<bar> < 2 ^ 63 \<Longrightarrow>
     db (after R (INCRBY k i) s) = put_str (db s) k (inum (n + i))"
  "db (after R (PEXPIRE k t) s) =
     (if t \<le> 0 then (db s)(k := None) else set_ttl (db s) k (clock s + t))"
  "is_zset (db s) k \<Longrightarrow> db (after R (ZADD k sc m) s) =
     put_zset (db s) k (zadd m sc (zsetv (db s) k))"
  "is_zset (db s) k \<Longrightarrow> db (after R (ZREM k m) s) =
     put_zset (db s) k (zrem m (zsetv (db s) k))"
  "is_zset (db s) k \<Longrightarrow> db (after R (ZREMRANGEBYSCORE k hi) s) =
     put_zset (db s) k (filter (\<lambda>p. hi < snd p) (zsetv (db s) k))"
  "is_hash (db s) k \<Longrightarrow> fvs \<noteq> [] \<Longrightarrow>
     db (after R (HSET k fvs) s) = put_hash (db s) k (hash_set fvs (hashv (db s) k))"
  "is_hash (db s) k \<Longrightarrow> db (after R (HDEL k m) s) =
     put_hash (db s) k (AList.delete m (hashv (db s) k))"
  using hset_law [of s k fvs]
  by (auto simp: after_view [OF del_law] after_view [OF set_px_law] after_view [OF incrby_law]
      after_view [OF pexpire_law] after_view [OF zadd_law] after_view [OF zrem_law]
      after_view [OF zremrangebyscore_law] after_view [OF hdel_law]
      after_view [OF set_nx_law [THEN trans]] dest: after_view)

lemma set_px_invoke [redis_step]:
  "0 < t \<Longrightarrow> invoke R (SET_PX k b t) f s = f ROk (after R (SET_PX k b t) s)"
  by (simp add: invoke_view [OF set_px_law])

lemma set_nx_invoke [redis_step]:
  "0 < t \<Longrightarrow> invoke R (SET_NX_PX k b t) f s =
     f (if db s k = None then ROk else RNil) (after R (SET_NX_PX k b t) s)"
  by (cases "db s k = None") (simp_all add: invoke_view [OF set_nx_law [THEN trans]])

lemma write_invoke [redis_step]:
  "invoke R (DEL k) f s = f (RInt (if db s k = None then 0 else 1)) (after R (DEL k) s)"
  "counter (db s) k = Some n \<Longrightarrow> \<bar>n + i\<bar> < 2 ^ 63 \<Longrightarrow>
     invoke R (INCRBY k i) f s = f (RInt (n + i)) (after R (INCRBY k i) s)"
  "invoke R (PEXPIRE k t) f s = f (RInt (if db s k = None then 0 else 1)) (after R (PEXPIRE k t) s)"
  "is_zset (db s) k \<Longrightarrow> invoke R (ZADD k sc m) f s =
     f (RInt (if map_of (zsetv (db s) k) m = None then 1 else 0)) (after R (ZADD k sc m) s)"
  "is_zset (db s) k \<Longrightarrow> invoke R (ZREM k m) f s =
     f (RInt (if map_of (zsetv (db s) k) m = None then 0 else 1)) (after R (ZREM k m) s)"
  "is_zset (db s) k \<Longrightarrow> invoke R (ZREMRANGEBYSCORE k hi) f s =
     f (RInt (int (length (filter (\<lambda>p. snd p \<le> hi) (zsetv (db s) k)))))
       (after R (ZREMRANGEBYSCORE k hi) s)"
  "is_hash (db s) k \<Longrightarrow> invoke R (HDEL k m) f s =
     f (RInt (if map_of (hashv (db s) k) m = None then 0 else 1)) (after R (HDEL k m) s)"
  by (simp_all add: invoke_view [OF del_law] invoke_view [OF incrby_law] invoke_view [OF pexpire_law]
      invoke_view [OF zadd_law] invoke_view [OF zrem_law] invoke_view [OF zremrangebyscore_law]
      invoke_view [OF hdel_law])

lemma hset_invoke [redis_step]:
  assumes "is_hash (db s) k" and "fvs \<noteq> []"
  shows "invoke R (HSET k fvs) (\<lambda>_. m) s = m (after R (HSET k fvs) s)"
proof -
  obtain n where "view db (call R (HSET k fvs) s) =
      (RInt n, put_hash (db s) k (hash_set fvs (hashv (db s) k)))"
    using hset_law [OF assms] by blast
  then show ?thesis by (simp add: invoke_view)
qed

text \<open>An invalid time to live is an error of the command, and so of the script.\<close>

lemma set_nx_invoke_invalid:
  assumes "t \<le> 0"
  shows "\<exists>msg. invoke R (SET_NX_PX k b t) f s = (Inl msg, after R (SET_NX_PX k b t) s)"
    and "db (after R (SET_NX_PX k b t) s) = db s"
  using set_nx_invalid [OF assms, of k b s] by (auto dest: invoke_error after_view)

lemma set_px_invoke_invalid:
  assumes "t \<le> 0"
  shows "\<exists>msg. invoke R (SET_PX k b t) f s = (Inl msg, after R (SET_PX k b t) s)"
    and "db (after R (SET_PX k b t) s) = db s"
  using set_px_invalid [OF assms, of k b s] by (auto dest: invoke_error after_view)

lemma zwf_zsetv_db [simp]: "zwf (zsetv (db s) k)"
  using zset_ranked [of s k] by (auto simp: zsetv_def split: option.splits rval.splits)

lemma zsetv_empty: "is_zset (db s) k \<Longrightarrow> zsetv (db s) k = [] \<longleftrightarrow> db s k = None"
  using zset_ranked [of s k] by (auto simp: zsetv_def is_zset_def split: option.splits rval.splits)

text \<open>Other keys, and the clock, are as they were.\<close>

lemma only_keys_frame: "only_keys R K m \<Longrightarrow> k \<notin> K \<Longrightarrow> db (snd (m s)) k = db s k"
  using only_keysD [where Q = "\<lambda>s'. db s' k = db s k", of R K m s] call_frame by metis

lemma only_keys_clock: "only_keys R K m \<Longrightarrow> clock (snd (m s)) = clock s"
  using only_keysD [where Q = "\<lambda>s'. clock s' = clock s", of R K m s] clock_call by metis

section \<open>The passing of time\<close>

lemma elapse_cases:
  assumes "clock s \<le> T"
  obtains "db (elapse R T s) k = db s k"
  | v e where "db s k = Some (v, Some e)" "e \<le> T" "db (elapse R T s) k = None"
proof (cases "db s k")
  case None
  then show ?thesis using elapse_absent [OF assms] that(1) by simp
next
  case (Some p)
  obtain v x where p: "p = (v, x)" by fastforce
  show ?thesis
  proof (cases x)
    case None
    then show ?thesis using elapse_persistent [OF assms] Some p that(1) by simp
  next
    case (Some e)
    then show ?thesis
      using elapse_live [OF assms] elapse_either [OF assms, of k] \<open>db s k = Some p\<close> p that
      by (cases "T < e") auto
  qed
qed

lemma elapse_types:
  assumes "clock s \<le> T"
  shows "is_str (db s) k \<Longrightarrow> is_str (db (elapse R T s)) k"
    and "is_zset (db s) k \<Longrightarrow> is_zset (db (elapse R T s)) k"
    and "is_hash (db s) k \<Longrightarrow> is_hash (db (elapse R T s)) k"
  using elapse_either [OF assms, of k] by (auto simp: is_str_def is_zset_def is_hash_def)

lemma elapse_without_ttl:
  assumes "clock s \<le> T" and "ttlv (db s) k = None"
  shows "db (elapse R T s) k = db s k"
  using assms(2) by (cases rule: elapse_cases [OF assms(1), of k]) (auto simp: ttlv_def)

text \<open>A key that a request does not use stays absent.\<close>

lemma run_lost_absent:
  assumes "only_keys R K m" "k \<notin> K" "times_from (clock s) ts" "db s k = None"
  shows "db (run_lost R m ts s) k = None \<and> clock (run_lost R m ts s) = last (clock s # ts)"
  using assms(3,4)
proof (induction ts arbitrary: s)
  case (Cons t ts)
  have "db (snd (m (elapse R t s))) k = None" "clock (snd (m (elapse R t s))) = t"
    using only_keys_frame [OF assms(1,2)] only_keys_clock [OF assms(1)] elapse_absent clock_elapse Cons.prems by auto
  then show ?case using Cons.IH [of "snd (m (elapse R t s))"] Cons.prems by simp
qed simp

lemma Run_absent:
  assumes "only_keys R K m" "k \<notin> K" "transport_ok (clock s) tr" "db s k = None"
  shows "db (snd (Run R tr m s)) k = None"
proof (cases tr)
  case (Fail ts e)
  then show ?thesis using run_lost_absent [OF assms(1,2) _ assms(4), of ts] assms(3) by simp
next
  case (Reply ts t)
  let ?s = "run_lost R m ts s"
  have ts: "times_from (clock s) ts" "last (clock s # ts) \<le> t" using assms(3) Reply by (simp_all add: times_from_snoc split: if_splits)
  have "db ?s k = None" "clock ?s \<le> t" using run_lost_absent [OF assms(1,2) ts(1) assms(4)] ts(2) by simp_all
  then have "db (snd (m (elapse R t ?s))) k = None" using only_keys_frame [OF assms(1,2)] elapse_absent by simp
  then show ?thesis using Reply by (auto split: prod.splits sum.splits)
qed

end

end
