(* ===== verification/Lease.thy ===== *)
theory Lease
  imports Script
begin

text \<open>
  \<^verbatim>\<open>internal/lease/lease.go\<close>: owner tokens, the local deadline of a request, the \<^verbatim>\<open>Lease\<close>
  interface as a dictionary of its methods, and the clean-up of a grant that arrives too late
  to be used. What the environment decides (clock readings, the network, random bytes) is an
  argument of the operation that observes it.
\<close>

section \<open>Owner tokens\<close>

text \<open>\<^verbatim>\<open>hex.EncodeToString\<close>: two lower-case digits for each byte.\<close>

definition hex_digit :: "nat \<Rightarrow> char" where
  "hex_digit n = ''0123456789abcdef'' ! (n mod 16)"

definition EncodeToString :: "8 word list \<Rightarrow> string" where
  "EncodeToString bs = concat (map (\<lambda>b. [hex_digit (unat b div 16), hex_digit (unat b)]) bs)"

text \<open>
  \<^verbatim>\<open>Token\<close> over the bytes \<^verbatim>\<open>rand.Read\<close> fills in; \<^term>\<open>None\<close> is a failure of the random
  source, on which \<^verbatim>\<open>Token\<close> panics.
\<close>

definition Token :: "8 word list option \<Rightarrow> string option" where
  "Token b = map_option EncodeToString b"

section \<open>Deadlines\<close>

definition requestExpiry :: "instant \<Rightarrow> duration \<Rightarrow> instant" where
  "requestExpiry start ttl = start + int64 (ttl - quot ttl 100 - Millisecond)"

section \<open>The interface\<close>

text \<open>
  What an acquisition observes: the clock before the request and after the reply, the
  network, and the network of the release that discards a late grant.
\<close>

record acq_env =
  acq_started :: instant
  acq_net :: transport
  acq_replied :: instant
  acq_late_net :: transport

text \<open>A renewal reads the clock before the request and twice after the reply.\<close>

record renew_env =
  ren_started :: instant
  ren_net :: transport
  ren_replied :: instant
  ren_checked :: instant

text \<open>
  The \<^verbatim>\<open>Lease\<close> interface as its method table: \<open>'l\<close> is the lease object, \<open>'s\<close> the server.
  A method takes the object and the server and returns both updated. \<^verbatim>\<open>Held\<close> reads the
  clock and makes one request per token it checks, the \<open>i\<close>-th over the \<open>i\<close>-th transport.
\<close>

record ('l, 's) lease_ops =
  ID :: "'l \<Rightarrow> string"
  Acquire :: "acq_env \<Rightarrow> 'l \<Rightarrow> 's \<Rightarrow> goerr option \<times> 'l \<times> 's"
  Renew :: "renew_env \<Rightarrow> 'l \<Rightarrow> 's \<Rightarrow> goerr option \<times> 'l \<times> 's"
  Release :: "transport \<Rightarrow> 'l \<Rightarrow> 's \<Rightarrow> goerr option \<times> 'l \<times> 's"
  Held :: "instant \<Rightarrow> (nat \<Rightarrow> transport) \<Rightarrow> 'l \<Rightarrow> 's \<Rightarrow> (goerr + bool) \<times> 's"
  ExpiresAt :: "'l \<Rightarrow> instant option"

definition discardLateGrant ::
  "(transport \<Rightarrow> 'l \<Rightarrow> 's \<Rightarrow> goerr option \<times> 'l \<times> 's) \<Rightarrow> transport \<Rightarrow> 'l \<Rightarrow> 's \<Rightarrow> goerr option \<times> 'l \<times> 's"
where
  "discardLateGrant release tr l s =
     (let (e, l', s') = release tr l s in (errors_Join (Some ErrLost) e, l', s'))"

text \<open>
  The four leases confirm a grant and a renewal alike. A grant is confirmed when its reply is
  read before the deadline. A renewal is confirmed when the old deadline is still ahead at one
  clock reading and the new one at the next; the later deadline is kept. \<^term>\<open>None\<close> is
  \<^verbatim>\<open>ErrLost\<close>.
\<close>

definition confirm_renewal ::
  "instant option \<Rightarrow> instant \<Rightarrow> instant \<Rightarrow> instant \<Rightarrow> instant option option" where
  "confirm_renewal expiresAt deadline now1 now2 =
     (if \<not> After expiresAt now1 \<or> \<not> now2 < deadline then None
      else if (case expiresAt of None \<Rightarrow> True | Some x \<Rightarrow> x < deadline) then Some (Some deadline)
      else Some expiresAt)"

section \<open>Lemmas\<close>

lemma confirm_renewal_cases:
  assumes "confirm_renewal x deadline now1 now2 = Some y"
  obtains d where "x = Some d" "now1 < d" "now2 < deadline" "y = Some (max d deadline)"
  using assms that by (cases x) (auto simp: confirm_renewal_def max_def split: if_splits)

lemma hex_digit_eq: "m < 16 \<Longrightarrow> n < 16 \<Longrightarrow> hex_digit m = hex_digit n \<longleftrightarrow> m = n"
proof -
  have d: "distinct ''0123456789abcdef''" by simp
  assume "m < 16" "n < 16"
  then show ?thesis
    unfolding hex_digit_def using nth_eq_iff_index_eq [OF d, of m n] by simp
qed

lemma hex_digit_mod: "hex_digit (n mod 16) = hex_digit n"
  by (simp add: hex_digit_def)

lemma byte_digits:
  assumes "hex_digit (unat a div 16) = hex_digit (unat b div 16)"
    and "hex_digit (unat a) = hex_digit (unat b)"
  shows "(a :: 8 word) = b"
proof -
  have lt: "unat a < 256" "unat b < 256"
    using unsigned_less [where 'a = nat, of a] unsigned_less [where 'a = nat, of b] by simp_all
  then have "unat a div 16 = unat b div 16"
    using assms(1) hex_digit_eq [of "unat a div 16" "unat b div 16"] by simp
  moreover have "unat a mod 16 = unat b mod 16"
    using assms(2) hex_digit_eq [of "unat a mod 16" "unat b mod 16"] by (simp add: hex_digit_mod)
  ultimately have "unat a = unat b" by (metis div_mult_mod_eq)
  then show ?thesis by (simp add: word_unat_eq_iff)
qed

lemma EncodeToString_inj: "EncodeToString as = EncodeToString bs \<Longrightarrow> as = bs"
proof (induction as arbitrary: bs)
  case Nil
  then show ?case by (cases bs) (auto simp: EncodeToString_def)
next
  case (Cons a as)
  then show ?case by (cases bs) (auto simp: EncodeToString_def dest: byte_digits)
qed

lemma length_EncodeToString: "length (EncodeToString bs) = 2 * length bs"
  by (induction bs) (simp_all add: EncodeToString_def)

lemma requestExpiry_eq:
  assumes "0 < ttl" and "ttl < 2 ^ 63"
  shows "requestExpiry t ttl = t + ttl - ttl div 100 - Millisecond"
  using assms by (simp add: requestExpiry_def)

lemma requestExpiry_before:
  assumes "0 < ttl" and "ttl < 2 ^ 63"
  shows "requestExpiry t ttl < t + ttl"
  using assms by (simp add: requestExpiry_eq)

end
