(* ===== verification/Single.thy ===== *)
theory Single
  imports Lease
begin

text \<open>
  The exclusive lease: the scripts \<^verbatim>\<open>single_acquire.lua\<close>, \<^verbatim>\<open>single_renew.lua\<close> and
  \<^verbatim>\<open>single_release.lua\<close>, and the \<^verbatim>\<open>SingleOwner\<close> of \<^verbatim>\<open>internal/lease/single.go\<close> that runs
  them. The scripts refine an abstract lock (a holder with a deadline, and a fence counter).
\<close>

section \<open>The scripts\<close>

definition single_acquire ::
  "'s redis \<Rightarrow> string \<Rightarrow> string \<Rightarrow> string \<Rightarrow> int \<Rightarrow> string \<Rightarrow> ('s, sreply) lua" where
  "single_acquire R lockKey fencingKey token ttl flag =
     invoke R (GET lockKey) (\<lambda>v.
     if v = RBulk (Text token) then
       (if flag = ''1'' then
          invoke R (GET fencingKey) (\<lambda>f. lua_return (integer_reply f))
        else lua_return (SInt 0))
     else
       invoke R (SET_NX_PX lockKey (Text token) ttl) (\<lambda>ok.
       if truthy ok then
         (if flag = ''1'' then
            invoke R (INCR fencingKey) (\<lambda>f. lua_return (integer_reply f))
          else lua_return (SInt 0))
       else lua_return SNil))"

definition single_renew :: "'s redis \<Rightarrow> string \<Rightarrow> string \<Rightarrow> int \<Rightarrow> ('s, sreply) lua" where
  "single_renew R key token ttl =
     invoke R (GET key) (\<lambda>v.
     if v = RBulk (Text token) then
       invoke R (PEXPIRE key ttl) (\<lambda>_. lua_return (SInt 1))
     else lua_return (SInt 0))"

definition single_release :: "'s redis \<Rightarrow> string \<Rightarrow> string \<Rightarrow> ('s, sreply) lua" where
  "single_release R key token =
     invoke R (GET key) (\<lambda>v.
     if v = RBulk (Text token) then
       invoke R (DEL key) (\<lambda>n. lua_return (integer_reply n))
     else lua_return (SInt 0))"

section \<open>SingleOwner\<close>

record single_owner =
  so_id :: string
  so_key :: string
  so_fkey :: string
  so_ttl :: duration
  so_fencing :: bool
  so_expiresAt :: "instant option"

definition NewSingleOwner ::
  "string \<Rightarrow> string \<Rightarrow> string \<Rightarrow> duration \<Rightarrow> bool \<Rightarrow> single_owner" where
  "NewSingleOwner token key fencingKey ttl fencing =
     \<lparr>so_id = token, so_key = key, so_fkey = fencingKey, so_ttl = ttl, so_fencing = fencing,
      so_expiresAt = None\<rparr>"

definition SingleOwner_Release ::
  "'s redis \<Rightarrow> transport \<Rightarrow> single_owner \<Rightarrow> 's \<Rightarrow> goerr option \<times> single_owner \<times> 's" where
  "SingleOwner_Release R tr l s =
     (case Int64 (Run R tr (single_release R (so_key l) (so_id l)) s) of
        (Inl e, s') \<Rightarrow> (Some e, l, s')
      | (Inr None, s') \<Rightarrow> (Some redis_Nil, l, s')
      | (Inr (Some ok), s') \<Rightarrow>
          if ok \<noteq> 1 then (Some ErrLost, l, s')
          else (None, l\<lparr>so_expiresAt := None\<rparr>, s'))"

text \<open>
  \<^verbatim>\<open>TryAcquire\<close>: the request, and what it does with the reply. A nil reply is \<^verbatim>\<open>redis.Nil\<close>,
  hence busy; a reply read after the local deadline is discarded.
\<close>

definition single_request :: "'s redis \<Rightarrow> single_owner \<Rightarrow> ('s, sreply) lua" where
  "single_request R l = single_acquire R (so_key l) (so_fkey l) (so_id l) (Milliseconds (so_ttl l))
     (if so_fencing l then ''1'' else ''0'')"

definition SingleOwner_TryAcquire ::
  "'s redis \<Rightarrow> acq_env \<Rightarrow> single_owner \<Rightarrow> 's \<Rightarrow> (goerr + 64 word) \<times> single_owner \<times> 's" where
  "SingleOwner_TryAcquire R env l s =
     (let deadline = requestExpiry (acq_started env) (so_ttl l) in
      case Int64 (Run R (acq_net env) (single_request R l) s) of
        (Inl e, s') \<Rightarrow> (Inl e, l, s')
      | (Inr None, s') \<Rightarrow> (Inl ErrBusy, l, s')
      | (Inr (Some res), s') \<Rightarrow>
          if \<not> acq_replied env < deadline then
            (case discardLateGrant (SingleOwner_Release R) (acq_late_net env) l s' of
               (e, l', s'') \<Rightarrow> (Inl (the e), l', s''))
          else (Inr (word_of_int res), l\<lparr>so_expiresAt := Some deadline\<rparr>, s'))"

definition SingleOwner_Acquire ::
  "'s redis \<Rightarrow> acq_env \<Rightarrow> single_owner \<Rightarrow> 's \<Rightarrow> goerr option \<times> single_owner \<times> 's" where
  "SingleOwner_Acquire R env l s =
     (case SingleOwner_TryAcquire R env l s of
        (Inl e, l', s') \<Rightarrow> (Some e, l', s')
      | (Inr _, l', s') \<Rightarrow> (None, l', s'))"

definition SingleOwner_Renew ::
  "'s redis \<Rightarrow> renew_env \<Rightarrow> single_owner \<Rightarrow> 's \<Rightarrow> goerr option \<times> single_owner \<times> 's" where
  "SingleOwner_Renew R env l s =
     (let deadline = requestExpiry (ren_started env) (so_ttl l) in
      case Int64 (Run R (ren_net env)
             (single_renew R (so_key l) (so_id l) (Milliseconds (so_ttl l))) s) of
        (Inl e, s') \<Rightarrow> (Some e, l, s')
      | (Inr None, s') \<Rightarrow> (Some redis_Nil, l, s')
      | (Inr (Some ok), s') \<Rightarrow>
          if ok \<noteq> 1 then (Some ErrLost, l, s')
          else (case confirm_renewal (so_expiresAt l) deadline (ren_replied env) (ren_checked env) of
              None \<Rightarrow> (Some ErrLost, l, s')
            | Some x \<Rightarrow> (None, l\<lparr>so_expiresAt := x\<rparr>, s')))"

definition SingleOwner_Held ::
  "'s redis \<Rightarrow> transport \<Rightarrow> single_owner \<Rightarrow> 's \<Rightarrow> (goerr + bool) \<times> 's" where
  "SingleOwner_Held R tr l s =
     (case Run R tr (redis_call R (GET (so_key l))) s of
        (Inl e, s') \<Rightarrow> (Inl e, s')
      | (Inr RNil, s') \<Rightarrow> (Inr False, s')
      | (Inr r, s') \<Rightarrow> (Inr (r = RBulk (Text (so_id l))), s'))"

definition SingleOwner_ID :: "single_owner \<Rightarrow> string" where [simp]: "SingleOwner_ID l = so_id l"
definition SingleOwner_ExpiresAt :: "single_owner \<Rightarrow> instant option" where [simp]: "SingleOwner_ExpiresAt l = so_expiresAt l"

text \<open>\<^verbatim>\<open>SingleOwner\<close> as a \<^verbatim>\<open>Lease\<close>.\<close>

definition SingleOwner_ops :: "'s redis \<Rightarrow> (single_owner, 's) lease_ops" where
  "SingleOwner_ops R = \<lparr>
     ID = SingleOwner_ID,
     Acquire = SingleOwner_Acquire R,
     Renew = SingleOwner_Renew R,
     Release = SingleOwner_Release R,
     Held = (\<lambda>_ trs. SingleOwner_Held R (trs 0)),
     ExpiresAt = SingleOwner_ExpiresAt\<rparr>"

section \<open>The abstract lock\<close>

text \<open>
  What the three scripts promise, over a holder (its token and deadline) and the last fence
  handed out. \<open>lock_wf\<close> is the shape of the two keys under which they work: a token with a
  deadline, and an integer counter without one, below the range of exact Lua integers. A
  holder that took the lock without a fence has none to return when it asks again with
  fencing on: the script's \<^verbatim>\<open>tonumber\<close> of a missing counter is nil.
\<close>

record lock_state =
  holder :: "(string \<times> int) option"
  fence :: int

definition lock_abs :: "keyspace \<Rightarrow> string \<Rightarrow> string \<Rightarrow> lock_state" where
  "lock_abs d key fkey = \<lparr>
     holder = (case d key of Some (VStr (Text t), Some e) \<Rightarrow> Some (t, e) | _ \<Rightarrow> None),
     fence = (case counter d fkey of Some n \<Rightarrow> n | None \<Rightarrow> 0)\<rparr>"

definition lock_wf :: "keyspace \<Rightarrow> string \<Rightarrow> string \<Rightarrow> bool" where
  "lock_wf d key fkey = (key \<noteq> fkey \<and>
     (case d key of None \<Rightarrow> True | Some (VStr (Text _), Some _) \<Rightarrow> True | _ \<Rightarrow> False) \<and>
     ttlv d fkey = None \<and>
     (case counter d fkey of Some n \<Rightarrow> 0 \<le> n \<and> n < 2 ^ 53 \<and> (n = 0 \<longleftrightarrow> d fkey = None)
      | None \<Rightarrow> False))"

definition lock_acquire ::
  "string \<Rightarrow> int \<Rightarrow> bool \<Rightarrow> int \<Rightarrow> lock_state \<Rightarrow> int option \<times> lock_state" where
  "lock_acquire token ttl fencing now st = (case holder st of
       None \<Rightarrow> (let f = (if fencing then fence st + 1 else fence st) in
         (Some (if fencing then f else 0), \<lparr>holder = Some (token, now + ttl), fence = f\<rparr>))
     | Some (t, _) \<Rightarrow>
         (if t \<noteq> token then None
          else if \<not> fencing then Some 0
          else if fence st = 0 then None else Some (fence st), st))"

definition lock_renew :: "string \<Rightarrow> int \<Rightarrow> int \<Rightarrow> lock_state \<Rightarrow> bool \<times> lock_state" where
  "lock_renew token ttl now st = (case holder st of
       None \<Rightarrow> (False, st)
     | Some (t, _) \<Rightarrow>
         if t = token then (True, st\<lparr>holder := Some (t, now + ttl)\<rparr>) else (False, st))"

definition lock_release :: "string \<Rightarrow> lock_state \<Rightarrow> bool \<times> lock_state" where
  "lock_release token st = (case holder st of
       None \<Rightarrow> (False, st)
     | Some (t, _) \<Rightarrow> if t = token then (True, st\<lparr>holder := None\<rparr>) else (False, st))"

text \<open>A lock a client sees after some time: unchanged, or free once the deadline is reached.\<close>

definition lock_elapse :: "int \<Rightarrow> lock_state \<Rightarrow> lock_state \<Rightarrow> bool" where
  "lock_elapse T st st' = (st' = st \<or>
     (\<exists>t e. holder st = Some (t, e) \<and> e \<le> T \<and> st' = st\<lparr>holder := None\<rparr>))"

lemma lock_wf_cases:
  assumes "lock_wf d key fkey"
  obtains (free) n where "d key = None" "counter d fkey = Some n" "0 \<le> n" "n < 2 ^ 53"
    "key \<noteq> fkey" "ttlv d fkey = None" "holder (lock_abs d key fkey) = None"
    "fence (lock_abs d key fkey) = n" "n = 0 \<longleftrightarrow> d fkey = None"
  | (held) n t e where "d key = Some (VStr (Text t), Some e)" "counter d fkey = Some n"
    "0 \<le> n" "n < 2 ^ 53" "key \<noteq> fkey" "ttlv d fkey = None"
    "holder (lock_abs d key fkey) = Some (t, e)" "fence (lock_abs d key fkey) = n"
    "n = 0 \<longleftrightarrow> d fkey = None"
  using assms
  by (auto simp: lock_wf_def lock_abs_def split: option.splits rval.splits bulk.splits)

lemma counter_strv: "counter d k = Some n \<Longrightarrow>
    is_str d k \<and> (strv d k = Some (inum n) \<or> (strv d k = None \<and> n = 0))"
  by (auto simp: counter_def strv_def is_str_def inum_def
      split: option.splits rval.splits bulk.splits if_splits)

lemma lock_abs_eqI:
  "holder (lock_abs d k f) = h \<Longrightarrow> fence (lock_abs d k f) = n \<Longrightarrow>
   lock_abs d k f = \<lparr>holder = h, fence = n\<rparr>"
  by (cases "lock_abs d k f") auto

section \<open>The scripts refine it\<close>

definition fence_reply :: "int option \<Rightarrow> sreply" where
  "fence_reply r = (case r of None \<Rightarrow> SNil | Some n \<Rightarrow> SInt n)"

definition bool_reply :: "bool \<Rightarrow> sreply" where
  "bool_reply b = SInt (if b then 1 else 0)"

lemma strv_counter:
  assumes "counter d k = Some n" and "n = 0 \<longleftrightarrow> d k = None"
  shows "is_str d k" "strv d k = (if n = 0 then None else Some (inum n))"
  using assms counter_strv [OF assms(1)] strv_None [of d k] by auto

context redis_server
begin

lemmas single_exec = redis_step kv lua_return_def bulk_reply_def fence_reply_def bool_reply_def Let_def

lemma held_by:
  assumes "d key = Some (VStr (Text t), e)"
  shows "is_str d key" "strv d key = Some (Text t)"
  using assms by (simp_all add: is_str_def strv_def)

lemma held_by_none:
  assumes "d key = None"
  shows "is_str d key" "strv d key = None"
  using assms by (simp_all add: is_str_def strv_def)

lemma single_acquire_refines:
  fixes token :: string and fencing :: bool
  assumes wf: "lock_wf (db s) key fkey" and ttl: "0 < ttl"
  defines "out \<equiv> single_acquire R key fkey token ttl (if fencing then ''1'' else ''0'') s"
    and "spec \<equiv> lock_acquire token ttl fencing (clock s) (lock_abs (db s) key fkey)"
  shows "fst out = Inr (fence_reply (fst spec)) \<and>
    lock_abs (db (snd out)) key fkey = snd spec \<and> clock (snd out) = clock s \<and>
    (fence (lock_abs (db s) key fkey) + 1 < 2 ^ 53 \<longrightarrow> lock_wf (db (snd out)) key fkey)"
  using wf
proof (cases rule: lock_wf_cases)
  case (free n)
  note f = strv_counter [OF free(2) free(9)] held_by_none [of "db s" key, OF free(1)]
  show ?thesis using free f ttl
    by (simp add: out_def spec_def single_acquire_def lock_acquire_def single_exec)
      (simp add: lock_abs_def lock_wf_def kv single_exec)
next
  case (held n t e)
  note f = strv_counter [OF held(2) held(9)] held_by [of "db s" key, OF held(1)]
  show ?thesis using held f ttl wf
    by (simp add: out_def spec_def single_acquire_def lock_acquire_def single_exec)
qed

lemma single_renew_refines:
  fixes token :: string
  assumes wf: "lock_wf (db s) key fkey" and ttl: "0 < ttl"
  defines "out \<equiv> single_renew R key token ttl s"
    and "spec \<equiv> lock_renew token ttl (clock s) (lock_abs (db s) key fkey)"
  shows "fst out = Inr (bool_reply (fst spec)) \<and>
    lock_abs (db (snd out)) key fkey = snd spec \<and> clock (snd out) = clock s \<and>
    lock_wf (db (snd out)) key fkey"
  using wf
proof (cases rule: lock_wf_cases)
  case (free n)
  then show ?thesis using held_by_none [of "db s" key, OF free(1)] wf
    by (simp add: out_def spec_def single_renew_def lock_renew_def single_exec)
next
  case (held n t e)
  then show ?thesis using held_by [of "db s" key, OF held(1)] ttl wf
    by (simp add: out_def spec_def single_renew_def lock_renew_def single_exec)
      (simp add: lock_abs_def lock_wf_def kv set_ttl_def)
qed

lemma single_release_refines:
  fixes token :: string
  assumes wf: "lock_wf (db s) key fkey"
  defines "out \<equiv> single_release R key token s"
    and "spec \<equiv> lock_release token (lock_abs (db s) key fkey)"
  shows "fst out = Inr (bool_reply (fst spec)) \<and>
    lock_abs (db (snd out)) key fkey = snd spec \<and> clock (snd out) = clock s \<and>
    lock_wf (db (snd out)) key fkey"
  using wf
proof (cases rule: lock_wf_cases)
  case (free n)
  then show ?thesis using held_by_none [of "db s" key, OF free(1)] wf
    by (simp add: out_def spec_def single_release_def lock_release_def single_exec)
next
  case (held n t e)
  then show ?thesis using held_by [of "db s" key, OF held(1)] wf
    by (simp add: out_def spec_def single_release_def lock_release_def single_exec)
      (simp add: lock_abs_def lock_wf_def kv)
qed

lemma lock_elapse_refines:
  assumes wf: "lock_wf (db s) key fkey" and T: "clock s \<le> T"
  shows "lock_wf (db (elapse R T s)) key fkey \<and>
    lock_elapse T (lock_abs (db s) key fkey) (lock_abs (db (elapse R T s)) key fkey)"
proof -
  have f: "db (elapse R T s) fkey = db s fkey"
    using wf by (auto simp: lock_wf_def intro: elapse_without_ttl [OF T])
  show ?thesis
    using wf f by (cases rule: elapse_cases [OF T, of key])
      (auto simp: lock_wf_def lock_abs_def lock_elapse_def counter_def ttlv_def
        split: option.splits rval.splits bulk.splits)
qed

end

section \<open>The methods of SingleOwner\<close>

context redis_server
begin

lemma lock_at:
  assumes "lock_wf (db s) key fkey" "clock s \<le> T"
  shows "lock_wf (db (elapse R T s)) key fkey" "clock (elapse R T s) = T"
  using lock_elapse_refines [OF assms] clock_elapse [OF assms(2)] by auto

lemma Run_request:
  assumes wf: "lock_wf (db s) (so_key l) (so_fkey l)" and T: "clock s \<le> T"
    and ttl: "0 < Milliseconds (so_ttl l)"
  shows "\<exists>s'. Run R (Reply [] T) (single_request R l) s =
      (Inr (fence_reply (fst (lock_acquire (so_id l) (Milliseconds (so_ttl l)) (so_fencing l) T
         (lock_abs (db (elapse R T s)) (so_key l) (so_fkey l))))), s') \<and>
    lock_abs (db s') (so_key l) (so_fkey l) =
      snd (lock_acquire (so_id l) (Milliseconds (so_ttl l)) (so_fencing l) T
         (lock_abs (db (elapse R T s)) (so_key l) (so_fkey l))) \<and>
    clock s' = T \<and>
    (fence (lock_abs (db (elapse R T s)) (so_key l) (so_fkey l)) + 1 < 2 ^ 53 \<longrightarrow>
     lock_wf (db s') (so_key l) (so_fkey l))"
  using single_acquire_refines [OF lock_at(1) [OF wf T] ttl, of "so_id l" "so_fencing l"]
    lock_at(2) [OF wf T]
  by (cases "single_acquire R (so_key l) (so_fkey l) (so_id l) (Milliseconds (so_ttl l))
        (if so_fencing l then ''1'' else ''0'') (elapse R T s)")
    (auto simp: single_request_def split: sum.splits)

lemma Run_release:
  assumes wf: "lock_wf (db s) key fkey" and T: "clock s \<le> T"
  shows "\<exists>s'. Run R (Reply [] T) (single_release R key token) s =
      (Inr (bool_reply (fst (lock_release token (lock_abs (db (elapse R T s)) key fkey)))), s') \<and>
    lock_abs (db s') key fkey = snd (lock_release token (lock_abs (db (elapse R T s)) key fkey)) \<and>
    clock s' = T \<and> lock_wf (db s') key fkey"
  using single_release_refines [OF lock_at(1) [OF wf T], of token] lock_at(2) [OF wf T]
  by (cases "single_release R key token (elapse R T s)") (auto split: sum.splits)

lemma Run_renew:
  assumes wf: "lock_wf (db s) key fkey" and T: "clock s \<le> T" and ttl: "0 < ttl"
  shows "\<exists>s'. Run R (Reply [] T) (single_renew R key token ttl) s =
      (Inr (bool_reply (fst (lock_renew token ttl T (lock_abs (db (elapse R T s)) key fkey)))), s') \<and>
    lock_abs (db s') key fkey = snd (lock_renew token ttl T (lock_abs (db (elapse R T s)) key fkey)) \<and>
    clock s' = T \<and> lock_wf (db s') key fkey"
  using single_renew_refines [OF lock_at(1) [OF wf T] ttl, of token] lock_at(2) [OF wf T]
  by (cases "single_renew R key token ttl (elapse R T s)") (auto split: sum.splits)

text \<open>
  A retry of a request whose reply was lost finds its own token, and changes nothing as long
  as the grant lives.
\<close>

lemma acquire_again:
  fixes fencing :: bool
  assumes wf: "lock_wf (db s) key fkey" and ttl: "0 < ttl" and T: "clock s \<le> T" "T < e"
    and held: "db s key = Some (VStr (Text token), Some e)"
  defines "m \<equiv> single_acquire R key fkey token ttl (if fencing then ''1'' else ''0'')"
  shows "fst (m (elapse R T s)) =
      Inr (fence_reply (fst (lock_acquire token ttl fencing T (lock_abs (db s) key fkey))))"
    and "db (snd (m (elapse R T s))) key = Some (VStr (Text token), Some e)"
    and "lock_abs (db (snd (m (elapse R T s)))) key fkey = lock_abs (db s) key fkey"
    and "lock_wf (db (snd (m (elapse R T s)))) key fkey"
    and "clock (snd (m (elapse R T s))) = T"
proof -
  let ?s = "elapse R T s"
  have k: "db ?s key = Some (VStr (Text token), Some e)"
    using elapse_live [OF T(1) held T(2)] .
  have f: "db ?s fkey = db s fkey"
    using wf by (auto simp: lock_wf_def intro: elapse_without_ttl [OF T(1)])
  have abs: "lock_abs (db ?s) key fkey = lock_abs (db s) key fkey"
    using k f held by (simp add: lock_abs_def counter_def)
  note wf' = lock_at(1) [OF wf T(1)]
  show "fst (m ?s) = Inr (fence_reply (fst (lock_acquire token ttl fencing T (lock_abs (db s) key fkey))))"
    using single_acquire_refines [OF wf' ttl, of token fencing] lock_at(2) [OF wf T(1)]
    by (simp add: m_def abs)
  have db: "db (snd (m ?s)) = db ?s"
    using wf'
  proof (cases rule: lock_wf_cases)
    case (held n t e)
    note f = strv_counter [OF held(2) held(9)] held_by [of "db ?s" key, OF held(1)]
    show ?thesis using held f k by (simp add: m_def single_acquire_def single_exec)
  qed (use k in simp)
  then show "db (snd (m ?s)) key = Some (VStr (Text token), Some e)"
    and "lock_abs (db (snd (m ?s))) key fkey = lock_abs (db s) key fkey"
    and "lock_wf (db (snd (m ?s))) key fkey"
    using k abs wf' by simp_all
  show "clock (snd (m ?s)) = T"
    using single_acquire_refines [OF wf' ttl, of token fencing] lock_at(2) [OF wf T(1)]
    by (simp add: m_def)
qed

lemma run_lost_again:
  fixes fencing :: bool
  assumes "lock_wf (db s) key fkey" "0 < ttl" "db s key = Some (VStr (Text token), Some e)"
    and "times_from (clock s) ts" "\<forall>t \<in> set ts. t < e"
  defines "m \<equiv> single_acquire R key fkey token ttl (if fencing then ''1'' else ''0'')"
  shows "db (run_lost R m ts s) key = Some (VStr (Text token), Some e) \<and>
    lock_abs (db (run_lost R m ts s)) key fkey = lock_abs (db s) key fkey \<and>
    lock_wf (db (run_lost R m ts s)) key fkey \<and>
    clock (run_lost R m ts s) = (if ts = [] then clock s else last ts)"
  using assms(1,3,4,5)
proof (induction ts arbitrary: s)
  case (Cons t ts)
  note again = acquire_again [OF Cons.prems(1) assms(2), of t e token fencing, folded m_def]
  have "times_from (clock (snd (m (elapse R t s)))) ts"
    using Cons.prems again by simp
  then show ?case
    using Cons.IH [of "snd (m (elapse R t s))"] Cons.prems again by auto
qed simp

end

lemma lock_abs_held:
  assumes "lock_wf d key fkey" "holder (lock_abs d key fkey) = Some (t, e)"
  shows "d key = Some (VStr (Text t), Some e)"
  using assms(1) by (cases rule: lock_wf_cases) (use assms(2) in auto)

context redis_server
begin

lemma Run_request_retry:
  assumes wf: "lock_wf (db s) (so_key l) (so_fkey l)" and ttl: "0 < Milliseconds (so_ttl l)"
    and free: "holder (lock_abs (db (elapse R t1 s)) (so_key l) (so_fkey l)) = None"
    and range: "fence (lock_abs (db (elapse R t1 s)) (so_key l) (so_fkey l)) + 1 < 2 ^ 53"
    and times: "times_from (clock s) (t1 # ts @ [t])"
    and live: "\<forall>u \<in> set (ts @ [t]). u < t1 + Milliseconds (so_ttl l)"
    and fencing: "so_fencing l"
  shows "\<exists>s'. Run R (Reply (t1 # ts) t) (single_request R l) s =
      (Inr (SInt (fence (lock_abs (db (elapse R t1 s)) (so_key l) (so_fkey l)) + 1)), s') \<and>
    lock_abs (db s') (so_key l) (so_fkey l) =
      \<lparr>holder = Some (so_id l, t1 + Milliseconds (so_ttl l)),
       fence = fence (lock_abs (db (elapse R t1 s)) (so_key l) (so_fkey l)) + 1\<rparr>"
proof -
  let ?k = "so_key l" and ?f = "so_fkey l" and ?ms = "Milliseconds (so_ttl l)"
  let ?e = "t1 + ?ms" and ?n = "fence (lock_abs (db (elapse R t1 s)) ?k ?f) + 1"
  define m where "m = single_acquire R ?k ?f (so_id l) ?ms (if True then ''1'' else ''0'')"
  have t1: "clock s \<le> t1" using times by simp
  note at1 = lock_at [OF wf t1]
  define s1 where "s1 = snd (m (elapse R t1 s))"
  have n: "0 < ?n" using at1(1) by (cases rule: lock_wf_cases) auto
  have s1: "lock_abs (db s1) ?k ?f = \<lparr>holder = Some (so_id l, ?e), fence = ?n\<rparr>"
      "lock_wf (db s1) ?k ?f" "clock s1 = t1"
    using single_acquire_refines [OF at1(1) ttl, of "so_id l" True] at1(2) free range
    by (simp_all add: s1_def m_def lock_acquire_def Let_def)
  have key: "db s1 ?k = Some (VStr (Text (so_id l)), Some ?e)"
    using lock_abs_held [OF s1(2)] s1(1) by simp
  have ts: "times_from (clock s1) (ts @ [t])" using times s1(3) by simp
  then have ts': "times_from (clock s1) ts" "(if ts = [] then clock s1 else last ts) \<le> t"
    by (simp_all only: times_from_snoc)
  define s2 where "s2 = run_lost R m ts s1"
  have s2: "db s2 ?k = Some (VStr (Text (so_id l)), Some ?e)" "lock_abs (db s2) ?k ?f = lock_abs (db s1) ?k ?f"
      "lock_wf (db s2) ?k ?f" "clock s2 \<le> t"
    using run_lost_again [OF s1(2) ttl key ts'(1), of True] live ts'(2) by (auto simp: s2_def m_def)
  have lt: "t < ?e" using live by simp
  note last = acquire_again [OF s2(3) ttl s2(4) lt s2(1), of True, folded m_def]
  have "fst (m (elapse R t s2)) = Inr (SInt ?n)"
    using last(1) s2(2) s1(1) n by (simp add: lock_acquire_def fence_reply_def)
  moreover have "lock_abs (db (snd (m (elapse R t s2)))) ?k ?f = \<lparr>holder = Some (so_id l, ?e), fence = ?n\<rparr>"
    using last(3) s2(2) s1(1) by simp
  moreover have "Run R (Reply (t1 # ts) t) (single_request R l) s =
      (case m (elapse R t s2) of (Inl e, s') \<Rightarrow> (Inl (ScriptError e), s') | (Inr x, s') \<Rightarrow> (Inr x, s'))"
    using fencing by (simp add: single_request_def m_def s2_def s1_def)
  ultimately show ?thesis
    by (cases "m (elapse R t s2)") simp
qed

end

lemma Int64_Inr: "Run R tr m s = (Inr r, s') \<Longrightarrow> Int64 (Run R tr m s) =
    (case r of SNil \<Rightarrow> (Inr None, s') | SInt n \<Rightarrow> (Inr (Some n), s')
     | SInts _ \<Rightarrow> (Inl (Message ''redis: unexpected type for Int64''), s'))"
  by (cases r) auto

lemma Int64_fence_reply [simp]:
  "Run R tr m s = (Inr (fence_reply f), s') \<Longrightarrow> Int64 (Run R tr m s) = (Inr f, s')"
  by (cases f) (auto simp: fence_reply_def)

lemma Int64_bool_reply [simp]:
  "Run R tr m s = (Inr (bool_reply b), s') \<Longrightarrow> Int64 (Run R tr m s) = (Inr (Some (if b then 1 else 0)), s')"
  by (auto simp: bool_reply_def)

section \<open>Properties\<close>

text \<open>
  C8: one acquisition whose reply arrives. Over the abstract lock as the server sees it at time
  \<open>T\<close>: a lock held by another token is reported busy and left as it is; a grant read before
  the local deadline is returned with its fence and recorded; a grant read at or after the
  deadline is never returned as one, its error matches \<^verbatim>\<open>ErrLost\<close>.
\<close>

theorem try_acquire_outcome:
  assumes server: "redis_server R clock db"
    and wf: "lock_wf (db s) (so_key l) (so_fkey l)" and T: "clock s \<le> T"
    and ttl: "0 < Milliseconds (so_ttl l)" and net: "acq_net env = Reply [] T"
  shows "case lock_acquire (so_id l) (Milliseconds (so_ttl l)) (so_fencing l) T
           (lock_abs (db (elapse R T s)) (so_key l) (so_fkey l)) of
      (None, st') \<Rightarrow> \<exists>s'. SingleOwner_TryAcquire R env l s = (Inl ErrBusy, l, s') \<and>
          lock_abs (db s') (so_key l) (so_fkey l) = st'
    | (Some f, st') \<Rightarrow>
        if acq_replied env < requestExpiry (acq_started env) (so_ttl l)
        then \<exists>s'. SingleOwner_TryAcquire R env l s =
               (Inr (word_of_int f),
                l\<lparr>so_expiresAt := Some (requestExpiry (acq_started env) (so_ttl l))\<rparr>, s') \<and>
             lock_abs (db s') (so_key l) (so_fkey l) = st'
        else \<exists>e l' s'. SingleOwner_TryAcquire R env l s = (Inl e, l', s') \<and> errors_Is e ErrLost"
proof -
  obtain res st' where la: "lock_acquire (so_id l) (Milliseconds (so_ttl l)) (so_fencing l) T
      (lock_abs (db (elapse R T s)) (so_key l) (so_fkey l)) = (res, st')" by fastforce
  obtain s' where run: "Run R (Reply [] T) (single_request R l) s = (Inr (fence_reply res), s')"
      "lock_abs (db s') (so_key l) (so_fkey l) = st'"
    using redis_server.Run_request [OF server wf T ttl] la by auto
  note i = Int64_fence_reply [OF run(1)]
  show ?thesis
  proof (cases res)
    case None
    then show ?thesis using la run(2) i
      by (simp add: SingleOwner_TryAcquire_def net Let_def)
  next
    case (Some f)
    have "\<exists>e l' s''. SingleOwner_TryAcquire R env l s = (Inl e, l', s'') \<and> errors_Is e ErrLost"
      if "\<not> acq_replied env < requestExpiry (acq_started env) (so_ttl l)"
    proof -
      obtain e l' s'' where rel: "SingleOwner_Release R (acq_late_net env) l s' = (e, l', s'')"
        by (rule prod_cases3)
      with that Some i show ?thesis
        by (cases e) (simp_all add: SingleOwner_TryAcquire_def net Let_def discardLateGrant_def)
    qed
    with Some la run(2) i show ?thesis
      by (simp add: SingleOwner_TryAcquire_def net Let_def)
  qed
qed

text \<open>
  C13: a request that took a free lock, whose replies were lost and which go-redis sent again
  while the grant lived, returns the fence minted the first time; the fence counter has moved
  by one and the deadline is the one set the first time.
\<close>

theorem acquire_retry_idempotent:
  assumes server: "redis_server R clock db"
    and wf: "lock_wf (db s) (so_key l) (so_fkey l)" and ttl: "0 < Milliseconds (so_ttl l)"
    and free: "holder (lock_abs (db (elapse R t1 s)) (so_key l) (so_fkey l)) = None"
    and range: "fence (lock_abs (db (elapse R t1 s)) (so_key l) (so_fkey l)) + 1 < 2 ^ 53"
    and times: "times_from (clock s) (t1 # ts @ [t])"
    and live: "\<forall>u \<in> set (ts @ [t]). u < t1 + Milliseconds (so_ttl l)"
    and fencing: "so_fencing l"
  shows "\<exists>s'. Run R (Reply (t1 # ts) t) (single_request R l) s =
      (Inr (SInt (fence (lock_abs (db (elapse R t1 s)) (so_key l) (so_fkey l)) + 1)), s') \<and>
    lock_abs (db s') (so_key l) (so_fkey l) =
      \<lparr>holder = Some (so_id l, t1 + Milliseconds (so_ttl l)),
       fence = fence (lock_abs (db (elapse R t1 s)) (so_key l) (so_fkey l)) + 1\<rparr>"
  using redis_server.Run_request_retry [OF server wf ttl free range times live fencing] .

text \<open>
  C14: a release whose token the lock does not hold (it expired, or another client has taken it
  since) reports \<^verbatim>\<open>ErrLost\<close> and changes neither the holder nor the fence.
\<close>

theorem stale_release_harmless:
  assumes server: "redis_server R clock db"
    and wf: "lock_wf (db s) (so_key l) (so_fkey l)" and T: "clock s \<le> T"
    and stale: "\<forall>e. holder (lock_abs (db (elapse R T s)) (so_key l) (so_fkey l)) \<noteq> Some (so_id l, e)"
  shows "\<exists>s'. SingleOwner_Release R (Reply [] T) l s = (Some ErrLost, l, s') \<and>
    lock_abs (db s') (so_key l) (so_fkey l) = lock_abs (db (elapse R T s)) (so_key l) (so_fkey l)"
proof -
  have "lock_release (so_id l) (lock_abs (db (elapse R T s)) (so_key l) (so_fkey l)) =
      (False, lock_abs (db (elapse R T s)) (so_key l) (so_fkey l))"
    using stale by (auto simp: lock_release_def split: option.splits)
  then obtain s' where "Run R (Reply [] T) (single_release R (so_key l) (so_id l)) s = (Inr (bool_reply False), s')"
      "lock_abs (db s') (so_key l) (so_fkey l) = lock_abs (db (elapse R T s)) (so_key l) (so_fkey l)"
    using redis_server.Run_release [OF server wf T, of "so_id l"] by auto
  then show ?thesis
    using Int64_bool_reply [of R "Reply [] T" "single_release R (so_key l) (so_id l)" s False s']
    by (simp add: SingleOwner_Release_def)
qed

text \<open>
  A lease of at most one millisecond is never granted. Its deadline is not after the start
  of the request, so every acquisition fails whatever the server answers.
\<close>

theorem tiny_lease_never_granted:
  assumes "0 < so_ttl l" and "so_ttl l \<le> Millisecond" and "acq_started env \<le> acq_replied env"
  shows "\<exists>e. fst (SingleOwner_TryAcquire R env l s) = Inl e"
proof -
  have late: "\<not> acq_replied env < requestExpiry (acq_started env) (so_ttl l)"
    using assms by (simp add: requestExpiry_eq pos_imp_zdiv_nonneg_iff)
  show ?thesis
    using late by (auto simp: SingleOwner_TryAcquire_def Let_def split: prod.splits sum.splits option.splits)
qed

text \<open>Witnesses: a ten-second lease on an empty server.\<close>

definition wit_lease :: single_owner where
  "wit_lease = NewSingleOwner ''a'' ''k'' ''f'' (10 * Second) True"

definition wit_env :: acq_env where
  "wit_env = \<lparr>acq_started = 0, acq_net = Reply [] 3, acq_replied = 5 * Millisecond,
     acq_late_net = Fail [] Canceled\<rparr>"

lemma wit_lease_simps:
  "so_id wit_lease = ''a''" "so_key wit_lease = ''k''" "so_fkey wit_lease = ''f''"
  "so_ttl wit_lease = 10 * Second" "so_fencing wit_lease" "Milliseconds 10000000000 = 10000"
  by (simp_all add: wit_lease_def NewSingleOwner_def Milliseconds_def)

lemma empty_mem_db: "mem_db empty_mem = (\<lambda>_. None)" "mem_db (mem_elapse T empty_mem) = (\<lambda>_. None)"
  by (simp_all add: mem_db_elapse fun_eq_iff) (simp_all add: mem_db_def empty_mem_def)

lemma empty_lock:
  "lock_wf (mem_db empty_mem) ''k'' ''f''"
  "lock_abs (mem_db (elapse mem_redis T empty_mem)) ''k'' ''f'' = \<lparr>holder = None, fence = 0\<rparr>"
  "mclock empty_mem = 0"
  by (simp_all add: empty_mem_db mem_redis_def lock_wf_def lock_abs_def ttlv_def counter_def)
    (simp add: empty_mem_def)

theorem try_acquire_outcome_witness:
  "\<exists>s'. SingleOwner_TryAcquire mem_redis wit_env wit_lease empty_mem =
      (Inr 1, wit_lease\<lparr>so_expiresAt := Some 9899000000\<rparr>, s') \<and>
    lock_abs (mem_db s') ''k'' ''f'' = \<lparr>holder = Some (''a'', 10003), fence = 1\<rparr>"
  using try_acquire_outcome [OF mem_server, of empty_mem wit_lease 3 wit_env] empty_lock
  by (simp add: wit_lease_simps wit_env_def lock_acquire_def requestExpiry_def)

theorem acquire_retry_idempotent_witness:
  "\<exists>s'. Run mem_redis (Reply [3, 4] 7) (single_request mem_redis wit_lease) empty_mem = (Inr (SInt 1), s') \<and>
    lock_abs (mem_db s') ''k'' ''f'' = \<lparr>holder = Some (''a'', 10003), fence = 1\<rparr>"
  using acquire_retry_idempotent [OF mem_server, of empty_mem wit_lease 3 "[4]" 7] empty_lock
  by (simp add: wit_lease_simps)

theorem stale_release_harmless_witness:
  "\<exists>s'. SingleOwner_Release mem_redis (Reply [] 9) wit_lease empty_mem = (Some ErrLost, wit_lease, s') \<and>
    lock_abs (mem_db s') ''k'' ''f'' = \<lparr>holder = None, fence = 0\<rparr>"
  using stale_release_harmless [OF mem_server, of empty_mem wit_lease 9] empty_lock
  by (simp add: wit_lease_simps)

theorem tiny_lease_never_granted_witness:
  "\<exists>e. fst (SingleOwner_TryAcquire mem_redis wit_env
      (NewSingleOwner ''a'' ''k'' ''f'' Millisecond True) empty_mem) = Inl e"
  using tiny_lease_never_granted [of "NewSingleOwner ''a'' ''k'' ''f'' Millisecond True" wit_env]
  by (simp add: NewSingleOwner_def wit_env_def)

end
