(* ===== verification/Exclusion.thy ===== *)
theory Exclusion
  imports Single
begin

text \<open>
  Any number of clients, each with a \<^verbatim>\<open>SingleOwner\<close> of its own, contend for one lock. A call of
  a lease is split where other clients can run: the request leaves with a clock reading, the
  server runs the script (once or, when a reply is lost, again), and the reply is read. The
  steps use the scripts and the local tests of \<^verbatim>\<open>single.go\<close>.

  A request that is still on its way when its call returns is never executed in this system;
  \<open>delayed_request_two_holders\<close> in \<^verbatim>\<open>Mutex\<close> shows what such a request can do.

  The clocks of the clients need not agree. Each may have any offset and run up to one percent
  slow against the server's, which is the drift that the margin of \<^verbatim>\<open>requestExpiry\<close> allows for.
\<close>

section \<open>The system\<close>

datatype phase =
    Fresh
  | Asking instant
  | Answered instant sreply
  | Holding
  | Renewing instant
  | RenewAnswered instant sreply
  | Releasing
  | Gone

record client =
  lse :: single_owner
  ph :: phase

record 's system =
  srv :: 's
  now :: instant
  cls :: "nat \<Rightarrow> client"
  fences :: "int list"

definition upd :: "nat \<Rightarrow> client \<Rightarrow> 's system \<Rightarrow> 's system" where
  "upd i c S = S\<lparr>cls := (cls S)(i := c)\<rparr>"

text \<open>
  The server's clock counts milliseconds of the true time \<open>now\<close>; \<open>cl i\<close> is what client \<open>i\<close>'s
  clock shows at a true time. \<open>fences\<close> records, newest first, the fences that were minted.
\<close>

definition minted :: "bool \<Rightarrow> lock_state \<Rightarrow> lock_state \<Rightarrow> int list" where
  "minted fencing st st' = (if fencing \<and> fence st < fence st' then [fence st'] else [])"

inductive lock_step ::
  "'s redis \<Rightarrow> ('s \<Rightarrow> keyspace) \<Rightarrow> (nat \<Rightarrow> instant \<Rightarrow> instant) \<Rightarrow> string \<Rightarrow> string \<Rightarrow>
   's system \<Rightarrow> 's system \<Rightarrow> bool"
  for R :: "'s redis" and db :: "'s \<Rightarrow> keyspace" and cl :: "nat \<Rightarrow> instant \<Rightarrow> instant"
    and key fkey :: string
where
  tick: "now S \<le> t \<Longrightarrow>
    lock_step R db cl key fkey S (S\<lparr>now := t, srv := elapse R (UnixMilli t) (srv S)\<rparr>)"
| ask: "c = cls S i \<Longrightarrow> ph c = Fresh \<Longrightarrow>
    lock_step R db cl key fkey S (upd i (c\<lparr>ph := Asking (cl i (now S))\<rparr>) S)"
| acquire: "c = cls S i \<Longrightarrow> ph c = Asking t0 \<or> ph c = Answered t0 r0 \<Longrightarrow>
    single_request R (lse c) (srv S) = (Inr r, s') \<Longrightarrow>
    fence (lock_abs (db (srv S)) key fkey) + 1 < 2 ^ 53 \<Longrightarrow>
    lock_step R db cl key fkey S
      (upd i (c\<lparr>ph := Answered t0 r\<rparr>)
        (S\<lparr>srv := s', fences := minted (so_fencing (lse c)) (lock_abs (db (srv S)) key fkey)
                              (lock_abs (db s') key fkey) @ fences S\<rparr>))"
| granted: "c = cls S i \<Longrightarrow> ph c = Answered t0 (SInt n) \<Longrightarrow>
    deadline = requestExpiry t0 (so_ttl (lse c)) \<Longrightarrow> cl i (now S) < deadline \<Longrightarrow>
    lock_step R db cl key fkey S
      (upd i (c\<lparr>lse := (lse c)\<lparr>so_expiresAt := Some deadline\<rparr>, ph := Holding\<rparr>) S)"
| busy: "c = cls S i \<Longrightarrow> ph c = Answered t0 SNil \<Longrightarrow>
    lock_step R db cl key fkey S (upd i (c\<lparr>ph := Fresh\<rparr>) S)"
| late: "c = cls S i \<Longrightarrow> ph c = Answered t0 (SInt n) \<Longrightarrow>
    \<not> cl i (now S) < requestExpiry t0 (so_ttl (lse c)) \<Longrightarrow>
    lock_step R db cl key fkey S (upd i (c\<lparr>ph := Releasing\<rparr>) S)"
| ask_renew: "c = cls S i \<Longrightarrow> ph c = Holding \<Longrightarrow>
    lock_step R db cl key fkey S (upd i (c\<lparr>ph := Renewing (cl i (now S))\<rparr>) S)"
| renew: "c = cls S i \<Longrightarrow> ph c = Renewing t0 \<or> ph c = RenewAnswered t0 r0 \<Longrightarrow>
    single_renew R (so_key (lse c)) (so_id (lse c)) (Milliseconds (so_ttl (lse c))) (srv S) = (Inr r, s') \<Longrightarrow>
    lock_step R db cl key fkey S (upd i (c\<lparr>ph := RenewAnswered t0 r\<rparr>) (S\<lparr>srv := s'\<rparr>))"
| renewed: "c = cls S i \<Longrightarrow> ph c = RenewAnswered t0 (SInt 1) \<Longrightarrow> t1 \<le> now S \<Longrightarrow>
    confirm_renewal (so_expiresAt (lse c)) (requestExpiry t0 (so_ttl (lse c)))
      (cl i t1) (cl i (now S)) = Some x \<Longrightarrow>
    lock_step R db cl key fkey S
      (upd i (c\<lparr>lse := (lse c)\<lparr>so_expiresAt := x\<rparr>, ph := Holding\<rparr>) S)"
| renew_error: "c = cls S i \<Longrightarrow> ph c = Renewing t0 \<or> ph c = RenewAnswered t0 r \<Longrightarrow>
    lock_step R db cl key fkey S (upd i (c\<lparr>ph := Holding\<rparr>) S)"
| ask_release: "c = cls S i \<Longrightarrow> ph c = Holding \<Longrightarrow>
    lock_step R db cl key fkey S (upd i (c\<lparr>ph := Releasing\<rparr>) S)"
| release: "c = cls S i \<Longrightarrow> ph c = Releasing \<Longrightarrow>
    single_release R (so_key (lse c)) (so_id (lse c)) (srv S) = (Inr r, s') \<Longrightarrow>
    lock_step R db cl key fkey S (S\<lparr>srv := s'\<rparr>)"
| abandon: "c = cls S i \<Longrightarrow>
    lock_step R db cl key fkey S (upd i (c\<lparr>ph := Gone\<rparr>) S)"

text \<open>
  A start: the lock's keys have their shape, the server's clock shows the true time, and every
  client has a fresh lease on this lock with its own token that the lock does not hold. Time to
  live is a positive whole number of milliseconds.
\<close>

definition fresh_client :: "string \<Rightarrow> string \<Rightarrow> lock_state \<Rightarrow> client \<Rightarrow> bool" where
  "fresh_client key fkey st c = (ph c = Fresh \<and> so_key (lse c) = key \<and> so_fkey (lse c) = fkey \<and>
     so_expiresAt (lse c) = None \<and> 0 < so_ttl (lse c) \<and> so_ttl (lse c) < 2 ^ 63 \<and>
     so_ttl (lse c) mod Millisecond = 0 \<and> (\<forall>e. holder st \<noteq> Some (so_id (lse c), e)))"

definition start ::
  "('s \<Rightarrow> int) \<Rightarrow> ('s \<Rightarrow> keyspace) \<Rightarrow> string \<Rightarrow> string \<Rightarrow> 's system \<Rightarrow> bool" where
  "start clock db key fkey S = (lock_wf (db (srv S)) key fkey \<and>
     clock (srv S) = UnixMilli (now S) \<and> fences S = [] \<and>
     (\<forall>i. fresh_client key fkey (lock_abs (db (srv S)) key fkey) (cls S i)) \<and>
     inj (\<lambda>i. so_id (lse (cls S i))))"

inductive reachable ::
  "'s redis \<Rightarrow> ('s \<Rightarrow> int) \<Rightarrow> ('s \<Rightarrow> keyspace) \<Rightarrow> (nat \<Rightarrow> instant \<Rightarrow> instant) \<Rightarrow> string \<Rightarrow> string \<Rightarrow>
   's system \<Rightarrow> bool"
  for R :: "'s redis" and clock :: "'s \<Rightarrow> int" and db :: "'s \<Rightarrow> keyspace"
    and cl :: "nat \<Rightarrow> instant \<Rightarrow> instant" and key fkey :: string
where
  initially: "start clock db key fkey S \<Longrightarrow> reachable R clock db cl key fkey S"
| later: "reachable R clock db cl key fkey S \<Longrightarrow> lock_step R db cl key fkey S S' \<Longrightarrow>
    reachable R clock db cl key fkey S'"

text \<open>
  A client believes it holds the lock while its local deadline is ahead of its own clock and
  it has not begun to release.
\<close>

definition believes :: "(nat \<Rightarrow> instant \<Rightarrow> instant) \<Rightarrow> 's system \<Rightarrow> nat \<Rightarrow> bool" where
  "believes cl S i = (After (so_expiresAt (lse (cls S i))) (cl i (now S)) \<and>
     (case ph (cls S i) of Holding \<Rightarrow> True | Renewing _ \<Rightarrow> True | RenewAnswered _ _ \<Rightarrow> True | _ \<Rightarrow> False))"

definition slow_at_most :: "(instant \<Rightarrow> instant) \<Rightarrow> bool" where
  "slow_at_most clk = (\<forall>a b. a \<le> b \<longrightarrow> 99 * (b - a) \<le> 100 * (clk b - clk a))"

definition bounded_drift :: "(nat \<Rightarrow> instant \<Rightarrow> instant) \<Rightarrow> bool" where
  "bounded_drift cl = (\<forall>i. slow_at_most (cl i))"

section \<open>The margin of the local deadline\<close>

lemma drift_mono: "slow_at_most clk \<Longrightarrow> a \<le> b \<Longrightarrow> clk a \<le> clk b"
  unfolding slow_at_most_def by (drule spec [of _ a], drule spec [of _ b]) simp

lemma deadline_margin:
  assumes drift: "slow_at_most clk" and ttl: "0 < ttl" "ttl < 2 ^ 63" "ttl mod Millisecond = 0"
    and t: "t0 \<le> tx" "t0 \<le> t" and ahead: "clk t < requestExpiry (clk t0) ttl"
  shows "t < (UnixMilli tx + Milliseconds ttl) * Millisecond"
proof -
  have "99 * (t - t0) \<le> 100 * (clk t - clk t0)"
    using drift t by (simp add: slow_at_most_def)
  also have "\<dots> < 100 * (ttl - ttl div 100 - Millisecond)"
    using ahead ttl by (simp add: requestExpiry_eq)
  also have "\<dots> \<le> 99 * ttl + 99 - 100 * Millisecond"
    using mult_div_bounds [of 100 ttl] by simp
  finally have "t < t0 + ttl - Millisecond" by simp
  moreover have "t0 - Millisecond < UnixMilli tx * Millisecond"
    unfolding UnixMilli_def using t mult_div_bounds [of Millisecond tx] by (simp add: mult.commute)
  moreover have "Milliseconds ttl * Millisecond = ttl"
    using ttl div_mult_mod_eq [of ttl Millisecond] by (simp add: Milliseconds_nonneg)
  ultimately show ?thesis by (simp add: distrib_right)
qed

section \<open>The invariant\<close>

text \<open>
  \<open>own st c\<close> is the server's deadline for client \<open>c\<close> if the lock holds its token. A local
  deadline \<open>d\<close> is backed when, as long as it is ahead, the lock holds the token until a time
  the client's clock cannot reach before \<open>d\<close>.
\<close>

definition own :: "lock_state \<Rightarrow> client \<Rightarrow> int option" where
  "own st c = (case holder st of None \<Rightarrow> None
     | Some (t, e) \<Rightarrow> if t = so_id (lse c) then Some e else None)"

text \<open>A fencing client's token is in the lock only together with a minted fence.\<close>

definition fenced :: "lock_state \<Rightarrow> client \<Rightarrow> bool" where
  "fenced st c = (own st c = None \<or> \<not> so_fencing (lse c) \<or> 0 < fence st)"

definition safe :: "(instant \<Rightarrow> instant) \<Rightarrow> instant \<Rightarrow> instant \<Rightarrow> int \<Rightarrow> bool" where
  "safe clk n d e = (\<forall>t \<ge> n. clk t < d \<longrightarrow> t < e * Millisecond)"

definition backed :: "(instant \<Rightarrow> instant) \<Rightarrow> instant \<Rightarrow> int option \<Rightarrow> instant \<Rightarrow> bool" where
  "backed clk n x d = (clk n < d \<longrightarrow> (\<exists>e. x = Some e \<and> safe clk n d e))"

definition if_own :: "(instant \<Rightarrow> instant) \<Rightarrow> instant \<Rightarrow> int option \<Rightarrow> instant \<Rightarrow> bool" where
  "if_own clk n x d = (\<forall>e. x = Some e \<longrightarrow> safe clk n d e)"

definition read_at :: "(instant \<Rightarrow> instant) \<Rightarrow> instant \<Rightarrow> instant \<Rightarrow> bool" where
  "read_at clk n t = (\<exists>u \<le> n. t = clk u)"

definition phase_inv :: "(instant \<Rightarrow> instant) \<Rightarrow> instant \<Rightarrow> int option \<Rightarrow> client \<Rightarrow> bool" where
  "phase_inv clk n x c =
     (let ttl = so_ttl (lse c); hold = (\<exists>d. so_expiresAt (lse c) = Some d \<and> backed clk n x d) in
      (\<forall>e. x = Some e \<longrightarrow> e \<le> UnixMilli n + Milliseconds ttl) \<and>
      (case ph c of
         Fresh \<Rightarrow> x = None
       | Asking t0 \<Rightarrow> read_at clk n t0 \<and> if_own clk n x (requestExpiry t0 ttl)
       | Answered t0 r \<Rightarrow> read_at clk n t0 \<and> if_own clk n x (requestExpiry t0 ttl) \<and>
           (\<forall>m. r = SInt m \<longrightarrow> backed clk n x (requestExpiry t0 ttl)) \<and> (r = SNil \<longrightarrow> x = None)
       | Holding \<Rightarrow> hold
       | Renewing t0 \<Rightarrow> read_at clk n t0 \<and> hold
       | RenewAnswered t0 r \<Rightarrow> read_at clk n t0 \<and> hold \<and>
           (r = SInt 1 \<longrightarrow> backed clk n x (requestExpiry t0 ttl))
       | Releasing \<Rightarrow> True
       | Gone \<Rightarrow> True))"

definition client_ok :: "string \<Rightarrow> string \<Rightarrow> client \<Rightarrow> bool" where
  "client_ok key fkey c = (so_key (lse c) = key \<and> so_fkey (lse c) = fkey \<and>
     0 < so_ttl (lse c) \<and> so_ttl (lse c) < 2 ^ 63 \<and> so_ttl (lse c) mod Millisecond = 0)"

definition lock_inv ::
  "('s \<Rightarrow> int) \<Rightarrow> ('s \<Rightarrow> keyspace) \<Rightarrow> (nat \<Rightarrow> instant \<Rightarrow> instant) \<Rightarrow> string \<Rightarrow> string \<Rightarrow> 's system \<Rightarrow> bool"
where
  "lock_inv clock db cl key fkey S =
     (let st = lock_abs (db (srv S)) key fkey in
      lock_wf (db (srv S)) key fkey \<and> clock (srv S) = UnixMilli (now S) \<and>
      (\<forall>i. client_ok key fkey (cls S i) \<and> fenced st (cls S i) \<and>
         phase_inv (cl i) (now S) (own st (cls S i)) (cls S i)) \<and>
      inj (\<lambda>i. so_id (lse (cls S i))) \<and>
      sorted_wrt (>) (fences S) \<and> (\<forall>f \<in> set (fences S). f \<le> fence st))"

lemma safe_later: "safe clk n d e \<Longrightarrow> n \<le> m \<Longrightarrow> safe clk m d e"
  by (auto simp: safe_def)

lemma safe_more: "safe clk n d e \<Longrightarrow> e \<le> e' \<Longrightarrow> safe clk n d e'"
  by (force simp: safe_def)

lemma UnixMilli_mono: "a \<le> b \<Longrightarrow> UnixMilli a \<le> UnixMilli b"
  by (simp add: UnixMilli_def zdiv_mono1)

text \<open>Time passes: the token stays until the server's deadline, or the local one is reached.\<close>

definition own_later :: "instant \<Rightarrow> int option \<Rightarrow> int option \<Rightarrow> bool" where
  "own_later m x x' = (x' = x \<or> (\<exists>e. x = Some e \<and> e * Millisecond \<le> m \<and> x' = None))"

lemma backed_later:
  assumes "backed clk n x d" "n \<le> m" "clk n \<le> clk m" "own_later m x x'"
  shows "backed clk m x' d"
  unfolding backed_def
proof
  assume "clk m < d"
  with assms(1,3) obtain e where e: "x = Some e" "safe clk n d e"
    by (auto simp: backed_def)
  with \<open>clk m < d\<close> assms(2) have "m < e * Millisecond" by (simp add: safe_def)
  with assms(4) e have "x' = Some e" by (auto simp: own_later_def)
  with e(2) show "\<exists>e. x' = Some e \<and> safe clk m d e"
    using safe_later [OF _ assms(2)] by blast
qed

lemma phase_inv_later:
  assumes inv: "phase_inv clk n x c" and t: "n \<le> m" "clk n \<le> clk m" and x: "own_later m x x'"
  shows "phase_inv clk m x' c"
proof -
  have i: "if_own clk n x d \<Longrightarrow> if_own clk m x' d" for d
    using x t by (auto simp: if_own_def own_later_def intro: safe_later)
  have r: "read_at clk n t0 \<Longrightarrow> read_at clk m t0" for t0
    unfolding read_at_def using t(1) order.trans by blast
  have e: "e \<le> UnixMilli m + k" if "\<forall>e. x = Some e \<longrightarrow> e \<le> UnixMilli n + k" "x' = Some e" for e k
    using that x UnixMilli_mono [OF t(1)] by (force simp: own_later_def)
  have none: "x = None \<Longrightarrow> x' = None"
    using x by (auto simp: own_later_def)
  show ?thesis
    using inv unfolding phase_inv_def Let_def
    by (cases "ph c") (auto intro: e i r none backed_later [OF _ t x])
qed

lemma own_elapse:
  assumes "lock_elapse (UnixMilli m) st st'"
  shows "own_later m (own st c) (own st' c)"
proof -
  have "e * Millisecond \<le> m" if "e \<le> UnixMilli m" for e
    using that mult_div_bounds [of Millisecond m] by (simp add: UnixMilli_def)
  then show ?thesis
    using assms by (auto simp: lock_elapse_def own_later_def own_def)
qed

text \<open>The steps of one client, at the abstract lock.\<close>

lemma safe_new:
  assumes "slow_at_most clk" "client_ok key fkey c" "read_at clk n t0"
  shows "safe clk n (requestExpiry t0 (so_ttl (lse c))) (UnixMilli n + Milliseconds (so_ttl (lse c)))"
  using assms deadline_margin [of clk "so_ttl (lse c)"]
  by (auto simp: safe_def read_at_def client_ok_def)

lemma acquire_phase:
  assumes inv: "phase_inv clk n (own st c) c" and ph: "ph c = Asking t0 \<or> ph c = Answered t0 r0"
    and c: "client_ok key fkey c" "slow_at_most clk" and fen: "fenced st c"
    and out: "lock_acquire (so_id (lse c)) (Milliseconds (so_ttl (lse c))) (so_fencing (lse c)) (UnixMilli n) st
      = (res, st')"
  shows "phase_inv clk n (own st' c) (c\<lparr>ph := Answered t0 (fence_reply res)\<rparr>)"
proof -
  have r: "read_at clk n t0" and i: "if_own clk n (own st c) (requestExpiry t0 (so_ttl (lse c)))"
    using inv ph by (auto simp: phase_inv_def Let_def)
  note new = safe_new [OF c(2,1) r]
  show ?thesis
  proof (cases "holder st")
    case None
    then show ?thesis using out new r
      by (auto simp: phase_inv_def lock_acquire_def own_def if_own_def backed_def fence_reply_def Let_def)
  next
    case (Some p)
    then show ?thesis using out inv ph r i fen
      by (cases p) (auto simp: phase_inv_def lock_acquire_def own_def if_own_def backed_def
          fenced_def fence_reply_def Let_def split: if_splits)
  qed
qed

lemma renew_phase:
  assumes inv: "phase_inv clk n (own st c) c" and ph: "ph c = Renewing t0 \<or> ph c = RenewAnswered t0 r0"
    and c: "client_ok key fkey c" "slow_at_most clk"
    and out: "lock_renew (so_id (lse c)) (Milliseconds (so_ttl (lse c))) (UnixMilli n) st = (ok, st')"
  shows "phase_inv clk n (own st' c) (c\<lparr>ph := RenewAnswered t0 (bool_reply ok)\<rparr>)"
proof -
  have r: "read_at clk n t0"
    using inv ph by (auto simp: phase_inv_def Let_def)
  note new = safe_new [OF c(2,1) r]
  obtain d where d: "so_expiresAt (lse c) = Some d" "backed clk n (own st c) d"
    using inv ph by (auto simp: phase_inv_def Let_def)
  have le: "own st c = Some e \<Longrightarrow> e \<le> UnixMilli n + Milliseconds (so_ttl (lse c))" for e
    using inv by (auto simp: phase_inv_def Let_def)
  show ?thesis
  proof (cases ok)
    case True
    then obtain e where h: "holder st = Some (so_id (lse c), e)"
        "own st' c = Some (UnixMilli n + Milliseconds (so_ttl (lse c)))"
      using out by (auto simp: lock_renew_def own_def split: option.splits if_splits)
    then have "backed clk n (own st' c) d"
      using d(2) le by (auto simp: backed_def own_def intro: safe_more)
    then show ?thesis using h new r d
      by (auto simp: phase_inv_def backed_def Let_def)
  next
    case False
    then have "st' = st" using out by (auto simp: lock_renew_def split: option.splits if_splits)
    then show ?thesis using False r d le by (auto simp: phase_inv_def bool_reply_def Let_def)
  qed
qed

lemma release_phase:
  assumes "phase_inv clk n (own st c) c" "ph c = Releasing"
    and "lock_release (so_id (lse c)) st = (ok, st')"
  shows "phase_inv clk n (own st' c) c"
  using assms by (auto simp: phase_inv_def lock_release_def own_def Let_def split: option.splits if_splits)

text \<open>A client's script does not touch another client's token.\<close>

lemma own_other:
  assumes "so_id (lse c) \<noteq> t"
  shows "lock_acquire t ttl fencing T st = (res, st') \<Longrightarrow> own st' c = own st c"
    and "lock_renew t ttl T st = (ok, st') \<Longrightarrow> own st' c = own st c"
    and "lock_release t st = (ok, st') \<Longrightarrow> own st' c = own st c"
  using assms by (auto simp: lock_acquire_def lock_renew_def lock_release_def own_def Let_def
      split: option.splits if_splits)

lemma own_id: "so_id (lse c') = so_id (lse c) \<Longrightarrow> own st c' = own st c"
  by (simp add: own_def split: option.splits)

lemma fenced_later:
  assumes "fenced st c" and "fence st \<le> fence st'"
    and "own st' c = own st c \<or> own st' c = None \<or> own st c \<noteq> None \<or> 0 < fence st'"
  shows "fenced st' c"
  using assms by (auto simp: fenced_def)

lemma fenced_same:
  "so_id (lse c') = so_id (lse c) \<Longrightarrow> so_fencing (lse c') = so_fencing (lse c) \<Longrightarrow> fenced st c' = fenced st c"
  using own_id [of c' c st] by (simp add: fenced_def)

lemma fenced_acquire:
  assumes "lock_acquire (so_id (lse c)) ttl (so_fencing (lse c)) T st = (res, st')" "fenced st c" "0 \<le> fence st"
  shows "fenced st' c" "fence st \<le> fence st'"
proof -
  have "fenced st' c \<and> fence st \<le> fence st'"
  proof (cases "holder st")
    case None
    then have "st' = \<lparr>holder = Some (so_id (lse c), T + ttl),
        fence = (if so_fencing (lse c) then fence st + 1 else fence st)\<rparr>"
      using assms(1) by (simp add: lock_acquire_def Let_def)
    then show ?thesis using assms(3) by (simp add: fenced_def)
  next
    case (Some p)
    then have "st' = st" using assms(1) by (cases p) (simp add: lock_acquire_def)
    then show ?thesis using assms(2) by simp
  qed
  then show "fenced st' c" "fence st \<le> fence st'" by blast+
qed

lemma minted_fences:
  assumes "lock_acquire t ttl fencing T st = (res, st')"
    and "sorted_wrt (>) fs" "\<forall>f \<in> set fs. f \<le> fence st"
  shows "sorted_wrt (>) (minted fencing st st' @ fs)" "\<forall>f \<in> set (minted fencing st st' @ fs). f \<le> fence st'"
  using assms by (force simp: lock_acquire_def minted_def Let_def split: option.splits if_splits)+

lemma inv_change:
  assumes inv: "lock_inv clock db cl key fkey S"
    and wf: "lock_wf (db s') key fkey" "clock s' = UnixMilli (now S)"
    and id: "so_id (lse c') = so_id (lse (cls S i))" "client_ok key fkey c'"
    and ph: "phase_inv (cl i) (now S) (own (lock_abs (db s') key fkey) c') c'"
    and fen: "fenced (lock_abs (db s') key fkey) c'"
      "fence (lock_abs (db (srv S)) key fkey) \<le> fence (lock_abs (db s') key fkey)"
    and others: "\<And>j. j \<noteq> i \<Longrightarrow> own (lock_abs (db s') key fkey) (cls S j) =
      own (lock_abs (db (srv S)) key fkey) (cls S j)"
    and fs: "sorted_wrt (>) fs" "\<forall>f \<in> set fs. f \<le> fence (lock_abs (db s') key fkey)"
  shows "lock_inv clock db cl key fkey (upd i c' (S\<lparr>srv := s', fences := fs\<rparr>))" (is "lock_inv _ _ _ _ _ ?S")
proof -
  let ?st = "lock_abs (db s') key fkey"
  have ids: "so_id (lse (cls ?S j)) = so_id (lse (cls S j))" for j
    using id(1) by (simp add: upd_def)
  have same: "cls ?S j = cls S j" if "j \<noteq> i" for j
    using that by (simp add: upd_def)
  have "client_ok key fkey (cls ?S j) \<and> fenced ?st (cls ?S j) \<and> phase_inv (cl j) (now S) (own ?st (cls ?S j)) (cls ?S j)" for j
  proof (cases "j = i")
    case True
    then show ?thesis using id(2) ph fen by (simp add: upd_def)
  next
    case False
    have "fenced (lock_abs (db (srv S)) key fkey) (cls S j)"
      using inv by (simp add: lock_inv_def Let_def)
    then have "fenced ?st (cls S j)"
      using others [OF False] by (intro fenced_later [OF _ fen(2)]) simp_all
    then show ?thesis using inv others [OF False] same [OF False]
      by (simp add: lock_inv_def Let_def)
  qed
  moreover have "inj (\<lambda>j. so_id (lse (cls ?S j)))"
    using inv unfolding ids by (simp add: lock_inv_def Let_def)
  ultimately show ?thesis
    using wf fs by (simp add: lock_inv_def Let_def) (simp add: upd_def)
qed

lemma inv_local:
  assumes inv: "lock_inv clock db cl key fkey S"
    and id: "so_id (lse c') = so_id (lse (cls S i))" "client_ok key fkey c'"
    and fen: "so_fencing (lse c') = so_fencing (lse (cls S i))"
    and ph: "phase_inv (cl i) (now S) (own (lock_abs (db (srv S)) key fkey) (cls S i)) c'"
  shows "lock_inv clock db cl key fkey (upd i c' S)"
proof -
  have "upd i c' S = upd i c' (S\<lparr>srv := srv S, fences := fences S\<rparr>)" by simp
  then show ?thesis
    using inv_change [OF inv, of "srv S" c' i "fences S"] id ph inv own_id [OF id(1)]
      fenced_same [OF id(1) fen]
    by (simp add: lock_inv_def Let_def)
qed

lemma inv_clientD:
  assumes "lock_inv clock db cl key fkey S"
  shows "client_ok key fkey (cls S i)"
    and "phase_inv (cl i) (now S) (own (lock_abs (db (srv S)) key fkey) (cls S i)) (cls S i)"
    and "fenced (lock_abs (db (srv S)) key fkey) (cls S i)"
  using assms by (simp_all add: lock_inv_def Let_def)

lemma other_id:
  assumes "lock_inv clock db cl key fkey S" "j \<noteq> i"
  shows "so_id (lse (cls S j)) \<noteq> so_id (lse (cls S i))"
  using assms by (auto simp: lock_inv_def Let_def dest: injD)

context redis_server
begin

lemma ttl_ms: "client_ok key fkey c \<Longrightarrow> 0 < Milliseconds (so_ttl (lse c))"
proof -
  assume c: "client_ok key fkey c"
  then have "Millisecond \<le> so_ttl (lse c)"
    by (intro zdvd_imp_le) (simp_all add: client_ok_def dvd_eq_mod_eq_0)
  then show ?thesis by (simp add: Milliseconds_nonneg pos_imp_zdiv_pos_iff)
qed

lemma fence_nonneg: "lock_wf d key fkey \<Longrightarrow> 0 \<le> fence (lock_abs d key fkey)"
  by (erule lock_wf_cases) simp_all

lemma tick_inv:
  assumes inv: "lock_inv clock db cl key fkey S" and drift: "bounded_drift cl" and t: "now S \<le> t"
  shows "lock_inv clock db cl key fkey (S\<lparr>now := t, srv := elapse R (UnixMilli t) (srv S)\<rparr>)"
proof -
  have c: "clock (srv S) \<le> UnixMilli t"
    using inv UnixMilli_mono [OF t] by (simp add: lock_inv_def Let_def)
  have wf: "lock_wf (db (srv S)) key fkey" using inv by (simp add: lock_inv_def Let_def)
  note e = lock_elapse_refines [OF wf c]
  have fence: "fence (lock_abs (db (elapse R (UnixMilli t) (srv S))) key fkey) =
      fence (lock_abs (db (srv S)) key fkey)"
    using e by (auto simp: lock_elapse_def)
  have "phase_inv (cl i) t (own (lock_abs (db (elapse R (UnixMilli t) (srv S))) key fkey) (cls S i)) (cls S i)" for i
    using e drift
    by (intro phase_inv_later [OF inv_clientD(2) [OF inv, of i] t drift_mono [OF _ t] own_elapse])
      (auto simp: bounded_drift_def)
  moreover have "fenced (lock_abs (db (elapse R (UnixMilli t) (srv S))) key fkey) (cls S i)" for i
    using fenced_later [OF inv_clientD(3) [OF inv, of i]] fence e
    by (auto simp: lock_elapse_def own_def)
  ultimately show ?thesis
    using inv e fence clock_elapse [OF c] by (simp add: lock_inv_def Let_def)
qed

lemma acquire_inv:
  assumes inv: "lock_inv clock db cl key fkey S" and drift: "bounded_drift cl"
    and c: "c = cls S i" "ph c = Asking t0 \<or> ph c = Answered t0 r0"
    and out: "single_request R (lse c) (srv S) = (Inr r, s')"
    and fence: "fence (lock_abs (db (srv S)) key fkey) + 1 < 2 ^ 53"
  shows "lock_inv clock db cl key fkey
      (upd i (c\<lparr>ph := Answered t0 r\<rparr>)
        (S\<lparr>srv := s', fences := minted (so_fencing (lse c)) (lock_abs (db (srv S)) key fkey)
                              (lock_abs (db s') key fkey) @ fences S\<rparr>))"
proof -
  define st where "st = lock_abs (db (srv S)) key fkey"
  note cl = inv_clientD [OF inv, of i, folded c(1) st_def]
  have wf: "lock_wf (db (srv S)) key fkey" and T: "clock (srv S) = UnixMilli (now S)"
    and fs: "sorted_wrt (>) (fences S)" "\<forall>f \<in> set (fences S). f \<le> fence st"
    using inv by (simp_all add: lock_inv_def Let_def st_def)
  obtain res st' where la: "lock_acquire (so_id (lse c)) (Milliseconds (so_ttl (lse c)))
      (so_fencing (lse c)) (UnixMilli (now S)) st = (res, st')" by fastforce
  have ref: "r = fence_reply res" "lock_abs (db s') key fkey = st'" "clock s' = UnixMilli (now S)"
      "lock_wf (db s') key fkey"
    using single_acquire_refines [OF wf ttl_ms [OF cl(1)], of "so_id (lse c)" "so_fencing (lse c)"]
      out cl(1) T fence la
    by (auto simp: single_request_def client_ok_def st_def)
  have ph: "phase_inv (cl i) (now S) (own st' (c\<lparr>ph := Answered t0 r\<rparr>)) (c\<lparr>ph := Answered t0 r\<rparr>)"
    using acquire_phase [OF cl(2) c(2) cl(1) _ cl(3) la] drift ref(1)
    by (simp add: bounded_drift_def own_id [of "c\<lparr>ph := Answered t0 (fence_reply res)\<rparr>" c])
  show ?thesis
    using ph own_other(1) [OF other_id [OF inv], of _ i] la minted_fences [OF la fs] c(1) cl(1) ref
      fenced_acquire [OF la cl(3) fence_nonneg [OF wf, folded st_def]] fenced_same [of "c\<lparr>ph := Answered t0 r\<rparr>" c]
    by (intro inv_change [OF inv]) (simp_all add: client_ok_def flip: st_def)
qed

lemma renew_inv:
  assumes inv: "lock_inv clock db cl key fkey S" and drift: "bounded_drift cl"
    and c: "c = cls S i" "ph c = Renewing t0 \<or> ph c = RenewAnswered t0 r0"
    and out: "single_renew R (so_key (lse c)) (so_id (lse c)) (Milliseconds (so_ttl (lse c))) (srv S) = (Inr r, s')"
  shows "lock_inv clock db cl key fkey (upd i (c\<lparr>ph := RenewAnswered t0 r\<rparr>) (S\<lparr>srv := s'\<rparr>))"
proof -
  define st where "st = lock_abs (db (srv S)) key fkey"
  note cl = inv_clientD [OF inv, of i, folded c(1) st_def]
  have wf: "lock_wf (db (srv S)) key fkey" and T: "clock (srv S) = UnixMilli (now S)"
    and fs: "sorted_wrt (>) (fences S)" "\<forall>f \<in> set (fences S). f \<le> fence st"
    using inv by (simp_all add: lock_inv_def Let_def st_def)
  obtain ok st' where la: "lock_renew (so_id (lse c)) (Milliseconds (so_ttl (lse c)))
      (UnixMilli (now S)) st = (ok, st')" by fastforce
  have ref: "r = bool_reply ok" "lock_abs (db s') key fkey = st'" "clock s' = UnixMilli (now S)"
      "lock_wf (db s') key fkey"
    using single_renew_refines [OF wf ttl_ms [OF cl(1)], of "so_id (lse c)"] out cl(1) T la
    by (auto simp: client_ok_def st_def)
  have fence: "fence st' = fence st"
    using la by (auto simp: lock_renew_def split: option.splits if_splits)
  have ph: "phase_inv (cl i) (now S) (own st' (c\<lparr>ph := RenewAnswered t0 r\<rparr>)) (c\<lparr>ph := RenewAnswered t0 r\<rparr>)"
    using renew_phase [OF cl(2) c(2) cl(1) _ la] drift ref(1)
    by (simp add: bounded_drift_def own_id [of "c\<lparr>ph := RenewAnswered t0 (bool_reply ok)\<rparr>" c])
  have "fenced st' (c\<lparr>ph := RenewAnswered t0 r\<rparr>)"
    using la cl(3) fenced_same [of "c\<lparr>ph := RenewAnswered t0 r\<rparr>" c]
    by (auto simp: fenced_def lock_renew_def own_def split: option.splits if_splits)
  then have "lock_inv clock db cl key fkey
      (upd i (c\<lparr>ph := RenewAnswered t0 r\<rparr>) (S\<lparr>srv := s', fences := fences S\<rparr>))"
    using ph own_other(2) [OF other_id [OF inv], of _ i] la fs fence c(1) cl(1) ref
    by (intro inv_change [OF inv]) (simp_all add: client_ok_def flip: st_def)
  then show ?thesis by simp
qed

lemma release_inv:
  assumes inv: "lock_inv clock db cl key fkey S"
    and c: "c = cls S i" "ph c = Releasing"
    and out: "single_release R (so_key (lse c)) (so_id (lse c)) (srv S) = (Inr r, s')"
  shows "lock_inv clock db cl key fkey (S\<lparr>srv := s'\<rparr>)"
proof -
  define st where "st = lock_abs (db (srv S)) key fkey"
  note cl = inv_clientD [OF inv, of i, folded c(1) st_def]
  have wf: "lock_wf (db (srv S)) key fkey" and T: "clock (srv S) = UnixMilli (now S)"
    and fs: "sorted_wrt (>) (fences S)" "\<forall>f \<in> set (fences S). f \<le> fence st"
    using inv by (simp_all add: lock_inv_def Let_def st_def)
  obtain ok st' where la: "lock_release (so_id (lse c)) st = (ok, st')" by fastforce
  have ref: "lock_abs (db s') key fkey = st'" "clock s' = UnixMilli (now S)" "lock_wf (db s') key fkey"
    using single_release_refines [OF wf, of "so_id (lse c)"] out cl(1) T la
    by (auto simp: client_ok_def st_def)
  have fence: "fence st' = fence st"
    using la by (auto simp: lock_release_def split: option.splits if_splits)
  have "fenced st' c"
    using la cl(3) by (auto simp: fenced_def lock_release_def own_def split: option.splits if_splits)
  then have "lock_inv clock db cl key fkey (upd i c (S\<lparr>srv := s', fences := fences S\<rparr>))"
    using release_phase [OF cl(2) c(2) la] own_other(3) [OF other_id [OF inv], of _ i] la fs fence c(1) cl(1) ref
    by (intro inv_change [OF inv]) (simp_all flip: st_def)
  then show ?thesis using c(1) by (simp add: upd_def)
qed

lemma inv_phase:
  assumes inv: "lock_inv clock db cl key fkey S" and c: "c = cls S i"
    and ph: "phase_inv (cl i) (now S) (own (lock_abs (db (srv S)) key fkey) c) c \<Longrightarrow>
      phase_inv (cl i) (now S) (own (lock_abs (db (srv S)) key fkey) c) (c\<lparr>ph := p\<rparr>)"
  shows "lock_inv clock db cl key fkey (upd i (c\<lparr>ph := p\<rparr>) S)"
  using inv_clientD [OF inv, of i, folded c] ph
  by (intro inv_local [OF inv]) (simp_all add: c client_ok_def)

lemma renewed_inv:
  assumes inv: "lock_inv clock db cl key fkey S"
    and c: "c = cls S i" "ph c = RenewAnswered t0 (SInt 1)"
    and conf: "confirm_renewal (so_expiresAt (lse c)) (requestExpiry t0 (so_ttl (lse c))) t1 t2 = Some x"
  shows "lock_inv clock db cl key fkey (upd i (c\<lparr>lse := (lse c)\<lparr>so_expiresAt := x\<rparr>, ph := Holding\<rparr>) S)"
proof -
  note cl = inv_clientD [OF inv, of i, folded c(1)]
  obtain d where d: "so_expiresAt (lse c) = Some d" "x = Some (max d (requestExpiry t0 (so_ttl (lse c))))"
    using confirm_renewal_cases [OF conf] by metis
  show ?thesis
    using cl c d by (intro inv_local [OF inv])
      (auto simp: client_ok_def phase_inv_def Let_def max_def)
qed

lemma lock_step_inv:
  assumes "lock_step R db cl key fkey S S'" and drift: "bounded_drift cl"
    and inv: "lock_inv clock db cl key fkey S"
  shows "lock_inv clock db cl key fkey S'"
  using assms(1)
proof cases
  case (tick t)
  then show ?thesis using tick_inv [OF inv drift] by simp
next
  case (ask c i)
  show ?thesis unfolding ask(1)
    using ask by (intro inv_phase [OF inv]) (auto simp: phase_inv_def Let_def if_own_def read_at_def)
next
  case (acquire c i t0 r0 r s')
  then show ?thesis using acquire_inv [OF inv drift acquire(2-5)] by simp
next
  case (granted c i t0 n deadline)
  show ?thesis unfolding granted(1)
    using granted(2-4) inv_clientD [OF inv, of i]
    by (intro inv_local [OF inv]) (auto simp: client_ok_def phase_inv_def Let_def)
next
  case (busy c i t0)
  show ?thesis unfolding busy(1)
    using busy by (intro inv_phase [OF inv]) (auto simp: phase_inv_def Let_def)
next
  case (late c i t0 n)
  show ?thesis unfolding late(1)
    using late by (intro inv_phase [OF inv]) (auto simp: phase_inv_def Let_def )
next
  case (ask_renew c i)
  show ?thesis unfolding ask_renew(1)
    using ask_renew by (intro inv_phase [OF inv]) (auto simp: phase_inv_def Let_def read_at_def)
next
  case (renew c i t0 r0 r s')
  then show ?thesis using renew_inv [OF inv drift renew(2-4)] by simp
next
  case (renewed c i t0 t1 x)
  then show ?thesis using renewed_inv [OF inv renewed(2,3,5)] by simp
next
  case (renew_error c i t0 r)
  show ?thesis unfolding renew_error(1)
    using renew_error by (intro inv_phase [OF inv]) (auto simp: phase_inv_def Let_def )
next
  case (ask_release c i)
  show ?thesis unfolding ask_release(1)
    using ask_release by (intro inv_phase [OF inv]) (auto simp: phase_inv_def Let_def )
next
  case (release c i r s')
  then show ?thesis using release_inv [OF inv release(2-4)] by simp
next
  case (abandon c i)
  show ?thesis unfolding abandon(1)
    using abandon by (intro inv_phase [OF inv]) (auto simp: phase_inv_def Let_def )
qed

lemma start_inv:
  assumes "start clock db key fkey S"
  shows "lock_inv clock db cl key fkey S"
proof -
  have c: "fresh_client key fkey (lock_abs (db (srv S)) key fkey) (cls S i)" for i
    using assms by (simp add: start_def)
  have o: "own (lock_abs (db (srv S)) key fkey) (cls S i) = None" for i
    using c [of i] by (auto simp: fresh_client_def own_def split: option.splits)
  show ?thesis
    using assms c o
    by (simp add: start_def lock_inv_def fresh_client_def client_ok_def phase_inv_def fenced_def Let_def)
qed

lemma reachable_inv:
  assumes "reachable R clock db cl key fkey S" and "bounded_drift cl"
  shows "lock_inv clock db cl key fkey S"
  using assms by induction (auto intro: start_inv lock_step_inv)

text \<open>A client that believes it holds the lock is the one the server has.\<close>

lemma believer_is_holder:
  assumes "reachable R clock db cl key fkey S" and "bounded_drift cl" and "believes cl S i"
  shows "\<exists>e. holder (lock_abs (db (srv S)) key fkey) = Some (so_id (lse (cls S i)), e) \<and>
    now S < e * Millisecond"
proof -
  have "phase_inv (cl i) (now S) (own (lock_abs (db (srv S)) key fkey) (cls S i)) (cls S i)"
    using inv_clientD(2) [OF reachable_inv [OF assms(1,2)]] .
  then obtain d where d: "so_expiresAt (lse (cls S i)) = Some d"
      "backed (cl i) (now S) (own (lock_abs (db (srv S)) key fkey) (cls S i)) d"
    using assms(3) by (auto simp: believes_def phase_inv_def Let_def split: phase.splits)
  moreover have "cl i (now S) < d" using assms(3) d(1) by (simp add: believes_def)
  ultimately obtain e where "own (lock_abs (db (srv S)) key fkey) (cls S i) = Some e"
      "safe (cl i) (now S) d e" by (auto simp: backed_def)
  then show ?thesis
    using \<open>cl i (now S) < d\<close> by (auto simp: own_def safe_def split: option.splits if_splits)
qed

end

section \<open>Properties\<close>

text \<open>
  C1: at most one client at a time believes it holds the lock, whatever the interleaving of
  requests, lost replies, late replies, renewals, releases and expiry, with client clocks of
  any offset that run up to one percent slow. The times to live are whole milliseconds, and a
  request is executed any number of times, but not after its call has returned.
\<close>

theorem mutual_exclusion:
  assumes server: "redis_server R clock db" and drift: "bounded_drift cl"
    and reach: "reachable R clock db cl key fkey S"
    and "believes cl S i" and "believes cl S j"
  shows "i = j"
proof -
  let ?h = "holder (lock_abs (db (srv S)) key fkey)"
  note is_holder = redis_server.believer_is_holder [OF server reach drift]
  have "\<exists>e. ?h = Some (so_id (lse (cls S i)), e)" "\<exists>e. ?h = Some (so_id (lse (cls S j)), e)"
    using is_holder assms(4,5) by blast+
  then have "so_id (lse (cls S i)) = so_id (lse (cls S j))" by auto
  then show ?thesis
    using redis_server.reachable_inv [OF server reach drift] by (auto simp: lock_inv_def Let_def dest: injD)
qed


text \<open>A concrete run: client 0 asks, is granted the lock and holds it at time 5.\<close>

definition demo_cl :: "nat \<Rightarrow> instant \<Rightarrow> instant" where
  "demo_cl i t = t + 7 * int i"

definition demo_client :: "nat \<Rightarrow> client" where
  "demo_client i = \<lparr>lse = NewSingleOwner (replicate i CHR ''x'') ''k'' ''f'' (10 * Second) True, ph = Fresh\<rparr>"

definition demo0 :: "mem system" where
  "demo0 = \<lparr>srv = empty_mem, now = 5, cls = demo_client, fences = []\<rparr>"

definition demo_mem :: mem where
  "demo_mem = snd (single_request mem_redis (lse (demo_client 0)) empty_mem)"

definition demo3 :: "mem system" where
  "demo3 = upd 0 ((demo_client 0)\<lparr>lse := (lse (demo_client 0))\<lparr>so_expiresAt := Some 9899000005\<rparr>, ph := Holding\<rparr>)
     \<lparr>srv = demo_mem, now = 5, cls = demo_client, fences = [1]\<rparr>"

lemma demo_drift: "bounded_drift demo_cl"
  by (simp add: bounded_drift_def slow_at_most_def demo_cl_def)

lemma demo_start: "start mclock mem_db ''k'' ''f'' demo0"
  by (simp add: start_def demo0_def demo_client_def fresh_client_def NewSingleOwner_def lock_wf_def
      lock_abs_def mem_db_def empty_mem_def ttlv_def counter_def UnixMilli_def inj_def replicate_eq_replicate)

lemma demo_request:
  "single_request mem_redis (lse (demo_client 0)) empty_mem = (Inr (SInt 1), demo_mem)"
  "lock_abs (mem_db demo_mem) ''k'' ''f'' = \<lparr>holder = Some ([], 10000), fence = 1\<rparr>"
  "lock_abs (mem_db empty_mem) ''k'' ''f'' = \<lparr>holder = None, fence = 0\<rparr>"
proof -
  let ?d = "mem_db empty_mem"
  have d: "?d = (\<lambda>_. None)" by (rule ext) (simp add: mem_db_def empty_mem_def)
  have wf: "lock_wf ?d ''k'' ''f''" and T: "mclock empty_mem = 0"
    by (simp_all add: d lock_wf_def ttlv_def counter_def) (simp add: empty_mem_def)
  show 3: "lock_abs ?d ''k'' ''f'' = \<lparr>holder = None, fence = 0\<rparr>"
    by (simp add: d lock_abs_def counter_def)
  note ref = mem.single_acquire_refines [OF wf, of 10000 "[]" True]
  have eq: "single_request mem_redis (lse (demo_client 0)) =
      single_acquire mem_redis ''k'' ''f'' [] 10000 ''1''"
    by (simp add: single_request_def demo_client_def NewSingleOwner_def Milliseconds_def)
  show "single_request mem_redis (lse (demo_client 0)) empty_mem = (Inr (SInt 1), demo_mem)"
    using ref 3 T unfolding demo_mem_def eq
    by (intro prod_eqI) (simp_all add: lock_acquire_def fence_reply_def)
  show "lock_abs (mem_db demo_mem) ''k'' ''f'' = \<lparr>holder = Some ([], 10000), fence = 1\<rparr>"
    using ref 3 T unfolding demo_mem_def eq by (simp add: lock_acquire_def)
qed

lemma demo_reachable: "reachable mem_redis mclock mem_db demo_cl ''k'' ''f'' demo3"
proof -
  let ?c = "demo_client 0" and ?reach = "reachable mem_redis mclock mem_db demo_cl ''k'' ''f''"
  let ?S1 = "upd 0 (?c\<lparr>ph := Asking 5\<rparr>) demo0"
  let ?S2 = "upd 0 (?c\<lparr>ph := Answered 5 (SInt 1)\<rparr>) (?S1\<lparr>srv := demo_mem, fences := [1]\<rparr>)"
  have c: "ph ?c = Fresh" "so_fencing (lse ?c)" "so_ttl (lse ?c) = 10 * Second"
    by (simp_all add: demo_client_def NewSingleOwner_def)
  have "?reach ?S1"
    using reachable.later [OF reachable.initially [where R = mem_redis and cl = demo_cl, OF demo_start] lock_step.ask, of ?c 0] c
    by (simp add: demo0_def demo_cl_def)
  then have "?reach ?S2"
    using lock_step.acquire [of "?c\<lparr>ph := Asking 5\<rparr>" ?S1 0 5 SNil mem_redis "SInt 1" demo_mem mem_db "''k''" "''f''" demo_cl]
      c demo_request reachable.later
    by (simp add: demo0_def upd_def minted_def)
  moreover have "requestExpiry 5 (10 * Second) = 9899000005"
    by (simp add: requestExpiry_def)
  ultimately have "?reach (upd 0 (?c\<lparr>lse := (lse ?c)\<lparr>so_expiresAt := Some 9899000005\<rparr>, ph := Holding\<rparr>) ?S2)"
    using lock_step.granted [of "?c\<lparr>ph := Answered 5 (SInt 1)\<rparr>" ?S2 0 5 1 9899000005 demo_cl mem_redis mem_db "''k''" "''f''"]
      c reachable.later
    by (simp add: demo0_def upd_def demo_cl_def)
  then show ?thesis by (simp add: demo3_def demo0_def upd_def)
qed

theorem mutual_exclusion_witness:
  "reachable mem_redis mclock mem_db demo_cl ''k'' ''f'' demo3 \<and> believes demo_cl demo3 0 \<and>
   \<not> believes demo_cl demo3 1 \<and> \<not> believes demo_cl demo3 2"
proof -
  have b: "believes demo_cl demo3 0"
    by (simp add: believes_def demo3_def upd_def demo_cl_def)
  have "\<not> believes demo_cl demo3 1" "\<not> believes demo_cl demo3 2"
    using mutual_exclusion [OF mem_server demo_drift demo_reachable b] by fastforce+
  then show ?thesis using demo_reachable b by blast
qed



end
