(* ===== verification/Permit.thy ===== *)
theory Permit
  imports Single
begin

text \<open>
  The counting lease: the scripts \<^verbatim>\<open>sem_acquire.lua\<close>, \<^verbatim>\<open>sem_renew.lua\<close> and
  \<^verbatim>\<open>sem_release.lua\<close> on a sorted set of permit tokens scored by their expiry, and the
  \<^verbatim>\<open>PermitSet\<close> of \<^verbatim>\<open>internal/lease/permit.go\<close>. The scripts refine an abstract pool.
\<close>

section \<open>The scripts\<close>

text \<open>A numeric reply in Lua arithmetic.\<close>

definition lua_int :: "reply \<Rightarrow> int" where
  "lua_int r = (case r of RInt n \<Rightarrow> n | _ \<Rightarrow> 0)"

lemma lua_int_RInt [simp]: "lua_int (RInt n) = n"
  by (simp add: lua_int_def)

text \<open>The loops over \<^verbatim>\<open>ARGV\<close>, each followed by the rest of its script.\<close>

fun count_owned ::
  "'s redis \<Rightarrow> string \<Rightarrow> string list \<Rightarrow> int \<Rightarrow> (int \<Rightarrow> ('s, sreply) lua) \<Rightarrow> ('s, sreply) lua" where
  "count_owned R zset [] owned k = k owned"
| "count_owned R zset (m # ms) owned k =
     invoke R (ZSCORE zset m) (\<lambda>v. count_owned R zset ms (if truthy v then owned + 1 else owned) k)"

fun zadd_each ::
  "'s redis \<Rightarrow> string \<Rightarrow> int \<Rightarrow> string list \<Rightarrow> ('s, sreply) lua \<Rightarrow> ('s, sreply) lua" where
  "zadd_each R zset score [] k = k"
| "zadd_each R zset score (m # ms) k = invoke R (ZADD zset score m) (\<lambda>_. zadd_each R zset score ms k)"

fun zrem_each ::
  "'s redis \<Rightarrow> string \<Rightarrow> string list \<Rightarrow> int \<Rightarrow> (int \<Rightarrow> ('s, sreply) lua) \<Rightarrow> ('s, sreply) lua" where
  "zrem_each R zset [] removed k = k removed"
| "zrem_each R zset (m # ms) removed k =
     invoke R (ZREM zset m) (\<lambda>n. zrem_each R zset ms (removed + lua_int n) k)"

fun all_live ::
  "'s redis \<Rightarrow> string \<Rightarrow> int \<Rightarrow> string list \<Rightarrow> ('s, sreply) lua \<Rightarrow> ('s, sreply) lua" where
  "all_live R zset now [] k = k"
| "all_live R zset now (m # ms) k =
     invoke R (ZSCORE zset m) (\<lambda>previous.
     if \<not> truthy previous \<or>
        (case tonumber previous of Some p \<Rightarrow> p \<le> of_int now | None \<Rightarrow> True)
     then lua_return (SInt 0)
     else all_live R zset now ms k)"

definition sem_acquire ::
  "'s redis \<Rightarrow> string \<Rightarrow> int \<Rightarrow> int \<Rightarrow> int \<Rightarrow> string list \<Rightarrow> ('s, sreply) lua" where
  "sem_acquire R zset now ttl capacity members =
     invoke R (ZREMRANGEBYSCORE zset now) (\<lambda>_.
     invoke R (ZCARD zset) (\<lambda>used.
     let requested = int (length members) in
     count_owned R zset members 0 (\<lambda>owned.
     if owned = requested then lua_return (integer_reply used)
     else if lua_int used + requested > capacity then lua_return SNil
     else zadd_each R zset (now + ttl) members
            (lua_return (SInt (lua_int used + requested))))))"

definition sem_renew :: "'s redis \<Rightarrow> string \<Rightarrow> int \<Rightarrow> int \<Rightarrow> string list \<Rightarrow> ('s, sreply) lua" where
  "sem_renew R zset now ttl members =
     all_live R zset now members
       (zadd_each R zset (now + ttl) members (lua_return (SInt 1)))"

definition sem_release :: "'s redis \<Rightarrow> string \<Rightarrow> string list \<Rightarrow> ('s, sreply) lua" where
  "sem_release R zset members = zrem_each R zset members 0 (\<lambda>removed. lua_return (SInt removed))"

section \<open>PermitSet\<close>

record permit_set =
  ps_id :: string
  ps_key :: string
  ps_ttl :: duration
  ps_capacity :: int
  ps_tokens :: "string list"
  ps_acquired :: bool
  ps_expiresAt :: "instant option"

definition NewPermitSet :: "string \<Rightarrow> string \<Rightarrow> duration \<Rightarrow> int \<Rightarrow> permit_set" where
  "NewPermitSet token key ttl capacity =
     \<lparr>ps_id = token, ps_key = key, ps_ttl = ttl, ps_capacity = capacity,
      ps_tokens = [], ps_acquired = False, ps_expiresAt = None\<rparr>"

text \<open>\<^verbatim>\<open>strconv.Itoa\<close> of a natural number.\<close>

fun Itoa :: "nat \<Rightarrow> string" where
  "Itoa n = (if n < 10 then [''0123456789'' ! n] else Itoa (n div 10) @ [''0123456789'' ! (n mod 10)])"

declare Itoa.simps [simp del]

definition permit_tokens :: "string \<Rightarrow> int \<Rightarrow> string list" where
  "permit_tokens token n = map (\<lambda>i. token @ ''#'' @ Itoa i) [0..<nat n]"

definition PermitSet_Release ::
  "'s redis \<Rightarrow> transport \<Rightarrow> permit_set \<Rightarrow> 's \<Rightarrow> goerr option \<times> permit_set \<times> 's" where
  "PermitSet_Release R tr p s =
     (let tokens = ps_tokens p in
      if tokens = [] then (Some ErrLost, p, s)
      else case Int64 (Run R tr (sem_release R (ps_key p) tokens) s) of
        (Inl e, s') \<Rightarrow> (Some e, p, s')
      | (Inr None, s') \<Rightarrow> (Some redis_Nil, p, s')
      | (Inr (Some removed), s') \<Rightarrow>
          (if removed \<noteq> int (length tokens) then Some ErrLost else None,
           p\<lparr>ps_tokens := [], ps_acquired := False, ps_expiresAt := None\<rparr>, s'))"

definition PermitSet_TryAcquire ::
  "'s redis \<Rightarrow> acq_env \<Rightarrow> int \<Rightarrow> permit_set \<Rightarrow> 's \<Rightarrow> goerr option \<times> permit_set \<times> 's" where
  "PermitSet_TryAcquire R env n p s =
     (let started = acq_started env; deadline = requestExpiry started (ps_ttl p) in
      if n < 1 then (None, p, s)
      else
        let tokens = permit_tokens (ps_id p) n in
        case Int64 (Run R (acq_net env)
               (sem_acquire R (ps_key p) (UnixMilli started) (Milliseconds (ps_ttl p)) (ps_capacity p) tokens) s) of
          (Inl e, s') \<Rightarrow> (Some e, p, s')
        | (Inr None, s') \<Rightarrow> (Some ErrBusy, p, s')
        | (Inr (Some _), s') \<Rightarrow>
            let p1 = p\<lparr>ps_tokens := tokens\<rparr> in
            if \<not> acq_replied env < deadline then discardLateGrant (PermitSet_Release R) (acq_late_net env) p1 s'
            else (None, p1\<lparr>ps_acquired := True, ps_expiresAt := Some deadline\<rparr>, s'))"

definition PermitSet_Acquire ::
  "'s redis \<Rightarrow> acq_env \<Rightarrow> permit_set \<Rightarrow> 's \<Rightarrow> goerr option \<times> permit_set \<times> 's" where
  "PermitSet_Acquire R env p s = PermitSet_TryAcquire R env 1 p s"

definition PermitSet_Renew ::
  "'s redis \<Rightarrow> renew_env \<Rightarrow> permit_set \<Rightarrow> 's \<Rightarrow> goerr option \<times> permit_set \<times> 's" where
  "PermitSet_Renew R env p s =
     (let started = ren_started env; deadline = requestExpiry started (ps_ttl p); tokens = ps_tokens p in
      if tokens = [] then (Some ErrLost, p, s)
      else case Int64 (Run R (ren_net env)
             (sem_renew R (ps_key p) (UnixMilli started) (Milliseconds (ps_ttl p)) tokens) s) of
        (Inl e, s') \<Rightarrow> (Some e, p, s')
      | (Inr None, s') \<Rightarrow> (Some redis_Nil, p, s')
      | (Inr (Some ok), s') \<Rightarrow>
          if ok \<noteq> 1 then (Some ErrLost, p, s')
          else (case confirm_renewal (ps_expiresAt p) deadline (ren_replied env) (ren_checked env) of
              None \<Rightarrow> (Some ErrLost, p, s')
            | Some x \<Rightarrow> (None, p\<lparr>ps_expiresAt := x\<rparr>, s')))"

text \<open>\<^verbatim>\<open>Held\<close> asks for the score of every token in turn, each over its own transport.\<close>

fun held_tokens ::
  "'s redis \<Rightarrow> string \<Rightarrow> int \<Rightarrow> (nat \<Rightarrow> transport) \<Rightarrow> nat \<Rightarrow> string list \<Rightarrow> 's \<Rightarrow> (goerr + bool) \<times> 's" where
  "held_tokens R key now trs i [] s = (Inr True, s)"
| "held_tokens R key now trs i (t # ts) s =
     (case Run R (trs i) (redis_call R (ZSCORE key t)) s of
        (Inl e, s') \<Rightarrow> (Inl e, s')
      | (Inr score, s') \<Rightarrow>
          (case tonumber score of
             None \<Rightarrow> (Inr False, s')
           | Some q \<Rightarrow> if q \<le> of_int now then (Inr False, s')
                       else held_tokens R key now trs (Suc i) ts s'))"

definition PermitSet_Held ::
  "'s redis \<Rightarrow> instant \<Rightarrow> (nat \<Rightarrow> transport) \<Rightarrow> permit_set \<Rightarrow> 's \<Rightarrow> (goerr + bool) \<times> 's" where
  "PermitSet_Held R now trs p s =
     (if ps_tokens p = [] then (Inr False, s)
      else held_tokens R (ps_key p) (UnixMilli now) trs 0 (ps_tokens p) s)"

definition PermitSet_ID :: "permit_set \<Rightarrow> string" where [simp]: "PermitSet_ID p = ps_id p"
definition PermitSet_ExpiresAt :: "permit_set \<Rightarrow> instant option" where [simp]: "PermitSet_ExpiresAt p = ps_expiresAt p"
definition PermitSet_Acquired :: "permit_set \<Rightarrow> bool" where "PermitSet_Acquired p = ps_acquired p"

definition PermitSet_ops :: "'s redis \<Rightarrow> (permit_set, 's) lease_ops" where
  "PermitSet_ops R = \<lparr>
     ID = PermitSet_ID,
     Acquire = PermitSet_Acquire R,
     Renew = PermitSet_Renew R,
     Release = PermitSet_Release R,
     Held = PermitSet_Held R,
     ExpiresAt = PermitSet_ExpiresAt\<rparr>"

section \<open>The abstract pool\<close>

text \<open>
  What the scripts promise over the sorted set of permits. \<open>reclaim\<close> drops what has expired
  by the caller's clock.
\<close>

definition reclaim :: "int \<Rightarrow> zset \<Rightarrow> zset" where
  "reclaim now z = filter (\<lambda>p. now < snd p) z"

definition owned_of :: "zset \<Rightarrow> string list \<Rightarrow> int" where
  "owned_of z ms = int (length (filter (\<lambda>m. map_of z m \<noteq> None) ms))"

definition pool_acquire ::
  "int \<Rightarrow> int \<Rightarrow> int \<Rightarrow> string list \<Rightarrow> zset \<Rightarrow> int option \<times> zset" where
  "pool_acquire now ttl capacity ms z =
     (let z1 = reclaim now z; used = int (length z1) in
      if owned_of z1 ms = int (length ms) then (Some used, z1)
      else if used + int (length ms) > capacity then (None, z1)
      else (Some (used + int (length ms)), fold (\<lambda>m. zadd m (now + ttl)) ms z1))"

definition pool_renew :: "int \<Rightarrow> int \<Rightarrow> string list \<Rightarrow> zset \<Rightarrow> bool \<times> zset" where
  "pool_renew now ttl ms z =
     (if \<forall>m \<in> set ms. (case map_of z m of Some e \<Rightarrow> now < e | None \<Rightarrow> False)
      then (True, fold (\<lambda>m. zadd m (now + ttl)) ms z) else (False, z))"

definition pool_release :: "string list \<Rightarrow> zset \<Rightarrow> zset" where
  "pool_release ms z = fold zrem ms z"

section \<open>The scripts refine it\<close>

text \<open>The keyspace after a script that only writes \<open>key\<close>: its sorted set, and the rest unchanged.\<close>

definition only_zset :: "keyspace \<Rightarrow> keyspace \<Rightarrow> string \<Rightarrow> zset \<Rightarrow> bool" where
  "only_zset d d' key z = (is_zset d' key \<and> zsetv d' key = z \<and>
     (ttlv d key = None \<longrightarrow> ttlv d' key = None) \<and> (\<forall>j. j \<noteq> key \<longrightarrow> d' j = d j))"

lemma only_zset_refl: "is_zset d key \<Longrightarrow> only_zset d d key (zsetv d key)"
  by (simp add: only_zset_def)

lemma only_zset_put: "only_zset d d' key z \<Longrightarrow> only_zset d (put_zset d' key z') key z'"
  by (simp add: only_zset_def kv)

lemma only_zset_is: "only_zset d d' key z \<Longrightarrow> is_zset d' key" "only_zset d d' key z \<Longrightarrow> zsetv d' key = z"
  by (simp_all add: only_zset_def)

context redis_server
begin

lemma count_owned_exec:
  assumes "is_zset (db s) key"
  shows "\<exists>s'. count_owned R key ms c k s = k (c + owned_of (zsetv (db s) key) ms) s' \<and>
    db s' = db s \<and> clock s' = clock s"
  using assms
proof (induction ms arbitrary: c s)
  case Nil
  then show ?case by (auto simp: owned_of_def)
next
  case (Cons m ms)
  let ?c = "if map_of (zsetv (db s) key) m = None then c else c + 1"
  obtain s' where "count_owned R key ms ?c k (after R (ZSCORE key m) s) =
      k (?c + owned_of (zsetv (db s) key) ms) s'" "db s' = db s" "clock s' = clock s"
    using Cons.IH [of "after R (ZSCORE key m) s" ?c] Cons.prems by (auto simp: redis_step)
  moreover have "?c + owned_of (zsetv (db s) key) ms = c + owned_of (zsetv (db s) key) (m # ms)"
    by (auto simp: owned_of_def)
  moreover have "truthy (bulk_reply (map_option inum x)) = (x \<noteq> None)" for x
    by (cases x) (auto simp: bulk_reply_def)
  ultimately show ?case using Cons.prems by (auto simp: redis_step split: if_splits)
qed

lemma zadd_each_exec:
  assumes "only_zset d (db s) key z"
  shows "\<exists>s'. zadd_each R key sc ms k s = k s' \<and> clock s' = clock s \<and>
    only_zset d (db s') key (fold (\<lambda>m. zadd m sc) ms z)"
  using assms
proof (induction ms arbitrary: z s)
  case (Cons m ms)
  then have "only_zset d (db (after R (ZADD key sc m) s)) key (zadd m sc z)"
    by (simp add: redis_step only_zset_is only_zset_put)
  from Cons.IH [OF this] Cons.prems show ?case
    by (auto simp: redis_step only_zset_is)
qed auto

lemma zrem_each_exec:
  assumes "only_zset d (db s) key z" and "zwf z" and "distinct ms"
  shows "\<exists>s'. zrem_each R key ms n k s = k (n + owned_of z ms) s' \<and> clock s' = clock s \<and>
    only_zset d (db s') key (fold zrem ms z)"
  using assms
proof (induction ms arbitrary: z s n)
  case (Cons m ms)
  have o: "owned_of (zrem m z) ms = owned_of z ms"
    using Cons.prems(3) by (auto simp: owned_of_def map_of_zrem intro!: arg_cong [of _ _ length] filter_cong)
  have z: "only_zset d (db (after R (ZREM key m) s)) key (zrem m z)"
    using Cons.prems(1) by (simp add: redis_step only_zset_is only_zset_put)
  show ?case
    using Cons.IH [OF z, of "n + (if map_of z m = None then 0 else 1)"] Cons.prems o
    by (auto simp: redis_step only_zset_is owned_of_def zwf_zrem ac_simps)
qed (auto simp: owned_of_def)

lemma all_live_exec:
  assumes "is_zset (db s) key"
  shows "\<exists>s'. db s' = db s \<and> clock s' = clock s \<and> all_live R key now ms k s =
    (if \<forall>m \<in> set ms. (case map_of (zsetv (db s) key) m of Some e \<Rightarrow> now < e | None \<Rightarrow> False)
     then k s' else (Inr (SInt 0), s'))"
  using assms
proof (induction ms arbitrary: s)
  case (Cons m ms)
  then show ?case
    using Cons.IH [of "after R (ZSCORE key m) s"]
    by (cases "map_of (zsetv (db s) key) m") (auto simp: redis_step bulk_reply_def lua_return_def)
qed auto

lemma sem_acquire_refines:
  assumes z: "is_zset (db s) key"
  shows "\<exists>s'. sem_acquire R key now ttl capacity ms s =
      (Inr (fence_reply (fst (pool_acquire now ttl capacity ms (zsetv (db s) key)))), s') \<and>
    clock s' = clock s \<and>
    only_zset (db s) (db s') key (snd (pool_acquire now ttl capacity ms (zsetv (db s) key)))"
proof -
  let ?z1 = "reclaim now (zsetv (db s) key)"
  let ?s1 = "after R (ZREMRANGEBYSCORE key now) s"
  let ?s2 = "after R (ZCARD key) ?s1"
  have s1: "only_zset (db s) (db ?s1) key ?z1"
    using z by (simp add: redis_step reclaim_def only_zset_put [OF only_zset_refl])
  then have s2: "only_zset (db s) (db ?s2) key ?z1"
    by (simp add: redis_step only_zset_is)
  let ?k = "\<lambda>owned. if owned = int (length ms) then lua_return (SInt (int (length ?z1)))
     else if int (length ?z1) + int (length ms) > capacity then lua_return SNil
     else zadd_each R key (now + ttl) ms (lua_return (SInt (int (length ?z1) + int (length ms))))"
  have eq: "sem_acquire R key now ttl capacity ms s = count_owned R key ms 0 ?k ?s2"
    using z by (simp add: sem_acquire_def redis_step kv reclaim_def Let_def cong: if_cong)
  obtain s3 where s3: "count_owned R key ms 0 ?k ?s2 = ?k (owned_of ?z1 ms) s3"
      "db s3 = db ?s2" "clock s3 = clock s"
    using count_owned_exec [OF only_zset_is(1) [OF s2], of ms 0 ?k] s2
    by (auto simp: redis_step only_zset_is)
  obtain s4 where "zadd_each R key (now + ttl) ms (lua_return (SInt (int (length ?z1) + int (length ms)))) s3 =
      lua_return (SInt (int (length ?z1) + int (length ms))) s4" "clock s4 = clock s"
      "only_zset (db s) (db s4) key (fold (\<lambda>m. zadd m (now + ttl)) ms ?z1)"
    using zadd_each_exec [of "db s" s3 key ?z1 "now + ttl" ms] s2 s3 by metis
  then show ?thesis
    unfolding eq s3(1) using s2 s3(2,3)
    by (auto simp: pool_acquire_def Let_def lua_return_def fence_reply_def)
qed

lemma sem_renew_refines:
  assumes z: "is_zset (db s) key"
  shows "\<exists>s'. sem_renew R key now ttl ms s =
      (Inr (bool_reply (fst (pool_renew now ttl ms (zsetv (db s) key)))), s') \<and> clock s' = clock s \<and>
    only_zset (db s) (db s') key (snd (pool_renew now ttl ms (zsetv (db s) key)))"
proof -
  let ?k = "zadd_each R key (now + ttl) ms (lua_return (SInt 1))"
  let ?P = "\<forall>m \<in> set ms. (case map_of (zsetv (db s) key) m of Some e \<Rightarrow> now < e | None \<Rightarrow> False)"
  obtain s1 where s1: "db s1 = db s" "clock s1 = clock s"
      "all_live R key now ms ?k s = (if ?P then ?k s1 else (Inr (SInt 0), s1))"
    using all_live_exec [OF z] by blast
  have o: "only_zset (db s) (db s1) key (zsetv (db s) key)"
    using s1 z by (simp add: only_zset_refl)
  obtain s2 where "?k s1 = lua_return (SInt 1) s2" "clock s2 = clock s"
      "only_zset (db s) (db s2) key (fold (\<lambda>m. zadd m (now + ttl)) ms (zsetv (db s) key))"
    using zadd_each_exec [OF o, of "now + ttl" ms "lua_return (SInt 1)"] s1(2) by metis
  then show ?thesis
    using s1 o by (auto simp: sem_renew_def pool_renew_def bool_reply_def lua_return_def)
qed

lemma sem_release_refines:
  assumes z: "is_zset (db s) key" and "distinct ms"
  shows "\<exists>s'. sem_release R key ms s = (Inr (SInt (owned_of (zsetv (db s) key) ms)), s') \<and>
    clock s' = clock s \<and> only_zset (db s) (db s') key (pool_release ms (zsetv (db s) key))"
  using zrem_each_exec [OF only_zset_refl [OF z] zwf_zsetv_db assms(2), of 0 "\<lambda>r. lua_return (SInt r)"]
  by (auto simp: sem_release_def pool_release_def lua_return_def)

end

section \<open>The pool\<close>

lemma zwf_reclaim: "zwf z \<Longrightarrow> zwf (reclaim now z)"
  by (simp add: reclaim_def zwf_filter)

lemma length_reclaim: "length (reclaim now z) \<le> length z"
  by (simp add: reclaim_def)

lemma zwf_fold_zadd: "zwf z \<Longrightarrow> zwf (fold (\<lambda>m. zadd m sc) ms z)"
  by (induction ms arbitrary: z) (auto intro: zwf_zadd)

lemma length_fold_zadd: "zwf z \<Longrightarrow> length (fold (\<lambda>m. zadd m sc) ms z) \<le> length z + length ms"
proof (induction ms arbitrary: z)
  case (Cons m ms)
  have "length (zadd m sc z) \<le> Suc (length z)"
    using Cons.prems by (simp add: length_zadd length_zrem)
  then show ?case using Cons.IH [OF zwf_zadd [OF Cons.prems], of m sc] by simp
qed simp

lemma map_of_fold_zadd:
  "map_of (fold (\<lambda>m. zadd m sc) ms z) a = (if a \<in> set ms then Some sc else map_of z a)"
  by (induction ms arbitrary: z) (auto simp: map_of_zadd)

lemma map_of_fold_zrem: "map_of (fold zrem ms z) a = (if a \<in> set ms then None else map_of z a)"
  by (induction ms arbitrary: z) (auto simp: map_of_zrem)

lemma length_fold_zrem: "length (fold zrem ms z) \<le> length z"
proof (induction ms arbitrary: z)
  case (Cons m ms)
  have "length (zrem m z) \<le> length z" by (simp add: zrem_def)
  then show ?case using Cons.IH [of "zrem m z"] by simp
qed simp

lemma map_of_filter_key:
  "distinct (map fst z) \<Longrightarrow> map_of (filter P z) a =
    (case map_of z a of Some e \<Rightarrow> if P (a, e) then Some e else None | None \<Rightarrow> None)"
proof (induction z)
  case (Cons p z)
  have "map_of z a = None" if "a = fst p"
    using Cons.prems that by (auto simp: map_of_eq_None_iff)
  with Cons show ?case by (cases p) (auto split: option.splits)
qed simp

lemma map_of_reclaim:
  assumes "zwf z"
  shows "map_of (reclaim now z) a =
    (case map_of z a of Some e \<Rightarrow> if now < e then Some e else None | None \<Rightarrow> None)"
  using assms by (simp add: reclaim_def zwf_def map_of_filter_key cong: if_cong option.case_cong)

text \<open>
  Renewal keeps the number of permits; a permit that is renewed was there.
\<close>

lemma length_fold_zadd_owned:
  assumes "zwf z" "\<forall>m \<in> set ms. map_of z m \<noteq> None"
  shows "length (fold (\<lambda>m. zadd m sc) ms z) = length z"
  using assms
proof (induction ms arbitrary: z)
  case (Cons m ms)
  have "length z \<noteq> 0" using Cons.prems(2) by auto
  then have "length (zadd m sc z) = length z"
    using Cons.prems by (simp add: length_zadd length_zrem)
  then show ?case
    using Cons.IH [of "zadd m sc z"] Cons.prems by (simp add: zwf_zadd map_of_zadd)
qed simp

lemma pool_renew_length: "zwf z \<Longrightarrow> length (snd (pool_renew now ttl ms z)) = length z"
  unfolding pool_renew_def
  by (auto intro!: length_fold_zadd_owned split: option.splits)

lemma pool_acquire_capacity:
  assumes "zwf z" "int (length z) \<le> capacity"
  shows "int (length (snd (pool_acquire now ttl capacity ms z))) \<le> capacity"
  using assms length_fold_zadd [OF zwf_reclaim [OF assms(1), of now], of "now + ttl" ms] length_reclaim [of now z]
  by (auto simp: pool_acquire_def Let_def)

text \<open>A permit that is live by the caller's clock survives whatever another client does.\<close>

lemma pool_acquire_keeps:
  assumes "zwf z" "map_of z a = Some e" "now < e" "a \<notin> set ms"
  shows "map_of (snd (pool_acquire now ttl capacity ms z)) a = Some e"
  using assms by (simp add: pool_acquire_def Let_def map_of_fold_zadd map_of_reclaim)

lemma pool_renew_keeps:
  assumes "map_of z a = Some e" "a \<notin> set ms"
  shows "map_of (snd (pool_renew now ttl ms z)) a = Some e"
  using assms by (simp add: pool_renew_def map_of_fold_zadd)

lemma pool_release_keeps:
  assumes "map_of z a = Some e" "a \<notin> set ms"
  shows "map_of (pool_release ms z) a = Some e"
  using assms by (simp add: pool_release_def map_of_fold_zrem)

section \<open>Permit tokens\<close>

fun digits_value :: "nat \<Rightarrow> string \<Rightarrow> nat" where
  "digits_value acc [] = acc"
| "digits_value acc (c # cs) = digits_value (10 * acc + (of_char c - 48)) cs"

lemma digits_value_append: "digits_value a (xs @ ys) = digits_value (digits_value a xs) ys"
  by (induction xs arbitrary: a) auto

lemma digit_value: "n < 10 \<Longrightarrow> of_char (''0123456789'' ! n) - 48 = (n :: nat)"
proof -
  assume "n < 10"
  then have "n \<in> {0, 1, 2, 3, 4, 5, 6, 7, 8, 9}" by auto
  then show ?thesis by auto
qed

lemma digits_value_Itoa: "digits_value 0 (Itoa n) = n"
proof (induction n rule: Itoa.induct)
  case (1 n)
  show ?case
  proof (cases "n < 10")
    case True
    then show ?thesis by (subst Itoa.simps) (simp add: digit_value)
  next
    case False
    with 1 show ?thesis
      by (subst Itoa.simps) (simp add: digits_value_append digit_value)
  qed
qed

lemma inj_Itoa: "Itoa m = Itoa n \<Longrightarrow> m = n"
  by (metis digits_value_Itoa)

lemma distinct_permit_tokens: "distinct (permit_tokens t n)"
  by (auto simp: permit_tokens_def distinct_map inj_on_def dest: inj_Itoa)

lemma length_permit_tokens: "length (permit_tokens t n) = nat n"
  by (simp add: permit_tokens_def)

section \<open>The methods of PermitSet\<close>

text \<open>A sorted set is determined by its scores.\<close>

lemma zsorted_unique:
  "sorted_wrt zless xs \<Longrightarrow> sorted_wrt zless ys \<Longrightarrow> set xs = set ys \<Longrightarrow> xs = ys"
proof (induction xs arbitrary: ys)
  case (Cons x xs)
  have asym: "zless p q \<Longrightarrow> \<not> zless q p" "\<not> zless p p" for p q by (auto simp: zless_def)
  from Cons.prems obtain y ys' where ys: "ys = y # ys'" by (cases ys) auto
  have "x = y" using Cons.prems asym unfolding ys by (metis insert_iff list.simps(15) sorted_wrt.simps(2))
  moreover have "x \<notin> set xs" "y \<notin> set ys'"
    using Cons.prems(1,2) unfolding ys by (auto simp: zless_def)
  then have "set xs = set ys'"
    using Cons.prems(3) \<open>x = y\<close> unfolding ys by auto
  ultimately show ?case using Cons ys by simp
qed simp

lemma zwf_ext:
  assumes "zwf z" "zwf z'" "\<And>m. map_of z m = map_of z' m"
  shows "z = z'"
proof (rule zsorted_unique)
  show "set z = set z'"
    using zwf_map_of [OF assms(1)] zwf_map_of [OF assms(2)] assms(3) by auto
qed (use assms in \<open>simp_all add: zwf_def\<close>)

lemma zwf_fold_zrem: "zwf z \<Longrightarrow> zwf (fold zrem ms z)"
  by (induction ms arbitrary: z) (auto intro: zwf_zrem)

text \<open>Giving back permits that were added leaves the others as they were.\<close>

lemma release_added:
  assumes "zwf z" "\<forall>m \<in> set ms. map_of z m = None"
  shows "pool_release ms (fold (\<lambda>m. zadd m sc) ms z) = z"
  unfolding pool_release_def using assms
  by (intro zwf_ext zwf_fold_zrem zwf_fold_zadd) (auto simp: map_of_fold_zrem map_of_fold_zadd)

lemma owned_added: "owned_of (fold (\<lambda>m. zadd m sc) ms z) ms = int (length ms)"
  by (simp add: owned_of_def map_of_fold_zadd)

lemma set_permit_tokens_nonempty: "1 \<le> n \<Longrightarrow> permit_tokens t n \<noteq> []"
  by (simp add: permit_tokens_def)

text \<open>The pool of a key: a sorted set that never expires.\<close>

definition pool_at :: "keyspace \<Rightarrow> string \<Rightarrow> zset \<Rightarrow> bool" where
  "pool_at d key z = (is_zset d key \<and> ttlv d key = None \<and> zsetv d key = z)"

lemma pool_at_only: "pool_at d key z \<Longrightarrow> only_zset d d' key z' \<Longrightarrow> pool_at d' key z'"
  by (simp add: pool_at_def only_zset_def)

context redis_server
begin

lemma pool_elapse:
  assumes "pool_at (db s) key z" and "clock s \<le> T"
  shows "pool_at (db (elapse R T s)) key z"
  using assms elapse_without_ttl [OF assms(2), of key]
  by (simp add: pool_at_def is_zset_def ttlv_def zsetv_def)

lemma pool_zwf: "pool_at (db s) key z \<Longrightarrow> zwf z"
  using zwf_zsetv_db [of s key] by (simp add: pool_at_def)

lemma Run_sem_acquire:
  assumes p: "pool_at (db s) key z" and T: "clock s \<le> T"
    and out: "pool_acquire now ttl capacity ms z = (res, z')"
  shows "\<exists>s'. Run R (Reply [] T) (sem_acquire R key now ttl capacity ms) s = (Inr (fence_reply res), s') \<and>
    clock s' = T \<and> pool_at (db s') key z'"
  using sem_acquire_refines [of "elapse R T s" key now ttl capacity ms] pool_elapse [OF p T] out
    clock_elapse [OF T] pool_at_only [OF pool_elapse [OF p T]]
  by (auto simp: pool_at_def)

lemma Run_sem_renew:
  assumes p: "pool_at (db s) key z" and T: "clock s \<le> T" and out: "pool_renew now ttl ms z = (ok, z')"
  shows "\<exists>s'. Run R (Reply [] T) (sem_renew R key now ttl ms) s = (Inr (bool_reply ok), s') \<and>
    clock s' = T \<and> pool_at (db s') key z'"
  using sem_renew_refines [of "elapse R T s" key now ttl ms] pool_elapse [OF p T] out
    clock_elapse [OF T] pool_at_only [OF pool_elapse [OF p T]]
  by (auto simp: pool_at_def)

lemma Run_sem_release:
  assumes p: "pool_at (db s) key z" and T: "clock s \<le> T" and "distinct ms"
  shows "\<exists>s'. Run R (Reply [] T) (sem_release R key ms) s = (Inr (SInt (owned_of z ms)), s') \<and>
    clock s' = T \<and> pool_at (db s') key (pool_release ms z)"
  using sem_release_refines [of "elapse R T s" key ms] pool_elapse [OF p T] assms(3)
    clock_elapse [OF T] pool_at_only [OF pool_elapse [OF p T]]
  by (auto simp: pool_at_def)

end

section \<open>Properties\<close>

text \<open>
  C12: one acquisition of \<open>n\<close> permits whose reply arrives, over the pool as the server has it.
  Expired permits are reclaimed first in every case. With too few permits left the call reports
  busy and takes none; otherwise all \<open>n\<close> are taken and recorded with the local deadline; a
  grant read too late is given back and its error matches \<^verbatim>\<open>ErrLost\<close>.
\<close>

theorem permit_acquire_outcome:
  assumes server: "redis_server R clock db" and pool: "pool_at (db s) (ps_key p) z"
    and T: "clock s \<le> T" and net: "acq_net env = Reply [] T" and n: "1 \<le> n"
  shows "case pool_acquire (UnixMilli (acq_started env)) (Milliseconds (ps_ttl p)) (ps_capacity p)
           (permit_tokens (ps_id p) n) z of
      (None, z') \<Rightarrow> \<exists>s'. PermitSet_TryAcquire R env n p s = (Some ErrBusy, p, s') \<and>
        pool_at (db s') (ps_key p) z' \<and> z' = reclaim (UnixMilli (acq_started env)) z
    | (Some used, z') \<Rightarrow>
        let deadline = requestExpiry (acq_started env) (ps_ttl p) in
        if acq_replied env < deadline
        then \<exists>s'. PermitSet_TryAcquire R env n p s =
            (None, p\<lparr>ps_tokens := permit_tokens (ps_id p) n, ps_acquired := True,
               ps_expiresAt := Some deadline\<rparr>, s') \<and> pool_at (db s') (ps_key p) z'
        else \<exists>e p' s'. PermitSet_TryAcquire R env n p s = (Some e, p', s') \<and> errors_Is e ErrLost"
proof -
  let ?ms = "permit_tokens (ps_id p) n"
  obtain res z' where pa: "pool_acquire (UnixMilli (acq_started env)) (Milliseconds (ps_ttl p))
      (ps_capacity p) ?ms z = (res, z')" by fastforce
  obtain s' where run: "Run R (Reply [] T) (sem_acquire R (ps_key p) (UnixMilli (acq_started env))
      (Milliseconds (ps_ttl p)) (ps_capacity p) ?ms) s = (Inr (fence_reply res), s')"
      "pool_at (db s') (ps_key p) z'"
    using redis_server.Run_sem_acquire [OF server pool T pa] by auto
  note i = Int64_fence_reply [OF run(1)]
  show ?thesis
  proof (cases res)
    case None
    then have "z' = reclaim (UnixMilli (acq_started env)) z"
      using pa by (auto simp: pool_acquire_def Let_def split: if_splits)
    with None show ?thesis using pa run(2) i n
      by (simp add: PermitSet_TryAcquire_def net Let_def)
  next
    case (Some f)
    have "\<exists>e p' s''. PermitSet_TryAcquire R env n p s = (Some e, p', s'') \<and> errors_Is e ErrLost"
      if "\<not> acq_replied env < requestExpiry (acq_started env) (ps_ttl p)"
    proof -
      obtain e p' s'' where rel: "PermitSet_Release R (acq_late_net env) (p\<lparr>ps_tokens := ?ms\<rparr>) s' = (e, p', s'')"
        by (rule prod_cases3)
      with that Some i n show ?thesis
        by (cases e) (simp_all add: PermitSet_TryAcquire_def net Let_def discardLateGrant_def)
    qed
    with Some pa run(2) i n show ?thesis
      by (simp add: PermitSet_TryAcquire_def net Let_def)
  qed
qed

text \<open>
  C31: acquiring permits and releasing them again is a round trip: the release succeeds, the
  lease forgets its tokens, and the pool is what it was but for the permits that had expired.
\<close>

theorem permit_roundtrip:
  assumes server: "redis_server R clock db" and pool: "pool_at (db s) (ps_key p) z"
    and T: "clock s \<le> T" "T \<le> T'" and net: "acq_net env = Reply [] T" and n: "1 \<le> n"
    and fresh: "\<forall>m \<in> set (permit_tokens (ps_id p) n). map_of z m = None"
    and room: "int (length (reclaim (UnixMilli (acq_started env)) z)) + n \<le> ps_capacity p"
    and in_time: "acq_replied env < requestExpiry (acq_started env) (ps_ttl p)"
  shows "\<exists>p' s' s''. PermitSet_TryAcquire R env n p s = (None, p', s') \<and> length (ps_tokens p') = nat n \<and>
    PermitSet_Release R (Reply [] T') p' s' =
      (None, p\<lparr>ps_tokens := [], ps_acquired := False, ps_expiresAt := None\<rparr>, s'') \<and>
    pool_at (db s'') (ps_key p) (reclaim (UnixMilli (acq_started env)) z)"
proof -
  let ?ms = "permit_tokens (ps_id p) n" and ?now = "UnixMilli (acq_started env)"
  let ?z1 = "reclaim ?now z" and ?add = "\<lambda>m. zadd m (?now + Milliseconds (ps_ttl p))"
  have z: "zwf z" "zwf ?z1"
    using redis_server.pool_zwf [OF server pool] by (simp_all add: zwf_reclaim)
  have fresh': "\<forall>m \<in> set ?ms. map_of ?z1 m = None"
    using fresh by (simp add: map_of_reclaim [OF z(1)])
  have ms: "?ms \<noteq> []" "length ?ms = nat n" using n by (simp_all add: set_permit_tokens_nonempty length_permit_tokens)
  have own: "owned_of ?z1 ?ms \<noteq> int (length ?ms)"
    using fresh' n ms(2) by (simp add: owned_of_def)
  obtain res z' where pa: "pool_acquire ?now (Milliseconds (ps_ttl p)) (ps_capacity p) ?ms z = (res, z')" by fastforce
  obtain s1 where run: "Run R (Reply [] T) (sem_acquire R (ps_key p) ?now (Milliseconds (ps_ttl p))
      (ps_capacity p) ?ms) s = (Inr (fence_reply res), s1)" "clock s1 = T" "pool_at (db s1) (ps_key p) z'"
    using redis_server.Run_sem_acquire [OF server pool T(1) pa] by auto
  note i = Int64_fence_reply [OF run(1)]
  have z': "z' = fold ?add ?ms ?z1" and res: "res = Some (int (length ?z1) + n)"
    using pa own room n ms(2) by (simp_all add: pool_acquire_def Let_def)
  have s': "PermitSet_TryAcquire R env n p s = (None, p\<lparr>ps_tokens := ?ms, ps_acquired := True,
      ps_expiresAt := Some (requestExpiry (acq_started env) (ps_ttl p))\<rparr>, s1)"
    using i n res in_time by (simp add: PermitSet_TryAcquire_def net Let_def)
  obtain s2 where "Run R (Reply [] T') (sem_release R (ps_key p) ?ms) s1 = (Inr (SInt (owned_of z' ?ms)), s2)"
      "pool_at (db s2) (ps_key p) (pool_release ?ms z')"
    using redis_server.Run_sem_release [OF server run(3) _ distinct_permit_tokens [of "ps_id p" n], of T'] run(2) T(2)
    by auto
  then show ?thesis
    using s' ms release_added [OF z(2) fresh'] by (simp add: PermitSet_Release_def z' owned_added)
qed

text \<open>
  Renewal is all or nothing. If every permit is present and unexpired by the renewing
  client's clock they all get the new expiry, and the call succeeds if its reply is read in
  time; if one is missing or expired the call reports \<^verbatim>\<open>ErrLost\<close> and changes no permit.
\<close>

theorem permit_renew_all_or_nothing:
  assumes server: "redis_server R clock db" and pool: "pool_at (db s) (ps_key p) z"
    and T: "clock s \<le> T" and net: "ren_net env = Reply [] T" and tokens: "ps_tokens p \<noteq> []"
  shows "if \<forall>m \<in> set (ps_tokens p). (case map_of z m of Some e \<Rightarrow> UnixMilli (ren_started env) < e | None \<Rightarrow> False)
    then \<exists>s' z'. pool_at (db s') (ps_key p) z' \<and>
      PermitSet_Renew R env p s =
        (case confirm_renewal (ps_expiresAt p) (requestExpiry (ren_started env) (ps_ttl p))
           (ren_replied env) (ren_checked env) of
           None \<Rightarrow> (Some ErrLost, p, s') | Some x \<Rightarrow> (None, p\<lparr>ps_expiresAt := x\<rparr>, s')) \<and>
      (\<forall>m. map_of z' m = (if m \<in> set (ps_tokens p)
         then Some (UnixMilli (ren_started env) + Milliseconds (ps_ttl p)) else map_of z m))
    else \<exists>s'. PermitSet_Renew R env p s = (Some ErrLost, p, s') \<and> pool_at (db s') (ps_key p) z"
proof -
  let ?now = "UnixMilli (ren_started env)" and ?ms = "ps_tokens p"
  obtain ok z' where pr: "pool_renew ?now (Milliseconds (ps_ttl p)) ?ms z = (ok, z')" by fastforce
  obtain s' where run: "Run R (Reply [] T) (sem_renew R (ps_key p) ?now (Milliseconds (ps_ttl p)) ?ms) s =
      (Inr (bool_reply ok), s')" "pool_at (db s') (ps_key p) z'"
    using redis_server.Run_sem_renew [OF server pool T pr] by auto
  note i = Int64_bool_reply [OF run(1)]
  show ?thesis
  proof (cases ok)
    case True
    then have "\<forall>m \<in> set ?ms. (case map_of z m of Some e \<Rightarrow> ?now < e | None \<Rightarrow> False)"
      and "z' = fold (\<lambda>m. zadd m (?now + Milliseconds (ps_ttl p))) ?ms z"
      using pr by (simp_all add: pool_renew_def split: if_splits)
    moreover have "PermitSet_Renew R env p s =
        (case confirm_renewal (ps_expiresAt p) (requestExpiry (ren_started env) (ps_ttl p))
           (ren_replied env) (ren_checked env) of
           None \<Rightarrow> (Some ErrLost, p, s') | Some x \<Rightarrow> (None, p\<lparr>ps_expiresAt := x\<rparr>, s'))"
      using True i tokens by (simp add: PermitSet_Renew_def net Let_def)
    ultimately show ?thesis using run(2) by (intro if_P [THEN iffD2] exI [of _ s'] exI [of _ z']) (simp_all add: map_of_fold_zadd)
  next
    case False
    then have "\<not> (\<forall>m \<in> set ?ms. (case map_of z m of Some e \<Rightarrow> ?now < e | None \<Rightarrow> False))" "z' = z"
      using pr by (simp_all add: pool_renew_def split: if_splits)
    moreover have "PermitSet_Renew R env p s = (Some ErrLost, p, s')"
      using False i tokens by (simp add: PermitSet_Renew_def net Let_def)
    ultimately show ?thesis using run(2) by (simp only: if_False) blast
  qed
qed


text \<open>Witnesses: a pool with one expired and one live permit, and a lease for two more.\<close>

definition wit_pool :: mem where
  "wit_pool = \<lparr>mclock = 0, mdata = [''z'' \<mapsto> (VZset [(''old#0'', 40), (''b#0'', 9000)], None)]\<rparr>"

definition wit_permits :: permit_set where
  "wit_permits = NewPermitSet ''a'' ''z'' (10 * Second) 3"

definition wit_permit_env :: acq_env where
  "wit_permit_env = \<lparr>acq_started = 50 * Millisecond, acq_net = Reply [] 60, acq_replied = 70 * Millisecond,
     acq_late_net = Fail [] Canceled\<rparr>"

lemma wit_pool_at: "pool_at (mem_db wit_pool) ''z'' [(''old#0'', 40), (''b#0'', 9000)]" "mclock wit_pool = 0"
  by (simp_all add: pool_at_def kv_defs wit_pool_def mem_db_def zwf_def zless_def)

lemma wit_permit_simps:
  "ps_key wit_permits = ''z''" "ps_id wit_permits = ''a''" "ps_capacity wit_permits = 3"
  "ps_ttl wit_permits = 10 * Second" "Milliseconds 10000000000 = 10000" "UnixMilli 50000000 = 50"
  "permit_tokens ''a'' 2 = [''a#0'', ''a#1'']"
  by (simp_all add: wit_permits_def NewPermitSet_def Milliseconds_def UnixMilli_def permit_tokens_def
      upt_rec Itoa.simps)

lemma wit_pool_acquire:
  "pool_acquire 50 10000 3 [''a#0'', ''a#1''] [(''old#0'', 40), (''b#0'', 9000)] =
     (Some 3, [(''b#0'', 9000), (''a#0'', 10050), (''a#1'', 10050)])"
  by code_simp

theorem permit_acquire_outcome_witness:
  "\<exists>s'. PermitSet_TryAcquire mem_redis wit_permit_env 2 wit_permits wit_pool =
      (None, wit_permits\<lparr>ps_tokens := [''a#0'', ''a#1''], ps_acquired := True,
         ps_expiresAt := Some 9949000000\<rparr>, s') \<and>
    pool_at (mem_db s') ''z'' [(''b#0'', 9000), (''a#0'', 10050), (''a#1'', 10050)]"
    using permit_acquire_outcome [OF mem_server, of wit_pool wit_permits "[(''old#0'', 40), (''b#0'', 9000)]" 60 wit_permit_env 2]
    wit_pool_at wit_pool_acquire
  by (simp add: wit_permit_simps wit_permit_env_def requestExpiry_def)

theorem permit_roundtrip_witness:
  "\<exists>p' s' s''. PermitSet_TryAcquire mem_redis wit_permit_env 2 wit_permits wit_pool = (None, p', s') \<and>
    length (ps_tokens p') = 2 \<and>
    PermitSet_Release mem_redis (Reply [] 80) p' s' = (None, wit_permits, s'') \<and>
    pool_at (mem_db s'') ''z'' [(''b#0'', 9000)]"
proof -
  have "reclaim 50 [(''old#0'', 40), (''b#0'', 9000)] = [(''b#0'', 9000)]" by (simp add: reclaim_def)
  then show ?thesis
    using permit_roundtrip [OF mem_server, of wit_pool wit_permits "[(''old#0'', 40), (''b#0'', 9000)]" 60 80
        wit_permit_env 2] wit_pool_at
    by (simp add: wit_permit_simps wit_permit_env_def requestExpiry_def)
      (simp add: wit_permits_def NewPermitSet_def)
qed

definition wit_renew_env :: renew_env where
  "wit_renew_env = \<lparr>ren_started = 50 * Millisecond, ren_net = Reply [] 60, ren_replied = 70 * Millisecond,
     ren_checked = 70 * Millisecond\<rparr>"

theorem permit_renew_all_or_nothing_witness:
  "\<exists>s'. PermitSet_Renew mem_redis wit_renew_env (wit_permits\<lparr>ps_tokens := [''b#0'', ''old#0'']\<rparr>) wit_pool =
      (Some ErrLost, wit_permits\<lparr>ps_tokens := [''b#0'', ''old#0'']\<rparr>, s') \<and>
    pool_at (mem_db s') ''z'' [(''old#0'', 40), (''b#0'', 9000)]"
  using permit_renew_all_or_nothing [OF mem_server, of wit_pool "wit_permits\<lparr>ps_tokens := [''b#0'', ''old#0'']\<rparr>"
      "[(''old#0'', 40), (''b#0'', 9000)]" 60 wit_renew_env] wit_pool_at
  by (simp add: wit_permit_simps wit_renew_env_def)

end
