(* ===== verification/Capacity.thy ===== *)
theory Capacity
  imports Permit Exclusion
begin

text \<open>
  Any number of clients, each with a \<^verbatim>\<open>PermitSet\<close> of its own, contend for the permits of one
  semaphore. As in the system of the exclusive lock, a call is split where other clients can
  run. Permits expire by the clock of whoever runs a script, so the clocks of the clients must
  agree up to a bound \<open>D\<close>; one percent of the shortest lease is enough.
\<close>

section \<open>The system\<close>

text \<open>\<open>want\<close> is the number of permits the client asks for.\<close>

record sem_client =
  pls :: permit_set
  want :: int
  pph :: phase

record 's sem_system =
  psrv :: 's
  pnow :: instant
  pcl :: "nat \<Rightarrow> sem_client"

definition pupd :: "nat \<Rightarrow> sem_client \<Rightarrow> 's sem_system \<Rightarrow> 's sem_system" where
  "pupd i c S = S\<lparr>pcl := (pcl S)(i := c)\<rparr>"

definition toks :: "sem_client \<Rightarrow> string list" where
  "toks c = permit_tokens (ps_id (pls c)) (want c)"

inductive sem_step ::
  "'s redis \<Rightarrow> (nat \<Rightarrow> instant \<Rightarrow> instant) \<Rightarrow> 's sem_system \<Rightarrow> 's sem_system \<Rightarrow> bool"
  for R :: "'s redis" and cl :: "nat \<Rightarrow> instant \<Rightarrow> instant"
where
  tick: "pnow S \<le> t \<Longrightarrow> sem_step R cl S (S\<lparr>pnow := t, psrv := elapse R (UnixMilli t) (psrv S)\<rparr>)"
| ask: "c = pcl S i \<Longrightarrow> pph c = Fresh \<Longrightarrow>
    sem_step R cl S (pupd i (c\<lparr>pph := Asking (cl i (pnow S))\<rparr>) S)"
| acquire: "c = pcl S i \<Longrightarrow> pph c = Asking t0 \<or> pph c = Answered t0 r0 \<Longrightarrow>
    sem_acquire R (ps_key (pls c)) (UnixMilli t0) (Milliseconds (ps_ttl (pls c)))
      (ps_capacity (pls c)) (toks c) (psrv S) = (Inr r, s') \<Longrightarrow>
    sem_step R cl S (pupd i (c\<lparr>pph := Answered t0 r\<rparr>) (S\<lparr>psrv := s'\<rparr>))"
| granted: "c = pcl S i \<Longrightarrow> pph c = Answered t0 (SInt n) \<Longrightarrow>
    deadline = requestExpiry t0 (ps_ttl (pls c)) \<Longrightarrow> cl i (pnow S) < deadline \<Longrightarrow>
    sem_step R cl S (pupd i (c\<lparr>pls := (pls c)\<lparr>ps_tokens := toks c, ps_acquired := True,
      ps_expiresAt := Some deadline\<rparr>, pph := Holding\<rparr>) S)"
| busy: "c = pcl S i \<Longrightarrow> pph c = Answered t0 SNil \<Longrightarrow> sem_step R cl S (pupd i (c\<lparr>pph := Fresh\<rparr>) S)"
| late: "c = pcl S i \<Longrightarrow> pph c = Answered t0 (SInt n) \<Longrightarrow>
    \<not> cl i (pnow S) < requestExpiry t0 (ps_ttl (pls c)) \<Longrightarrow>
    sem_step R cl S (pupd i (c\<lparr>pls := (pls c)\<lparr>ps_tokens := toks c\<rparr>, pph := Releasing\<rparr>) S)"
| ask_renew: "c = pcl S i \<Longrightarrow> pph c = Holding \<Longrightarrow>
    sem_step R cl S (pupd i (c\<lparr>pph := Renewing (cl i (pnow S))\<rparr>) S)"
| renew: "c = pcl S i \<Longrightarrow> pph c = Renewing t0 \<or> pph c = RenewAnswered t0 r0 \<Longrightarrow>
    sem_renew R (ps_key (pls c)) (UnixMilli t0) (Milliseconds (ps_ttl (pls c)))
      (ps_tokens (pls c)) (psrv S) = (Inr r, s') \<Longrightarrow>
    sem_step R cl S (pupd i (c\<lparr>pph := RenewAnswered t0 r\<rparr>) (S\<lparr>psrv := s'\<rparr>))"
| renewed: "c = pcl S i \<Longrightarrow> pph c = RenewAnswered t0 (SInt 1) \<Longrightarrow> t1 \<le> pnow S \<Longrightarrow>
    confirm_renewal (ps_expiresAt (pls c)) (requestExpiry t0 (ps_ttl (pls c)))
      (cl i t1) (cl i (pnow S)) = Some x \<Longrightarrow>
    sem_step R cl S (pupd i (c\<lparr>pls := (pls c)\<lparr>ps_expiresAt := x\<rparr>, pph := Holding\<rparr>) S)"
| renew_error: "c = pcl S i \<Longrightarrow> pph c = Renewing t0 \<or> pph c = RenewAnswered t0 r \<Longrightarrow>
    sem_step R cl S (pupd i (c\<lparr>pph := Holding\<rparr>) S)"
| ask_release: "c = pcl S i \<Longrightarrow> pph c = Holding \<Longrightarrow> sem_step R cl S (pupd i (c\<lparr>pph := Releasing\<rparr>) S)"
| release: "c = pcl S i \<Longrightarrow> pph c = Releasing \<Longrightarrow>
    sem_release R (ps_key (pls c)) (ps_tokens (pls c)) (psrv S) = (Inr r, s') \<Longrightarrow>
    sem_step R cl S (S\<lparr>psrv := s'\<rparr>)"
| abandon: "c = pcl S i \<Longrightarrow> sem_step R cl S (pupd i (c\<lparr>pph := Gone\<rparr>) S)"

text \<open>
  Every client is configured alike but for its token, its time to live and its demand. The
  tokens have no \<^verbatim>\<open>#\<close>, as \<^verbatim>\<open>Token\<close> makes them. Clocks run forward and differ by at most \<open>D\<close>.
\<close>

definition configured :: "string \<Rightarrow> int \<Rightarrow> duration \<Rightarrow> sem_client \<Rightarrow> bool" where
  "configured key capacity D c = (ps_key (pls c) = key \<and> ps_capacity (pls c) = capacity \<and>
     CHR ''#'' \<notin> set (ps_id (pls c)) \<and> 0 < want c \<and> 0 < ps_ttl (pls c) \<and> ps_ttl (pls c) < 2 ^ 63 \<and>
     ps_ttl (pls c) mod Millisecond = 0 \<and> D \<le> ps_ttl (pls c) div 100)"

definition clocks_agree :: "duration \<Rightarrow> (nat \<Rightarrow> instant \<Rightarrow> instant) \<Rightarrow> bool" where
  "clocks_agree D cl = ((\<forall>i. mono (cl i)) \<and> (\<forall>i j t. cl i t \<le> cl j t + D))"

definition pool_wf :: "keyspace \<Rightarrow> string \<Rightarrow> int \<Rightarrow> bool" where
  "pool_wf d key capacity = (is_zset d key \<and> ttlv d key = None \<and> int (length (zsetv d key)) \<le> capacity)"

definition sem_start ::
  "('s \<Rightarrow> int) \<Rightarrow> ('s \<Rightarrow> keyspace) \<Rightarrow> string \<Rightarrow> int \<Rightarrow> duration \<Rightarrow> 's sem_system \<Rightarrow> bool" where
  "sem_start clock db key capacity D S = (pool_wf (db (psrv S)) key capacity \<and>
     clock (psrv S) \<le> UnixMilli (pnow S) \<and>
     (\<forall>i. configured key capacity D (pcl S i) \<and> pph (pcl S i) = Fresh \<and>
        (\<forall>m \<in> set (toks (pcl S i)). map_of (zsetv (db (psrv S)) key) m = None)) \<and>
     inj (\<lambda>i. ps_id (pls (pcl S i))))"

inductive sem_reachable ::
  "'s redis \<Rightarrow> ('s \<Rightarrow> int) \<Rightarrow> ('s \<Rightarrow> keyspace) \<Rightarrow> (nat \<Rightarrow> instant \<Rightarrow> instant) \<Rightarrow>
   string \<Rightarrow> int \<Rightarrow> duration \<Rightarrow> 's sem_system \<Rightarrow> bool"
  for R :: "'s redis" and clock :: "'s \<Rightarrow> int" and db :: "'s \<Rightarrow> keyspace"
    and cl :: "nat \<Rightarrow> instant \<Rightarrow> instant" and key :: string and capacity D :: int
where
  initially: "sem_start clock db key capacity D S \<Longrightarrow> sem_reachable R clock db cl key capacity D S"
| later: "sem_reachable R clock db cl key capacity D S \<Longrightarrow> sem_step R cl S S' \<Longrightarrow>
    sem_reachable R clock db cl key capacity D S'"

text \<open>A client counts on its permits while its deadline is ahead of its clock and it has not begun to release.\<close>

definition counts_on :: "(nat \<Rightarrow> instant \<Rightarrow> instant) \<Rightarrow> 's sem_system \<Rightarrow> nat \<Rightarrow> bool" where
  "counts_on cl S i = (After (ps_expiresAt (pls (pcl S i))) (cl i (pnow S)) \<and>
     (case pph (pcl S i) of Holding \<Rightarrow> True | Renewing _ \<Rightarrow> True | RenewAnswered _ _ \<Rightarrow> True | _ \<Rightarrow> False))"

section \<open>The invariant\<close>

text \<open>
  The permits of a client share one expiry \<open>x\<close>. A deadline is backed when, as long as it is
  ahead, the permits expire no earlier than \<open>D\<close> after it.
\<close>

definition shared :: "zset \<Rightarrow> string list \<Rightarrow> int option \<Rightarrow> bool" where
  "shared z ms x = (\<forall>m \<in> set ms. map_of z m = x)"

definition ahead :: "duration \<Rightarrow> instant \<Rightarrow> int \<Rightarrow> bool" where
  "ahead D d e = (d + D \<le> e * Millisecond)"

definition pbacked :: "duration \<Rightarrow> instant \<Rightarrow> int option \<Rightarrow> instant \<Rightarrow> bool" where
  "pbacked D n x d = (n < d \<longrightarrow> (\<exists>e. x = Some e \<and> ahead D d e))"

definition sem_phase :: "duration \<Rightarrow> (instant \<Rightarrow> instant) \<Rightarrow> instant \<Rightarrow> int option \<Rightarrow> sem_client \<Rightarrow> bool" where
  "sem_phase D clk n x c =
     (let dl = (\<lambda>t0. requestExpiry t0 (ps_ttl (pls c)));
          asked = (\<lambda>t0. read_at clk n t0 \<and> (\<forall>e. x = Some e \<longrightarrow> ahead D (dl t0) e));
          hold = (\<lambda>t. ps_tokens (pls c) = toks c \<and>
            (\<exists>d. ps_expiresAt (pls c) = Some d \<and> d \<le> dl t \<and> pbacked D (clk n) x d)) in
      case pph c of
        Fresh \<Rightarrow> x = None
      | Asking t0 \<Rightarrow> asked t0
      | Answered t0 r \<Rightarrow> asked t0 \<and> (\<forall>m. r = SInt m \<longrightarrow> pbacked D (clk n) x (dl t0)) \<and> (r = SNil \<longrightarrow> x = None)
      | Holding \<Rightarrow> hold (clk n)
      | Renewing t0 \<Rightarrow> read_at clk n t0 \<and> hold t0
      | RenewAnswered t0 r \<Rightarrow> read_at clk n t0 \<and> hold t0 \<and> (r = SInt 1 \<longrightarrow> pbacked D (clk n) x (dl t0))
      | Releasing \<Rightarrow> ps_tokens (pls c) = toks c
      | Gone \<Rightarrow> True)"

text \<open>The expiry of another client's permits after a script reclaimed what it saw as expired.\<close>

definition reclaimed :: "duration \<Rightarrow> instant \<Rightarrow> int option \<Rightarrow> int option \<Rightarrow> bool" where
  "reclaimed D n x x' = (x' = x \<or> (\<exists>e. x = Some e \<and> x' = None \<and> e * Millisecond \<le> n + D))"

definition sem_inv ::
  "('s \<Rightarrow> int) \<Rightarrow> ('s \<Rightarrow> keyspace) \<Rightarrow> (nat \<Rightarrow> instant \<Rightarrow> instant) \<Rightarrow> string \<Rightarrow> int \<Rightarrow> duration \<Rightarrow>
   's sem_system \<Rightarrow> bool" where
  "sem_inv clock db cl key capacity D S =
     (pool_wf (db (psrv S)) key capacity \<and> clock (psrv S) \<le> UnixMilli (pnow S) \<and>
      (\<forall>i. configured key capacity D (pcl S i) \<and>
         (\<exists>x. shared (zsetv (db (psrv S)) key) (toks (pcl S i)) x \<and> sem_phase D (cl i) (pnow S) x (pcl S i))) \<and>
      inj (\<lambda>i. ps_id (pls (pcl S i))))"

lemma sem_phase_reclaimed:
  assumes "sem_phase D clk n x c" and "reclaimed D (clk n) x x'"
  shows "sem_phase D clk n x' c"
proof -
  have b: "pbacked D (clk n) x d \<Longrightarrow> pbacked D (clk n) x' d" for d
    using assms(2) by (auto simp: pbacked_def reclaimed_def ahead_def)
  have x: "x' = x \<or> x' = None" using assms(2) by (auto simp: reclaimed_def)
  show ?thesis
    using assms(1) b x unfolding sem_phase_def Let_def by (cases "pph c") auto
qed

lemma requestExpiry_mono: "t \<le> t' \<Longrightarrow> requestExpiry t ttl \<le> requestExpiry t' ttl"
  by (simp add: requestExpiry_def)

lemma sem_phase_later:
  assumes "sem_phase D clk n x c" and "n \<le> m" and "mono clk"
  shows "sem_phase D clk m x c"
proof -
  have c: "clk n \<le> clk m" using assms(2,3) by (simp add: monoD)
  then have b: "pbacked D (clk n) x d \<Longrightarrow> pbacked D (clk m) x d" for d
    by (auto simp: pbacked_def)
  have r: "read_at clk n t0 \<Longrightarrow> read_at clk m t0" for t0
    unfolding read_at_def using assms(2) order.trans by blast
  have h: "d \<le> requestExpiry (clk n) ttl \<Longrightarrow> d \<le> requestExpiry (clk m) ttl" for d ttl
    using requestExpiry_mono [OF c] order.trans by blast
  show ?thesis
    using assms(1) b r h unfolding sem_phase_def Let_def by (cases "pph c") auto
qed

lemma ahead_new:
  assumes "configured key capacity D c"
  shows "ahead D (requestExpiry t0 (ps_ttl (pls c))) (UnixMilli t0 + Milliseconds (ps_ttl (pls c)))"
proof -
  have "Milliseconds (ps_ttl (pls c)) * Millisecond = ps_ttl (pls c)"
    using assms div_mult_mod_eq [of "ps_ttl (pls c)" Millisecond]
    by (simp add: configured_def Milliseconds_nonneg)
  moreover have "t0 - Millisecond < UnixMilli t0 * Millisecond"
    unfolding UnixMilli_def using mult_div_bounds [of Millisecond t0] by (simp add: mult.commute)
  ultimately show ?thesis
    using assms by (simp add: ahead_def configured_def requestExpiry_eq distrib_right)
qed

lemma ahead_le: "d \<le> d' \<Longrightarrow> ahead D d' e \<Longrightarrow> ahead D d e"
  by (simp add: ahead_def)

text \<open>The scripts on the permits of another client.\<close>

lemma shared_map: "(\<And>m. m \<in> set ms \<Longrightarrow> map_of z' m = f (map_of z m)) \<Longrightarrow> shared z ms x \<Longrightarrow> shared z' ms (f x)"
  by (simp add: shared_def)

lemma other_acquire:
  assumes "zwf z" "shared z ms' x" "set ms \<inter> set ms' = {}" and T: "T * Millisecond \<le> n + D"
  shows "\<exists>x'. shared (snd (pool_acquire T ttl capacity ms z)) ms' x' \<and> reclaimed D n x x'"
proof -
  let ?f = "\<lambda>x. case x of Some e \<Rightarrow> if T < e then Some e else None | None \<Rightarrow> None"
  have "shared (snd (pool_acquire T ttl capacity ms z)) ms' (?f x)"
    using assms(1,3) by (intro shared_map [OF _ assms(2)])
      (auto simp: pool_acquire_def Let_def map_of_fold_zadd map_of_reclaim)
  moreover have "reclaimed D n x (?f x)"
    using T by (auto simp: reclaimed_def split: option.splits)
  ultimately show ?thesis by blast
qed

lemma other_renew:
  "shared z ms' x \<Longrightarrow> set ms \<inter> set ms' = {} \<Longrightarrow> shared (snd (pool_renew T ttl ms z)) ms' x"
  by (auto simp: shared_def pool_renew_def map_of_fold_zadd)

lemma other_release:
  "shared z ms' x \<Longrightarrow> set ms \<inter> set ms' = {} \<Longrightarrow> shared (pool_release ms z) ms' x"
  by (auto simp: shared_def pool_release_def map_of_fold_zrem)

lemma before_hash: "CHR ''#'' \<notin> set t \<Longrightarrow> takeWhile (\<lambda>c. c \<noteq> CHR ''#'') (t @ CHR ''#'' # u) = t"
  by (induction t) auto

lemma toks_disjoint:
  assumes "ps_id (pls c) \<noteq> ps_id (pls c')" "CHR ''#'' \<notin> set (ps_id (pls c))" "CHR ''#'' \<notin> set (ps_id (pls c'))"
  shows "set (toks c) \<inter> set (toks c') = {}"
proof -
  have "ps_id (pls c) = ps_id (pls c')" if "m \<in> set (toks c)" "m \<in> set (toks c')" for m
    using that before_hash [OF assms(2)] before_hash [OF assms(3)]
    by (auto simp: toks_def permit_tokens_def) metis
  then show ?thesis using assms(1) by blast
qed

lemma toks_not_Nil: "configured key capacity D c \<Longrightarrow> toks c \<noteq> []"
  by (auto simp: toks_def permit_tokens_def configured_def)

text \<open>The scripts on the client's own permits.\<close>

lemma owned_of_shared: "shared z ms x \<Longrightarrow> owned_of z ms = (if x = None then 0 else int (length ms))"
proof -
  assume s: "shared z ms x"
  then have "filter (\<lambda>m. map_of z m \<noteq> None) ms = (if x = None then [] else ms)"
    by (auto simp: shared_def filter_empty_conv intro: filter_True)
  then show ?thesis by (simp add: owned_of_def)
qed

lemma own_acquire:
  assumes z: "zwf z" and s: "shared z (toks c) x" and ph: "sem_phase D clk n x c"
    and c: "configured key capacity D c" "pph c = Asking t0 \<or> pph c = Answered t0 r0"
    and out: "pool_acquire (UnixMilli t0) (Milliseconds (ps_ttl (pls c))) cap (toks c) z = (res, z')"
  shows "\<exists>x'. shared z' (toks c) x' \<and> sem_phase D clk n x' (c\<lparr>pph := Answered t0 (fence_reply res)\<rparr>)"
proof -
  let ?T = "UnixMilli t0" and ?ms = "toks c" and ?dl = "requestExpiry t0 (ps_ttl (pls c))"
  let ?x1 = "case x of Some e \<Rightarrow> if ?T < e then Some e else None | None \<Rightarrow> None"
  have s1: "shared (reclaim ?T z) ?ms ?x1"
    by (intro shared_map [OF _ s]) (simp add: map_of_reclaim [OF z])
  have asked: "read_at clk n t0" "\<And>e. x = Some e \<Longrightarrow> ahead D ?dl e"
    using ph c(2) by (auto simp: sem_phase_def Let_def)
  have toks: "toks (c\<lparr>pph := p\<rparr>) = toks c" for p by (simp add: toks_def)
  show ?thesis
  proof (cases ?x1)
    case None
    then have o: "owned_of (reclaim ?T z) ?ms \<noteq> int (length ?ms)"
      using owned_of_shared [OF s1] toks_not_Nil [OF c(1)] by simp
    show ?thesis
    proof (cases res)
      case None
      with o out have "z' = reclaim ?T z" by (auto simp: pool_acquire_def Let_def split: if_splits)
      with None s1 \<open>?x1 = None\<close> asked(1) show ?thesis
        by (intro exI [of _ None]) (simp add: sem_phase_def fence_reply_def)
    next
      case (Some k)
      with o out have "z' = fold (\<lambda>m. zadd m (?T + Milliseconds (ps_ttl (pls c)))) ?ms (reclaim ?T z)"
        by (auto simp: pool_acquire_def Let_def split: if_splits)
      with Some ahead_new [OF c(1), of t0] asked(1) show ?thesis
        by (intro exI [of _ "Some (?T + Milliseconds (ps_ttl (pls c)))"])
          (simp add: shared_def map_of_fold_zadd sem_phase_def fence_reply_def pbacked_def)
    qed
  next
    case (Some e)
    then have e: "x = Some e" by (auto split: option.splits if_splits)
    have "z' = reclaim ?T z" "res \<noteq> None"
      using owned_of_shared [OF s1] Some out by (auto simp: pool_acquire_def Let_def)
    with s1 Some asked e show ?thesis
      by (intro exI [of _ "Some e"]) (auto simp: sem_phase_def fence_reply_def pbacked_def)
  qed
qed

lemma own_renew:
  assumes s: "shared z (toks c) x" and ph: "sem_phase D clk n x c"
    and c: "configured key capacity D c" "pph c = Renewing t0 \<or> pph c = RenewAnswered t0 r0"
    and out: "pool_renew (UnixMilli t0) (Milliseconds (ps_ttl (pls c))) (ps_tokens (pls c)) z = (ok, z')"
  shows "\<exists>x'. shared z' (toks c) x' \<and> sem_phase D clk n x' (c\<lparr>pph := RenewAnswered t0 (bool_reply ok)\<rparr>)"
proof -
  let ?e = "UnixMilli t0 + Milliseconds (ps_ttl (pls c))"
  obtain d where d: "read_at clk n t0" "ps_tokens (pls c) = toks c" "ps_expiresAt (pls c) = Some d"
      "d \<le> requestExpiry t0 (ps_ttl (pls c))" "pbacked D (clk n) x d"
    using ph c(2) by (auto simp: sem_phase_def Let_def)
  note new = ahead_new [OF c(1), of t0]
  have toks: "toks (c\<lparr>pph := p\<rparr>) = toks c" for p by (simp add: toks_def)
  show ?thesis
  proof (cases ok)
    case True
    then have "shared z' (toks c) (Some ?e)"
      using out d(2) by (auto simp: shared_def pool_renew_def map_of_fold_zadd split: if_splits)
    moreover have "sem_phase D clk n (Some ?e) (c\<lparr>pph := RenewAnswered t0 (bool_reply ok)\<rparr>)"
      using d new ahead_le [OF d(4) new] by (simp add: sem_phase_def toks pbacked_def)
    ultimately show ?thesis by blast
  next
    case False
    then have "z' = z" using out by (auto simp: pool_renew_def split: if_splits)
    moreover have "sem_phase D clk n x (c\<lparr>pph := RenewAnswered t0 (bool_reply ok)\<rparr>)"
      using d False by (simp add: sem_phase_def toks bool_reply_def)
    ultimately show ?thesis using s by blast
  qed
qed


section \<open>Every step keeps it\<close>

lemma sem_invD:
  assumes "sem_inv clock db cl key capacity D S"
  shows "pool_wf (db (psrv S)) key capacity" "clock (psrv S) \<le> UnixMilli (pnow S)"
    "configured key capacity D (pcl S i)"
    "\<exists>x. shared (zsetv (db (psrv S)) key) (toks (pcl S i)) x \<and> sem_phase D (cl i) (pnow S) x (pcl S i)"
  using assms by (simp_all add: sem_inv_def)

lemma sem_inv_change:
  assumes inv: "sem_inv clock db cl key capacity D S"
    and s': "pool_wf (db s') key capacity" "clock s' \<le> UnixMilli (pnow S)"
    and c': "configured key capacity D c'" "ps_id (pls c') = ps_id (pls (pcl S i))"
      "\<exists>x. shared (zsetv (db s') key) (toks c') x \<and> sem_phase D (cl i) (pnow S) x c'"
    and others: "\<And>j x. j \<noteq> i \<Longrightarrow> shared (zsetv (db (psrv S)) key) (toks (pcl S j)) x \<Longrightarrow>
      \<exists>x'. shared (zsetv (db s') key) (toks (pcl S j)) x' \<and> reclaimed D (cl j (pnow S)) x x'"
  shows "sem_inv clock db cl key capacity D (pupd i c' (S\<lparr>psrv := s'\<rparr>))" (is "sem_inv _ _ _ _ _ _ ?S")
proof -
  have ids: "ps_id (pls (pcl ?S j)) = ps_id (pls (pcl S j))" for j
    using c'(2) by (simp add: pupd_def)
  have "configured key capacity D (pcl ?S j) \<and>
      (\<exists>x. shared (zsetv (db s') key) (toks (pcl ?S j)) x \<and> sem_phase D (cl j) (pnow S) x (pcl ?S j))" for j
  proof (cases "j = i")
    case True
    then show ?thesis using c' by (simp add: pupd_def)
  next
    case False
    obtain x where "shared (zsetv (db (psrv S)) key) (toks (pcl S j)) x" "sem_phase D (cl j) (pnow S) x (pcl S j)"
      using sem_invD(4) [OF inv] by blast
    then show ?thesis
      using others [OF False] sem_phase_reclaimed sem_invD(3) [OF inv] False
      by (simp add: pupd_def) blast
  qed
  moreover have "inj (\<lambda>j. ps_id (pls (pcl ?S j)))"
    using inv unfolding ids by (simp add: sem_inv_def)
  ultimately show ?thesis
    using s' by (simp add: sem_inv_def) (simp add: pupd_def)
qed

lemma sem_inv_local:
  assumes inv: "sem_inv clock db cl key capacity D S"
    and c: "c = pcl S i" and c': "configured key capacity D c \<Longrightarrow> configured key capacity D c'"
      "ps_id (pls c') = ps_id (pls c)" "want c' = want c"
    and ph: "\<And>x. sem_phase D (cl i) (pnow S) x c \<Longrightarrow> sem_phase D (cl i) (pnow S) x c'"
  shows "sem_inv clock db cl key capacity D (pupd i c' S)"
proof -
  have "toks c' = toks c" using c' by (simp add: toks_def)
  then have "\<exists>x. shared (zsetv (db (psrv S)) key) (toks c') x \<and> sem_phase D (cl i) (pnow S) x c'"
    using sem_invD(4) [OF inv, of i] ph c by auto
  moreover have "reclaimed D n x x" for n x by (simp add: reclaimed_def)
  moreover have "S = S\<lparr>psrv := psrv S\<rparr>" by simp
  ultimately show ?thesis
    using sem_inv_change [OF inv, of "psrv S" c' i] c c' sem_invD(1,2) [OF inv] sem_invD(3) [OF inv, of i] by metis
qed

lemma others_disjoint:
  assumes "sem_inv clock db cl key capacity D S" "j \<noteq> i"
  shows "set (toks (pcl S i)) \<inter> set (toks (pcl S j)) = {}"
proof -
  have "ps_id (pls (pcl S i)) \<noteq> ps_id (pls (pcl S j))"
    using assms by (auto simp: sem_inv_def dest: injD)
  moreover have "CHR ''#'' \<notin> set (ps_id (pls (pcl S j)))" for j
    using sem_invD(3) [OF assms(1)] by (simp add: configured_def)
  ultimately show ?thesis by (intro toks_disjoint)
qed

lemma pool_wf_only:
  "pool_wf d key capacity \<Longrightarrow> only_zset d d' key z \<Longrightarrow> int (length z) \<le> capacity \<Longrightarrow> pool_wf d' key capacity"
  by (simp add: pool_wf_def only_zset_def)

context redis_server
begin

lemma sem_tick_inv:
  assumes inv: "sem_inv clock db cl key capacity D S" and cl: "clocks_agree D cl" and t: "pnow S \<le> t"
  shows "sem_inv clock db cl key capacity D (S\<lparr>pnow := t, psrv := elapse R (UnixMilli t) (psrv S)\<rparr>)"
proof -
  have c: "clock (psrv S) \<le> UnixMilli t"
    using sem_invD(2) [OF inv] UnixMilli_mono [OF t] by simp
  have k: "db (elapse R (UnixMilli t) (psrv S)) key = db (psrv S) key"
    using elapse_without_ttl [OF c] sem_invD(1) [OF inv] by (simp add: pool_wf_def)
  then have z: "zsetv (db (elapse R (UnixMilli t) (psrv S))) key = zsetv (db (psrv S)) key"
    by (simp add: zsetv_def)
  have "pool_wf (db (elapse R (UnixMilli t) (psrv S))) key capacity"
    using sem_invD(1) [OF inv] k by (simp add: pool_wf_def z) (simp add: is_zset_def ttlv_def)
  moreover have "sem_phase D (cl i) (pnow S) x c' \<Longrightarrow> sem_phase D (cl i) t x c'" for i x c'
    using cl sem_phase_later [OF _ t] by (simp add: clocks_agree_def)
  ultimately show ?thesis
    using inv clock_elapse [OF c] by (simp add: sem_inv_def z) blast
qed

lemma sem_acquire_inv:
  assumes inv: "sem_inv clock db cl key capacity D S" and cl: "clocks_agree D cl"
    and c: "c = pcl S i" "pph c = Asking t0 \<or> pph c = Answered t0 r0"
    and out: "sem_acquire R (ps_key (pls c)) (UnixMilli t0) (Milliseconds (ps_ttl (pls c)))
      (ps_capacity (pls c)) (toks c) (psrv S) = (Inr r, s')"
  shows "sem_inv clock db cl key capacity D (pupd i (c\<lparr>pph := Answered t0 r\<rparr>) (S\<lparr>psrv := s'\<rparr>))"
proof -
  let ?z = "zsetv (db (psrv S)) key"
  note I = sem_invD(1,2) [OF inv] sem_invD(3,4) [OF inv, of i, folded c(1)]
  have key: "ps_key (pls c) = key" "ps_capacity (pls c) = capacity" using I(3) by (auto simp: configured_def)
  obtain res z' where pa: "pool_acquire (UnixMilli t0) (Milliseconds (ps_ttl (pls c))) capacity (toks c) ?z
      = (res, z')" by fastforce
  have ref: "r = fence_reply res" "clock s' = clock (psrv S)" "only_zset (db (psrv S)) (db s') key z'"
    using sem_acquire_refines [of "psrv S" key "UnixMilli t0" "Milliseconds (ps_ttl (pls c))" capacity "toks c"] I(1) out pa by (auto simp: key pool_wf_def)
  then have z': "zsetv (db s') key = z'" by (simp add: only_zset_def)
  obtain x where x: "shared ?z (toks c) x" "sem_phase D (cl i) (pnow S) x c" using I(4) by blast
  have t0: "\<exists>u \<le> pnow S. t0 = cl i u"
    using x(2) c(2) by (auto simp: sem_phase_def Let_def read_at_def)
  have T: "UnixMilli t0 * Millisecond \<le> cl j (pnow S) + D" for j
  proof -
    have "UnixMilli t0 * Millisecond \<le> t0"
      unfolding UnixMilli_def using mult_div_bounds [of Millisecond t0] by (simp add: mult.commute)
    also have "t0 \<le> cl i (pnow S)" using t0 cl by (auto simp: clocks_agree_def dest: monoD)
    also have "\<dots> \<le> cl j (pnow S) + D" using cl by (simp add: clocks_agree_def)
    finally show ?thesis .
  qed
  have "pool_wf (db s') key capacity"
    using pool_acquire_capacity [OF zwf_zsetv_db [of "psrv S" key], of capacity "UnixMilli t0" "Milliseconds (ps_ttl (pls c))" "toks c"] I(1) pa
    by (intro pool_wf_only [OF I(1) ref(3)]) (simp add: pool_wf_def)
  moreover have "toks (c\<lparr>pph := p\<rparr>) = toks c" for p by (simp add: toks_def)
  moreover have "\<exists>x'. shared z' (toks (pcl S j)) x' \<and> reclaimed D (cl j (pnow S)) x x'"
    if "j \<noteq> i" "shared ?z (toks (pcl S j)) x" for j x
    using other_acquire [OF zwf_zsetv_db that(2) others_disjoint [OF inv that(1)] T [of j],
        of "Milliseconds (ps_ttl (pls c))" capacity] pa c(1) by simp
  ultimately show ?thesis
    using own_acquire [OF zwf_zsetv_db x I(3) c(2) pa] I(2,3) c(1) ref(1,2)
    by (intro sem_inv_change [OF inv]) (simp_all add: z' configured_def)
qed

lemma sem_renew_inv:
  assumes inv: "sem_inv clock db cl key capacity D S"
    and c: "c = pcl S i" "pph c = Renewing t0 \<or> pph c = RenewAnswered t0 r0"
    and out: "sem_renew R (ps_key (pls c)) (UnixMilli t0) (Milliseconds (ps_ttl (pls c)))
      (ps_tokens (pls c)) (psrv S) = (Inr r, s')"
  shows "sem_inv clock db cl key capacity D (pupd i (c\<lparr>pph := RenewAnswered t0 r\<rparr>) (S\<lparr>psrv := s'\<rparr>))"
proof -
  let ?z = "zsetv (db (psrv S)) key"
  note I = sem_invD(1,2) [OF inv] sem_invD(3,4) [OF inv, of i, folded c(1)]
  have key: "ps_key (pls c) = key" using I(3) by (auto simp: configured_def)
  obtain res z' where pa: "pool_renew (UnixMilli t0) (Milliseconds (ps_ttl (pls c))) (ps_tokens (pls c)) ?z
      = (res, z')" by fastforce
  have ref: "r = bool_reply res" "clock s' = clock (psrv S)" "only_zset (db (psrv S)) (db s') key z'"
    using sem_renew_refines [of "psrv S" key "UnixMilli t0" "Milliseconds (ps_ttl (pls c))" "ps_tokens (pls c)"] I(1) out pa by (auto simp: key pool_wf_def)
  then have z': "zsetv (db s') key = z'" by (simp add: only_zset_def)
  obtain x where x: "shared ?z (toks c) x" "sem_phase D (cl i) (pnow S) x c" using I(4) by blast
  have t: "ps_tokens (pls c) = toks c" using x(2) c(2) by (auto simp: sem_phase_def Let_def)
  have "pool_wf (db s') key capacity"
    using pool_renew_length [OF zwf_zsetv_db [of "psrv S" key], of "UnixMilli t0" "Milliseconds (ps_ttl (pls c))" "ps_tokens (pls c)"] I(1) pa
    by (intro pool_wf_only [OF I(1) ref(3)]) (simp add: pool_wf_def)
  moreover have "toks (c\<lparr>pph := p\<rparr>) = toks c" for p by (simp add: toks_def)
  moreover have "\<exists>x'. shared z' (toks (pcl S j)) x' \<and> reclaimed D (cl j (pnow S)) x x'"
    if "j \<noteq> i" "shared ?z (toks (pcl S j)) x" for j x
    using other_renew [OF that(2) others_disjoint [OF inv that(1)],
        of "UnixMilli t0" "Milliseconds (ps_ttl (pls c))"] pa c(1) t by (auto simp: reclaimed_def)
  ultimately show ?thesis
    using own_renew [OF x I(3) c(2) pa] I(2,3) c(1) ref(1,2)
    by (intro sem_inv_change [OF inv]) (simp_all add: z' configured_def)
qed

lemma sem_release_inv:
  assumes inv: "sem_inv clock db cl key capacity D S"
    and c: "c = pcl S i" "pph c = Releasing"
    and out: "sem_release R (ps_key (pls c)) (ps_tokens (pls c)) (psrv S) = (Inr r, s')"
  shows "sem_inv clock db cl key capacity D (S\<lparr>psrv := s'\<rparr>)"
proof -
  let ?z = "zsetv (db (psrv S)) key"
  note I = sem_invD(1,2) [OF inv] sem_invD(3,4) [OF inv, of i, folded c(1)]
  have key: "ps_key (pls c) = key" using I(3) by (auto simp: configured_def)
  obtain x where x: "shared ?z (toks c) x" "sem_phase D (cl i) (pnow S) x c" using I(4) by blast
  have t: "ps_tokens (pls c) = toks c" using x(2) c(2) by (auto simp: sem_phase_def Let_def)
  have ref: "clock s' = clock (psrv S)" "only_zset (db (psrv S)) (db s') key (pool_release (toks c) ?z)"
    using sem_release_refines [of "psrv S" key "toks c"] I(1) out
    by (auto simp: key t pool_wf_def toks_def distinct_permit_tokens)
  then have z': "zsetv (db s') key = pool_release (toks c) ?z" by (simp add: only_zset_def)
  have "pool_wf (db s') key capacity"
    using length_fold_zrem [of "toks c" ?z] I(1)
    by (intro pool_wf_only [OF I(1) ref(2)]) (simp add: pool_wf_def pool_release_def)
  moreover have "\<exists>x. shared (pool_release (toks c) ?z) (toks c) x \<and> sem_phase D (cl i) (pnow S) x c"
    using c(2) t by (intro exI [of _ None])
      (simp add: shared_def pool_release_def map_of_fold_zrem sem_phase_def)
  moreover have "\<exists>x'. shared (pool_release (toks c) ?z) (toks (pcl S j)) x' \<and> reclaimed D (cl j (pnow S)) x x'"
    if "j \<noteq> i" "shared ?z (toks (pcl S j)) x" for j x
    using other_release [OF that(2) others_disjoint [OF inv that(1)]] c(1) by (fastforce simp: reclaimed_def)
  ultimately have "sem_inv clock db cl key capacity D (pupd i c (S\<lparr>psrv := s'\<rparr>))"
    using I(2,3) c(1) ref(1) by (intro sem_inv_change [OF inv]) (simp_all add: z')
  then show ?thesis using c(1) by (simp add: pupd_def)
qed

lemma read_at_le: "mono clk \<Longrightarrow> read_at clk n t0 \<Longrightarrow> t0 \<le> clk n"
  by (auto simp: read_at_def monoD)

lemma sem_renewed_phase:
  assumes ph: "sem_phase D clk n x c" "pph c = RenewAnswered t0 (SInt 1)" and mono: "mono clk"
    and conf: "confirm_renewal (ps_expiresAt (pls c)) (requestExpiry t0 (ps_ttl (pls c))) t1 t2 = Some y"
  shows "sem_phase D clk n x (c\<lparr>pls := (pls c)\<lparr>ps_expiresAt := y\<rparr>, pph := Holding\<rparr>)"
proof -
  let ?dl = "requestExpiry t0 (ps_ttl (pls c))"
  obtain d where d: "ps_expiresAt (pls c) = Some d" "y = Some (max d ?dl)"
    using confirm_renewal_cases [OF conf] by metis
  have h: "read_at clk n t0" "ps_tokens (pls c) = toks c" "d \<le> ?dl" "pbacked D (clk n) x ?dl"
    using ph d(1) by (auto simp: sem_phase_def Let_def)
  have "t0 \<le> clk n" using read_at_le [OF mono h(1)] .
  then have "?dl \<le> requestExpiry (clk n) (ps_ttl (pls c))" by (rule requestExpiry_mono)
  then show ?thesis using h d by (simp add: sem_phase_def toks_def max_def)
qed

lemma sem_error_phase:
  assumes "sem_phase D clk n x c" "pph c = Renewing t0 \<or> pph c = RenewAnswered t0 r" "mono clk"
  shows "sem_phase D clk n x (c\<lparr>pph := Holding\<rparr>)"
proof -
  have "read_at clk n t0" using assms(1,2) by (auto simp: sem_phase_def Let_def)
  then have "t0 \<le> clk n" by (rule read_at_le [OF assms(3)])
  then have "d \<le> requestExpiry t0 ttl \<Longrightarrow> d \<le> requestExpiry (clk n) ttl" for d ttl
    using requestExpiry_mono order.trans by blast
  then show ?thesis using assms(1,2) unfolding sem_phase_def Let_def
    by (elim disjE) (simp_all add: toks_def, blast+)
qed

lemma sem_granted_phase:
  assumes "sem_phase D clk n x c" "pph c = Answered t0 (SInt k)" "mono clk"
  shows "sem_phase D clk n x (c\<lparr>pls := (pls c)\<lparr>ps_tokens := toks c, ps_acquired := True,
      ps_expiresAt := Some (requestExpiry t0 (ps_ttl (pls c)))\<rparr>, pph := Holding\<rparr>)"
proof -
  have "read_at clk n t0" using assms(1,2) by (simp add: sem_phase_def Let_def)
  then have "t0 \<le> clk n" by (rule read_at_le [OF assms(3)])
  then have "requestExpiry t0 ttl \<le> requestExpiry (clk n) ttl" for ttl
    by (rule requestExpiry_mono)
  then show ?thesis using assms(1,2) by (simp add: sem_phase_def Let_def toks_def)
qed

lemma sem_step_inv:
  assumes "sem_step R cl S S'" and cl: "clocks_agree D cl"
    and inv: "sem_inv clock db cl key capacity D S"
  shows "sem_inv clock db cl key capacity D S'"
proof -
  have mono: "mono (cl i)" for i using cl by (simp add: clocks_agree_def)
  note local_simps = configured_def sem_phase_def Let_def toks_def
  show ?thesis
    using assms(1)
  proof cases
    case (tick t)
    then show ?thesis using sem_tick_inv [OF inv cl] by simp
  next
    case (ask c i)
    show ?thesis unfolding ask(1)
      using ask by (intro sem_inv_local [OF inv ask(2)]) (auto simp: local_simps read_at_def)
  next
    case (acquire c i t0 r0 r s')
    then show ?thesis using sem_acquire_inv [OF inv cl acquire(2-4)] by simp
  next
    case (granted c i t0 n deadline)
    show ?thesis unfolding granted(1,4)
      using granted(2,3) sem_granted_phase [OF _ granted(3) mono [of i]]
      by (intro sem_inv_local [OF inv granted(2)]) (auto simp: configured_def)
  next
    case (busy c i t0)
    show ?thesis unfolding busy(1)
      using busy by (intro sem_inv_local [OF inv busy(2)]) (auto simp: local_simps)
  next
    case (late c i t0 n)
    show ?thesis unfolding late(1)
      using late by (intro sem_inv_local [OF inv late(2)]) (auto simp: local_simps)
  next
    case (ask_renew c i)
    show ?thesis unfolding ask_renew(1)
      using ask_renew by (intro sem_inv_local [OF inv ask_renew(2)]) (auto simp: local_simps read_at_def)
  next
    case (renew c i t0 r0 r s')
    then show ?thesis using sem_renew_inv [OF inv renew(2-4)] by simp
  next
    case (renewed c i t0 t1 x)
    show ?thesis unfolding renewed(1)
      using renewed(2,3) sem_renewed_phase [OF _ renewed(3) mono [of i] renewed(5)]
      by (intro sem_inv_local [OF inv renewed(2)]) (auto simp: configured_def)
  next
    case (renew_error c i t0 r)
    show ?thesis unfolding renew_error(1)
      using renew_error(2) sem_error_phase [OF _ renew_error(3) mono [of i]]
      by (intro sem_inv_local [OF inv renew_error(2)]) (auto simp: configured_def)
  next
    case (ask_release c i)
    show ?thesis unfolding ask_release(1)
      using ask_release by (intro sem_inv_local [OF inv ask_release(2)]) (auto simp: local_simps)
  next
    case (release c i r s')
    then show ?thesis using sem_release_inv [OF inv release(2-4)] by simp
  next
    case (abandon c i)
    show ?thesis unfolding abandon(1)
      using abandon by (intro sem_inv_local [OF inv abandon(2)]) (auto simp: local_simps)
  qed
qed

lemma sem_start_inv:
  assumes "sem_start clock db key capacity D S"
  shows "sem_inv clock db cl key capacity D S"
proof -
  have "\<exists>x. shared (zsetv (db (psrv S)) key) (toks (pcl S i)) x \<and> sem_phase D (cl i) (pnow S) x (pcl S i)" for i
    using assms by (intro exI [of _ None]) (simp add: sem_start_def shared_def sem_phase_def)
  then show ?thesis using assms by (simp add: sem_start_def sem_inv_def)
qed

lemma sem_reachable_inv:
  assumes "sem_reachable R clock db cl key capacity D S" and "clocks_agree D cl"
  shows "sem_inv clock db cl key capacity D S"
  using assms by induction (auto intro: sem_start_inv sem_step_inv)

text \<open>Permits a client counts on are in the sorted set.\<close>

lemma counted_permits:
  assumes inv: "sem_inv clock db cl key capacity D S" and "counts_on cl S i"
  shows "ps_tokens (pls (pcl S i)) = toks (pcl S i)"
    "set (toks (pcl S i)) \<subseteq> fst ` set (zsetv (db (psrv S)) key)"
proof -
  obtain x where x: "shared (zsetv (db (psrv S)) key) (toks (pcl S i)) x" "sem_phase D (cl i) (pnow S) x (pcl S i)"
    using sem_invD(4) [OF inv] by blast
  then have "ps_tokens (pls (pcl S i)) = toks (pcl S i) \<and> x \<noteq> None"
    using assms(2) by (cases "pph (pcl S i)") (auto simp: counts_on_def sem_phase_def pbacked_def Let_def)
  then show "ps_tokens (pls (pcl S i)) = toks (pcl S i)"
    and "set (toks (pcl S i)) \<subseteq> fst ` set (zsetv (db (psrv S)) key)"
    using x(1) by (simp, metis (no_types) shared_def map_of_eq_None_iff subsetI)
qed

end

section \<open>Properties\<close>

text \<open>
  C3: whatever the interleaving of requests, lost and late replies, renewals, releases and
  reclaiming, the permits that clients count on at one time never exceed the capacity, as long
  as the client clocks differ by at most one percent of every lease. The times to live are whole
  milliseconds, and no request is executed after its call has returned.
\<close>

theorem capacity_bound:
  assumes server: "redis_server R clock db" and cl: "clocks_agree D cl"
    and reach: "sem_reachable R clock db cl key capacity D S"
    and fin: "finite I" and on: "\<forall>i \<in> I. counts_on cl S i"
  shows "int (\<Sum>i\<in>I. length (ps_tokens (pls (pcl S i)))) \<le> capacity"
proof -
  let ?z = "zsetv (db (psrv S)) key"
  have inv: "sem_inv clock db cl key capacity D S"
    using redis_server.sem_reachable_inv [OF server reach cl] .
  note counted = redis_server.counted_permits [OF server inv]
  have "length (ps_tokens (pls (pcl S i))) = card (set (toks (pcl S i)))" if "i \<in> I" for i
    using counted(1) on that by (simp add: toks_def distinct_card [OF distinct_permit_tokens])
  then have "(\<Sum>i\<in>I. length (ps_tokens (pls (pcl S i)))) = (\<Sum>i\<in>I. card (set (toks (pcl S i))))"
    by simp
  also have "\<dots> = card (\<Union>i\<in>I. set (toks (pcl S i)))"
    using others_disjoint [OF inv] fin by (intro card_UN_disjoint [symmetric]) (auto simp: disjoint_iff)
  also have "\<dots> \<le> card (fst ` set ?z)"
    using counted(2) on by (intro card_mono) auto
  also have "\<dots> \<le> length ?z"
    using card_length [of "map fst ?z"] by simp
  finally show ?thesis
    using sem_invD(1) [OF inv] by (simp add: pool_wf_def del: of_nat_sum)
qed

text \<open>A concrete run: client 0 asks for two of three permits and holds them.\<close>

definition sdemo_client :: "nat \<Rightarrow> sem_client" where
  "sdemo_client i = \<lparr>pls = NewPermitSet (replicate i CHR ''x'') ''k'' (10 * Second) 3, want = 2, pph = Fresh\<rparr>"

definition sdemo_cl :: "nat \<Rightarrow> instant \<Rightarrow> instant" where
  "sdemo_cl i t = t + (if i = 1 then 50000000 else 0)"

definition sdemo0 :: "mem sem_system" where
  "sdemo0 = \<lparr>psrv = empty_mem, pnow = 5, pcl = sdemo_client\<rparr>"

definition sdemo_mem :: mem where
  "sdemo_mem = snd (sem_acquire mem_redis ''k'' 0 10000 3 [''#0'', ''#1''] empty_mem)"

definition sdemo3 :: "mem sem_system" where
  "sdemo3 = pupd 0 ((sdemo_client 0)\<lparr>pls := (pls (sdemo_client 0))\<lparr>ps_tokens := [''#0'', ''#1''],
     ps_acquired := True, ps_expiresAt := Some 9899000005\<rparr>, pph := Holding\<rparr>)
     \<lparr>psrv = sdemo_mem, pnow = 5, pcl = sdemo_client\<rparr>"

lemma sdemo_clocks: "clocks_agree 100000000 sdemo_cl"
  by (simp add: clocks_agree_def sdemo_cl_def mono_def)

lemma sdemo_start: "sem_start mclock mem_db ''k'' 3 100000000 sdemo0"
  by (simp add: sem_start_def sdemo0_def sdemo_client_def NewPermitSet_def configured_def pool_wf_def
      kv_defs mem_db_def empty_mem_def UnixMilli_def inj_def replicate_eq_replicate)

lemma sdemo_toks: "toks (sdemo_client 0) = [''#0'', ''#1'']"
  by (simp add: toks_def sdemo_client_def NewPermitSet_def permit_tokens_def upt_rec Itoa.simps)

lemma sdemo_request: "sem_acquire mem_redis ''k'' 0 10000 3 [''#0'', ''#1''] empty_mem = (Inr (SInt 2), sdemo_mem)"
proof -
  have "is_zset (mem_db empty_mem) ''k''" "zsetv (mem_db empty_mem) ''k'' = []"
    by (simp_all add: kv_defs mem_db_def empty_mem_def)
  moreover have "pool_acquire 0 10000 3 [''#0'', ''#1''] [] = (Some 2, [(''#0'', 10000), (''#1'', 10000)])"
    by code_simp
  ultimately show ?thesis
    using mem.sem_acquire_refines [of empty_mem "''k''" 0 10000 3 "[''#0'', ''#1'']"]
    unfolding sdemo_mem_def by (auto simp: fence_reply_def)
qed

lemma sdemo_reachable: "sem_reachable mem_redis mclock mem_db sdemo_cl ''k'' 3 100000000 sdemo3"
proof -
  let ?c = "sdemo_client 0" and ?reach = "sem_reachable mem_redis mclock mem_db sdemo_cl ''k'' 3 100000000"
  let ?S1 = "pupd 0 (?c\<lparr>pph := Asking 5\<rparr>) sdemo0"
  let ?S2 = "pupd 0 (?c\<lparr>pph := Answered 5 (SInt 2)\<rparr>) (?S1\<lparr>psrv := sdemo_mem\<rparr>)"
  have c: "pph ?c = Fresh" "ps_ttl (pls ?c) = 10 * Second" "ps_key (pls ?c) = ''k''" "ps_capacity (pls ?c) = 3"
    by (simp_all add: sdemo_client_def NewPermitSet_def)
  have t: "toks (?c\<lparr>pph := p\<rparr>) = [''#0'', ''#1'']" for p
    using sdemo_toks by (simp add: toks_def)
  have "?reach ?S1"
    using sem_reachable.later [OF sem_reachable.initially [where R = mem_redis and cl = sdemo_cl, OF sdemo_start] sem_step.ask, of ?c 0] c
    by (simp add: sdemo0_def sdemo_cl_def)
  then have "?reach ?S2"
    using sem_step.acquire [of "?c\<lparr>pph := Asking 5\<rparr>" ?S1 0 5 SNil mem_redis "SInt 2" sdemo_mem sdemo_cl]
      c sdemo_request t sem_reachable.later
    by (simp add: sdemo0_def pupd_def UnixMilli_def Milliseconds_def)
  moreover have "requestExpiry 5 (10 * Second) = 9899000005"
    by (simp add: requestExpiry_def)
  ultimately have "?reach (pupd 0 (?c\<lparr>pls := (pls ?c)\<lparr>ps_tokens := [''#0'', ''#1''], ps_acquired := True,
      ps_expiresAt := Some 9899000005\<rparr>, pph := Holding\<rparr>) ?S2)"
    using sem_step.granted [of "?c\<lparr>pph := Answered 5 (SInt 2)\<rparr>" ?S2 0 5 2 9899000005 sdemo_cl mem_redis]
      c t sem_reachable.later
    by (simp add: sdemo0_def pupd_def sdemo_cl_def)
  then show ?thesis by (simp add: sdemo3_def sdemo0_def pupd_def)
qed

theorem capacity_bound_witness:
  "counts_on sdemo_cl sdemo3 0 \<and> length (ps_tokens (pls (pcl sdemo3 0))) = 2 \<and>
   int (\<Sum>i\<in>{0}. length (ps_tokens (pls (pcl sdemo3 i)))) \<le> 3"
proof -
  have "counts_on sdemo_cl sdemo3 0"
    by (simp add: counts_on_def sdemo3_def pupd_def sdemo_cl_def)
  moreover have "length (ps_tokens (pls (pcl sdemo3 0))) = 2" by (simp add: sdemo3_def pupd_def)
  ultimately show ?thesis
    using capacity_bound [OF mem_server sdemo_clocks sdemo_reachable, of "{0}"] by simp
qed


end
