(* ===== verification/Rwlock.thy ===== *)
theory Rwlock
  imports Permit
begin

text \<open>
  The read-write lease: the scripts \<^verbatim>\<open>rw_write_lock.lua\<close> and \<^verbatim>\<open>rw_read_lock.lua\<close> on a writer
  key, a sorted set of readers and a first-come-first-served queue of waiters, and the writer
  and reader leases of \<^verbatim>\<open>internal/lease/rw.go\<close>. Renewal and release reuse the scripts of the
  exclusive and the counting lease.
\<close>

section \<open>The scripts\<close>

record rw_keys =
  Writer :: string
  Readers :: string
  Fencing :: string
  Waiters :: string
  WaiterTS :: string
  Seq :: string

text \<open>
  What both scripts do first: join the queue or refresh the place in it. \<open>k\<close> is the rest of
  the script and takes the caller's arrival number. A score read back is a string of digits.
\<close>

definition lua_score :: "reply \<Rightarrow> int" where
  "lua_score v = (case tonumber v of Some q \<Rightarrow> \<lfloor>q\<rfloor> | None \<Rightarrow> 0)"

definition rw_refresh ::
  "'s redis \<Rightarrow> rw_keys \<Rightarrow> string \<Rightarrow> int \<Rightarrow> int \<Rightarrow> ('s, sreply) lua \<Rightarrow> ('s, sreply) lua" where
  "rw_refresh R K member now waiterTimeout k =
     invoke R (HSET (WaiterTS K) [(member, inum now)]) (\<lambda>_.
     invoke R (PEXPIRE (Waiters K) waiterTimeout) (\<lambda>_.
     invoke R (PEXPIRE (WaiterTS K) waiterTimeout) (\<lambda>_.
     invoke R (PEXPIRE (Seq K) waiterTimeout) (\<lambda>_. k))))"

definition rw_join ::
  "'s redis \<Rightarrow> rw_keys \<Rightarrow> string \<Rightarrow> int \<Rightarrow> int \<Rightarrow> (int \<Rightarrow> ('s, sreply) lua) \<Rightarrow> ('s, sreply) lua" where
  "rw_join R K member now waiterTimeout k =
     invoke R (ZSCORE (Waiters K) member) (\<lambda>seq.
     if \<not> truthy seq
     then invoke R (INCR (Seq K)) (\<lambda>n.
          invoke R (ZADD (Waiters K) (lua_int n) member) (\<lambda>_.
          rw_refresh R K member now waiterTimeout (k (lua_int n))))
     else rw_refresh R K member now waiterTimeout (k (lua_score seq)))"

text \<open>
  The \<^verbatim>\<open>while true\<close> loop that drops crashed waiters from the head. Each turn removes one entry,
  so a \<open>fuel\<close> above the length of the queue is never used up.
\<close>

definition first_text :: "reply \<Rightarrow> string option" where
  "first_text r = (case r of RArr (Text t # _) \<Rightarrow> Some t | _ \<Rightarrow> None)"

definition older :: "reply \<Rightarrow> int \<Rightarrow> bool" where
  "older v t = (case tonumber v of Some ts \<Rightarrow> ts < of_int t | None \<Rightarrow> False)"

fun purge_waiters ::
  "'s redis \<Rightarrow> rw_keys \<Rightarrow> int \<Rightarrow> int \<Rightarrow> nat \<Rightarrow> ('s, sreply) lua \<Rightarrow> ('s, sreply) lua" where
  "purge_waiters R K now waiterTimeout 0 k = (\<lambda>s. (Inl ''out of fuel'', s))"
| "purge_waiters R K now waiterTimeout (Suc fuel) k =
     invoke R (ZRANGE_0_0 (Waiters K)) (\<lambda>head. case first_text head of
       None \<Rightarrow> k
     | Some h \<Rightarrow> invoke R (HGET (WaiterTS K) h) (\<lambda>ts.
         if older ts (now - waiterTimeout)
         then invoke R (ZREM (Waiters K) h) (\<lambda>_.
              invoke R (HDEL (WaiterTS K) h) (\<lambda>_.
              purge_waiters R K now waiterTimeout fuel k))
         else k))"

text \<open>\<^verbatim>\<open>#head > 0 and head[1] ~= member\<close>\<close>

definition head_other :: "reply \<Rightarrow> string \<Rightarrow> bool" where
  "head_other head member = (first_text head \<noteq> None \<and> first_text head \<noteq> Some member)"

text \<open>Taking the writer role once the queue is up to date: from \<^verbatim>\<open>Strict FIFO\<close> to the end.\<close>

definition rw_take_write ::
  "'s redis \<Rightarrow> rw_keys \<Rightarrow> string \<Rightarrow> int \<Rightarrow> int \<Rightarrow> string \<Rightarrow> ('s, sreply) lua" where
  "rw_take_write R K token ttl now member =
     invoke R (ZRANGE_0_0 (Waiters K)) (\<lambda>head.
     if head_other head member then lua_return SNil
     else invoke R (EXISTS (Writer K)) (\<lambda>e.
     if e = RInt 1 then lua_return SNil
     else invoke R (ZREMRANGEBYSCORE (Readers K) now) (\<lambda>_.
     invoke R (ZCARD (Readers K)) (\<lambda>n.
     if lua_int n > 0 then lua_return SNil
     else invoke R (SET_PX (Writer K) (Text token) ttl) (\<lambda>_.
     invoke R (ZREM (Waiters K) member) (\<lambda>_.
     invoke R (HDEL (WaiterTS K) member) (\<lambda>_.
     invoke R (INCR (Fencing K)) (\<lambda>f. lua_return (integer_reply f)))))))))"

definition rw_write_lock ::
  "'s redis \<Rightarrow> nat \<Rightarrow> rw_keys \<Rightarrow> string \<Rightarrow> int \<Rightarrow> int \<Rightarrow> int \<Rightarrow> ('s, sreply) lua" where
  "rw_write_lock R fuel K token ttl now waiterTimeout =
     (let member = ''W:'' @ token in
      invoke R (GET (Writer K)) (\<lambda>w.
      if w = RBulk (Text token)
      then invoke R (GET (Fencing K)) (\<lambda>n. lua_return (integer_reply n))
      else rw_join R K member now waiterTimeout (\<lambda>_.
           purge_waiters R K now waiterTimeout fuel (rw_take_write R K token ttl now member))))"

definition texts :: "reply \<Rightarrow> string list" where
  "texts r = (case r of RArr bs \<Rightarrow> List.map_filter (\<lambda>b. case b of Text t \<Rightarrow> Some t | Num _ \<Rightarrow> None) bs | _ \<Rightarrow> [])"

text \<open>
  Taking a reader's place: from the test for an active writer to the end. The bound of the query is
  the arrival number itself; the script writes one it has just drawn with 14 significant digits,
  which is the same for numbers below \<open>10\<^sup>1\<^sup>4\<close>.
\<close>

definition rw_take_read ::
  "'s redis \<Rightarrow> rw_keys \<Rightarrow> string \<Rightarrow> int \<Rightarrow> int \<Rightarrow> string \<Rightarrow> int \<Rightarrow> ('s, sreply) lua" where
  "rw_take_read R K token ttl now member seq =
     invoke R (EXISTS (Writer K)) (\<lambda>e.
     if e = RInt 1 then lua_return SNil
     else invoke R (ZRANGEBYSCORE_below (Waiters K) seq) (\<lambda>ahead.
     if list_ex (\<lambda>m. take 2 m = ''W:'') (texts ahead) then lua_return SNil
     else invoke R (ZADD (Readers K) (now + ttl) token) (\<lambda>_.
     invoke R (ZREM (Waiters K) member) (\<lambda>_.
     invoke R (HDEL (WaiterTS K) member) (\<lambda>_. lua_return (SInt 1))))))"

definition rw_read_lock ::
  "'s redis \<Rightarrow> nat \<Rightarrow> rw_keys \<Rightarrow> string \<Rightarrow> int \<Rightarrow> int \<Rightarrow> int \<Rightarrow> ('s, sreply) lua" where
  "rw_read_lock R fuel K token ttl now waiterTimeout =
     (let member = ''R:'' @ token in
      invoke R (ZSCORE (Readers K) token) (\<lambda>owned.
      if truthy owned \<and> lua_score owned > now then lua_return (SInt 1)
      else rw_join R K member now waiterTimeout (\<lambda>seq.
           purge_waiters R K now waiterTimeout fuel (rw_take_read R K token ttl now member seq))))"

section \<open>The writer and the reader lease\<close>

definition waiterTimeout :: "duration \<Rightarrow> int" where
  "waiterTimeout ttl = Milliseconds (int64 (ttl * 2))"

record rw_lease =
  rw_id :: string
  rw_on :: rw_keys
  rw_ttl :: duration
  rw_expiresAt :: "instant option"

definition NewRWWriter :: "string \<Rightarrow> rw_keys \<Rightarrow> duration \<Rightarrow> rw_lease" where
  "NewRWWriter token keys ttl = \<lparr>rw_id = token, rw_on = keys, rw_ttl = ttl, rw_expiresAt = None\<rparr>"

definition NewRWReader :: "string \<Rightarrow> rw_keys \<Rightarrow> duration \<Rightarrow> rw_lease" where
  "NewRWReader token keys ttl = \<lparr>rw_id = token, rw_on = keys, rw_ttl = ttl, rw_expiresAt = None\<rparr>"

definition RWWriter_member :: "rw_lease \<Rightarrow> string" where
  "RWWriter_member w = ''W:'' @ rw_id w"

definition RWReader_member :: "rw_lease \<Rightarrow> string" where
  "RWReader_member r = ''R:'' @ rw_id r"

text \<open>\<^verbatim>\<open>Dequeue\<close> sends two commands, each over its own transport, and ignores their errors.\<close>

definition dequeue :: "'s redis \<Rightarrow> rw_keys \<Rightarrow> string \<Rightarrow> transport \<Rightarrow> transport \<Rightarrow> 's \<Rightarrow> 's" where
  "dequeue R K member tr1 tr2 s =
     (let s1 = snd (Run R tr1 (redis_call R (ZREM (Waiters K) member)) s) in
      snd (Run R tr2 (redis_call R (HDEL (WaiterTS K) member)) s1))"

definition RWWriter_Dequeue :: "'s redis \<Rightarrow> transport \<Rightarrow> transport \<Rightarrow> rw_lease \<Rightarrow> 's \<Rightarrow> 's" where
  "RWWriter_Dequeue R tr1 tr2 w s = dequeue R (rw_on w) (RWWriter_member w) tr1 tr2 s"

definition RWReader_Dequeue :: "'s redis \<Rightarrow> transport \<Rightarrow> transport \<Rightarrow> rw_lease \<Rightarrow> 's \<Rightarrow> 's" where
  "RWReader_Dequeue R tr1 tr2 r s = dequeue R (rw_on r) (RWReader_member r) tr1 tr2 s"

definition RWWriter_Release ::
  "'s redis \<Rightarrow> transport \<Rightarrow> rw_lease \<Rightarrow> 's \<Rightarrow> goerr option \<times> rw_lease \<times> 's" where
  "RWWriter_Release R tr w s =
     (case Int64 (Run R tr (single_release R (Writer (rw_on w)) (rw_id w)) s) of
        (Inl e, s') \<Rightarrow> (Some e, w, s')
      | (Inr None, s') \<Rightarrow> (Some redis_Nil, w, s')
      | (Inr (Some ok), s') \<Rightarrow> if ok \<noteq> 1 then (Some ErrLost, w, s') else (None, w\<lparr>rw_expiresAt := None\<rparr>, s'))"

definition write_request :: "'s redis \<Rightarrow> nat \<Rightarrow> instant \<Rightarrow> rw_lease \<Rightarrow> ('s, sreply) lua" where
  "write_request R fuel started w =
     rw_write_lock R fuel (rw_on w) (rw_id w) (Milliseconds (rw_ttl w)) (UnixMilli started) (waiterTimeout (rw_ttl w))"

definition RWWriter_TryAcquire ::
  "'s redis \<Rightarrow> nat \<Rightarrow> acq_env \<Rightarrow> rw_lease \<Rightarrow> 's \<Rightarrow> (goerr + 64 word) \<times> rw_lease \<times> 's" where
  "RWWriter_TryAcquire R fuel env w s =
     (let deadline = requestExpiry (acq_started env) (rw_ttl w) in
      case Int64 (Run R (acq_net env) (write_request R fuel (acq_started env) w) s) of
        (Inl e, s') \<Rightarrow> (Inl e, w, s')
      | (Inr None, s') \<Rightarrow> (Inl ErrBusy, w, s')
      | (Inr (Some res), s') \<Rightarrow>
          if \<not> acq_replied env < deadline
          then (case discardLateGrant (RWWriter_Release R) (acq_late_net env) w s' of
              (Some e, w', s'') \<Rightarrow> (Inl e, w', s'') | (None, w', s'') \<Rightarrow> (Inr 0, w', s''))
          else (Inr (word_of_int res), w\<lparr>rw_expiresAt := Some deadline\<rparr>, s'))"

definition RWWriter_Acquire ::
  "'s redis \<Rightarrow> nat \<Rightarrow> acq_env \<Rightarrow> rw_lease \<Rightarrow> 's \<Rightarrow> goerr option \<times> rw_lease \<times> 's" where
  "RWWriter_Acquire R fuel env w s =
     (case RWWriter_TryAcquire R fuel env w s of
        (Inl e, w', s') \<Rightarrow> (Some e, w', s') | (Inr _, w', s') \<Rightarrow> (None, w', s'))"

definition RWWriter_Renew ::
  "'s redis \<Rightarrow> renew_env \<Rightarrow> rw_lease \<Rightarrow> 's \<Rightarrow> goerr option \<times> rw_lease \<times> 's" where
  "RWWriter_Renew R env w s =
     (let deadline = requestExpiry (ren_started env) (rw_ttl w) in
      case Int64 (Run R (ren_net env)
             (single_renew R (Writer (rw_on w)) (rw_id w) (Milliseconds (rw_ttl w))) s) of
        (Inl e, s') \<Rightarrow> (Some e, w, s')
      | (Inr None, s') \<Rightarrow> (Some redis_Nil, w, s')
      | (Inr (Some ok), s') \<Rightarrow>
          if ok \<noteq> 1 then (Some ErrLost, w, s')
          else (case confirm_renewal (rw_expiresAt w) deadline (ren_replied env) (ren_checked env) of
              None \<Rightarrow> (Some ErrLost, w, s')
            | Some x \<Rightarrow> (None, w\<lparr>rw_expiresAt := x\<rparr>, s')))"

definition RWWriter_Held ::
  "'s redis \<Rightarrow> instant \<Rightarrow> (nat \<Rightarrow> transport) \<Rightarrow> rw_lease \<Rightarrow> 's \<Rightarrow> (goerr + bool) \<times> 's" where
  "RWWriter_Held R now trs w s =
     (case Run R (trs 0) (redis_call R (GET (Writer (rw_on w)))) s of
        (Inl e, s') \<Rightarrow> (Inl e, s')
      | (Inr v, s') \<Rightarrow> (Inr (v = RBulk (Text (rw_id w))), s'))"

definition RWWriter_ID :: "rw_lease \<Rightarrow> string" where [simp]: "RWWriter_ID l = rw_id l"
definition RWWriter_ExpiresAt :: "rw_lease \<Rightarrow> instant option" where [simp]: "RWWriter_ExpiresAt l = rw_expiresAt l"

definition RWWriter_ops :: "'s redis \<Rightarrow> nat \<Rightarrow> (rw_lease, 's) lease_ops" where
  "RWWriter_ops R fuel = \<lparr>
     ID = RWWriter_ID,
     Acquire = RWWriter_Acquire R fuel,
     Renew = RWWriter_Renew R,
     Release = RWWriter_Release R,
     Held = RWWriter_Held R,
     ExpiresAt = RWWriter_ExpiresAt\<rparr>"

definition RWReader_Release ::
  "'s redis \<Rightarrow> transport \<Rightarrow> rw_lease \<Rightarrow> 's \<Rightarrow> goerr option \<times> rw_lease \<times> 's" where
  "RWReader_Release R tr r s =
     (case Int64 (Run R tr (sem_release R (Readers (rw_on r)) [rw_id r]) s) of
        (Inl e, s') \<Rightarrow> (Some e, r, s')
      | (Inr None, s') \<Rightarrow> (Some redis_Nil, r, s')
      | (Inr (Some removed), s') \<Rightarrow>
          if removed \<noteq> 1 then (Some ErrLost, r, s') else (None, r\<lparr>rw_expiresAt := None\<rparr>, s'))"

definition read_request :: "'s redis \<Rightarrow> nat \<Rightarrow> instant \<Rightarrow> rw_lease \<Rightarrow> ('s, sreply) lua" where
  "read_request R fuel started r =
     rw_read_lock R fuel (rw_on r) (rw_id r) (Milliseconds (rw_ttl r)) (UnixMilli started) (waiterTimeout (rw_ttl r))"

definition RWReader_Acquire ::
  "'s redis \<Rightarrow> nat \<Rightarrow> acq_env \<Rightarrow> rw_lease \<Rightarrow> 's \<Rightarrow> goerr option \<times> rw_lease \<times> 's" where
  "RWReader_Acquire R fuel env r s =
     (let deadline = requestExpiry (acq_started env) (rw_ttl r) in
      case Int64 (Run R (acq_net env) (read_request R fuel (acq_started env) r) s) of
        (Inl e, s') \<Rightarrow> (Some e, r, s')
      | (Inr None, s') \<Rightarrow> (Some ErrBusy, r, s')
      | (Inr (Some _), s') \<Rightarrow>
          if \<not> acq_replied env < deadline then discardLateGrant (RWReader_Release R) (acq_late_net env) r s'
          else (None, r\<lparr>rw_expiresAt := Some deadline\<rparr>, s'))"

definition RWReader_Renew ::
  "'s redis \<Rightarrow> renew_env \<Rightarrow> rw_lease \<Rightarrow> 's \<Rightarrow> goerr option \<times> rw_lease \<times> 's" where
  "RWReader_Renew R env r s =
     (let started = ren_started env; deadline = requestExpiry started (rw_ttl r) in
      case Int64 (Run R (ren_net env)
             (sem_renew R (Readers (rw_on r)) (UnixMilli started) (Milliseconds (rw_ttl r)) [rw_id r]) s) of
        (Inl e, s') \<Rightarrow> (Some e, r, s')
      | (Inr None, s') \<Rightarrow> (Some redis_Nil, r, s')
      | (Inr (Some ok), s') \<Rightarrow>
          if ok \<noteq> 1 then (Some ErrLost, r, s')
          else (case confirm_renewal (rw_expiresAt r) deadline (ren_replied env) (ren_checked env) of
              None \<Rightarrow> (Some ErrLost, r, s')
            | Some x \<Rightarrow> (None, r\<lparr>rw_expiresAt := x\<rparr>, s')))"

definition RWReader_Held ::
  "'s redis \<Rightarrow> instant \<Rightarrow> (nat \<Rightarrow> transport) \<Rightarrow> rw_lease \<Rightarrow> 's \<Rightarrow> (goerr + bool) \<times> 's" where
  "RWReader_Held R now trs r s =
     (case Run R (trs 0) (redis_call R (ZSCORE (Readers (rw_on r)) (rw_id r))) s of
        (Inl e, s') \<Rightarrow> (Inl e, s')
      | (Inr score, s') \<Rightarrow>
          (Inr (case tonumber score of None \<Rightarrow> False | Some q \<Rightarrow> q > of_int (UnixMilli now)), s'))"

definition RWReader_ID :: "rw_lease \<Rightarrow> string" where [simp]: "RWReader_ID l = rw_id l"
definition RWReader_ExpiresAt :: "rw_lease \<Rightarrow> instant option" where [simp]: "RWReader_ExpiresAt l = rw_expiresAt l"

definition RWReader_ops :: "'s redis \<Rightarrow> nat \<Rightarrow> (rw_lease, 's) lease_ops" where
  "RWReader_ops R fuel = \<lparr>
     ID = RWReader_ID,
     Acquire = RWReader_Acquire R fuel,
     Renew = RWReader_Renew R,
     Release = RWReader_Release R,
     Held = RWReader_Held R,
     ExpiresAt = RWReader_ExpiresAt\<rparr>"

section \<open>The abstract read-write lock\<close>

text \<open>
  What the scripts promise. \<open>wr\<close> is the writer with its deadline, \<open>rd\<close> the readers with
  theirs, \<open>queue\<close> the waiters with their arrival numbers, \<open>beats\<close> when each was last heard
  from, \<open>seqn\<close> the last arrival number and \<open>qexp\<close> when an idle queue is dropped.
\<close>

record rw_state =
  wr :: "(string \<times> int) option"
  rd :: zset
  wfence :: int
  queue :: zset
  beats :: "(string \<times> bulk) list"
  seqn :: int
  qexp :: "int option"

definition joined :: "string \<Rightarrow> int \<Rightarrow> int \<Rightarrow> rw_state \<Rightarrow> rw_state" where
  "joined m now e st =
     (let new = (map_of (queue st) m = None); n = seqn st + 1 in
      st\<lparr>queue := (if new then zadd m n (queue st) else queue st),
         seqn := (if new then n else seqn st),
         beats := AList.update m (inum now) (beats st), qexp := Some e\<rparr>)"

definition arrival :: "string \<Rightarrow> rw_state \<Rightarrow> int" where
  "arrival m st = (case map_of (queue st) m of None \<Rightarrow> seqn st + 1 | Some n \<Rightarrow> n)"

definition stale :: "(string \<times> bulk) list \<Rightarrow> int \<Rightarrow> string \<Rightarrow> bool" where
  "stale h t m = older (bulk_reply (map_of h m)) t"

fun purged :: "int \<Rightarrow> zset \<Rightarrow> (string \<times> bulk) list \<Rightarrow> zset \<times> (string \<times> bulk) list" where
  "purged t [] h = ([], h)"
| "purged t (p # z) h = (if stale h t (fst p) then purged t z (AList.delete (fst p) h) else (p # z, h))"

definition purge :: "int \<Rightarrow> rw_state \<Rightarrow> rw_state" where
  "purge t st = st\<lparr>queue := fst (purged t (queue st) (beats st)), beats := snd (purged t (queue st) (beats st))\<rparr>"

definition leave :: "string \<Rightarrow> rw_state \<Rightarrow> rw_state" where
  "leave m st = st\<lparr>queue := zrem m (queue st), beats := AList.delete m (beats st)\<rparr>"

definition behind :: "string \<Rightarrow> zset \<Rightarrow> bool" where
  "behind m z = (z \<noteq> [] \<and> fst (hd z) \<noteq> m)"

definition writer_before :: "int \<Rightarrow> zset \<Rightarrow> bool" where
  "writer_before n z = (\<exists>p \<in> set z. snd p < n \<and> take 2 (fst p) = ''W:'')"

text \<open>\<open>T\<close> is the server's clock, \<open>now\<close> the caller's.\<close>

definition rw_write :: "string \<Rightarrow> int \<Rightarrow> int \<Rightarrow> int \<Rightarrow> int \<Rightarrow> rw_state \<Rightarrow> int option \<times> rw_state" where
  "rw_write token ttl now timeout T st =
     (if map_option fst (wr st) = Some token then (if wfence st = 0 then None else Some (wfence st), st)
      else
        let m = ''W:'' @ token; st1 = purge (now - timeout) (joined m now (T + timeout) st) in
        if behind m (queue st1) then (None, st1)
        else if wr st1 \<noteq> None then (None, st1)
        else
          let st2 = st1\<lparr>rd := reclaim now (rd st1)\<rparr> in
          if rd st2 \<noteq> [] then (None, st2)
          else (Some (wfence st2 + 1),
            leave m (st2\<lparr>wr := Some (token, T + ttl), wfence := wfence st2 + 1\<rparr>)))"

definition rw_read :: "string \<Rightarrow> int \<Rightarrow> int \<Rightarrow> int \<Rightarrow> int \<Rightarrow> rw_state \<Rightarrow> int option \<times> rw_state" where
  "rw_read token ttl now timeout T st =
     (if (case map_of (rd st) token of Some e \<Rightarrow> now < e | None \<Rightarrow> False) then (Some 1, st)
      else
        let m = ''R:'' @ token; st1 = purge (now - timeout) (joined m now (T + timeout) st) in
        if wr st1 \<noteq> None then (None, st1)
        else if writer_before (arrival m st) (queue st1) then (None, st1)
        else (Some 1, leave m (st1\<lparr>rd := zadd token (now + ttl) (rd st1)\<rparr>)))"

section \<open>The scripts refine it\<close>

text \<open>How the keyspace shows a state, and what is true of every state.\<close>

definition rw_distinct :: "rw_keys \<Rightarrow> bool" where
  "rw_distinct K = distinct [Writer K, Readers K, Fencing K, Waiters K, WaiterTS K, Seq K]"

definition shows_rw :: "keyspace \<Rightarrow> rw_keys \<Rightarrow> rw_state \<Rightarrow> bool" where
  "shows_rw d K st =
     (d (Writer K) = map_option (\<lambda>(t, e). (VStr (Text t), Some e)) (wr st) \<and>
      is_zset d (Readers K) \<and> zsetv d (Readers K) = rd st \<and> ttlv d (Readers K) = None \<and>
      counter d (Fencing K) = Some (wfence st) \<and> ttlv d (Fencing K) = None \<and>
      (d (Fencing K) = None \<longleftrightarrow> wfence st = 0) \<and>
      is_zset d (Waiters K) \<and> zsetv d (Waiters K) = queue st \<and>
      ttlv d (Waiters K) = (if queue st = [] then None else qexp st) \<and>
      is_hash d (WaiterTS K) \<and> hashv d (WaiterTS K) = beats st \<and>
      (d (WaiterTS K) = None \<longleftrightarrow> beats st = []) \<and>
      ttlv d (WaiterTS K) = (if beats st = [] then None else qexp st) \<and>
      counter d (Seq K) = Some (seqn st) \<and> ttlv d (Seq K) = qexp st \<and>
      (d (Seq K) = None \<longleftrightarrow> seqn st = 0))"

definition rw_ok :: "rw_state \<Rightarrow> bool" where
  "rw_ok st = (0 \<le> wfence st \<and> 0 \<le> seqn st \<and> zwf (queue st) \<and> zwf (rd st) \<and>
     (\<forall>p \<in> set (queue st). 0 < snd p \<and> snd p \<le> seqn st) \<and> distinct (map snd (queue st)) \<and>
     (queue st \<noteq> [] \<or> beats st \<noteq> [] \<longrightarrow> 0 < seqn st) \<and>
     (wr st \<noteq> None \<longrightarrow> rd st = []))"

definition rw_room :: "rw_state \<Rightarrow> bool" where
  "rw_room st = (wfence st + 1 < 2 ^ 53 \<and> seqn st + 1 < 2 ^ 53)"

lemma rw_distinctD:
  assumes "rw_distinct K"
  shows "Writer K \<noteq> Readers K" "Writer K \<noteq> Fencing K" "Writer K \<noteq> Waiters K" "Writer K \<noteq> WaiterTS K"
    "Writer K \<noteq> Seq K" "Readers K \<noteq> Fencing K" "Readers K \<noteq> Waiters K" "Readers K \<noteq> WaiterTS K"
    "Readers K \<noteq> Seq K" "Fencing K \<noteq> Waiters K" "Fencing K \<noteq> WaiterTS K" "Fencing K \<noteq> Seq K"
    "Waiters K \<noteq> WaiterTS K" "Waiters K \<noteq> Seq K" "WaiterTS K \<noteq> Seq K"
  using assms by (simp_all add: rw_distinct_def)

lemmas rw_keys_ne = rw_distinctD rw_distinctD [symmetric]

lemma lua_score_inum [simp]: "lua_score (RBulk (inum n)) = n"
  by (simp add: lua_score_def)

lemma first_text_simps [simp]: "first_text (RArr []) = None" "first_text (RArr (Text t # bs)) = Some t"
  by (simp_all add: first_text_def)

lemma first_text_head: "first_text (RArr (map (\<lambda>p. Text (fst p)) (take (Suc 0) z))) =
    (if z = [] then None else Some (fst (hd z)))"
  by (cases z) simp_all

lemma head_behind: "head_other (RArr (map (\<lambda>p. Text (fst p)) (take (Suc 0) z))) m = behind m z"
  by (simp add: head_other_def first_text_head behind_def)

lemma reclaim_Nil [simp]: "reclaim now [] = []"
  by (simp add: reclaim_def)

lemma zrem_Nil [simp]: "zrem m [] = []"
  by (simp add: zrem_def)

lemma zrem_head: "zwf (p # z) \<Longrightarrow> zrem (fst p) (p # z) = z"
  by (auto simp: zrem_def zwf_def filter_id_conv) (metis fst_conv imageI)

lemma purge_stop: "queue st = [] \<or> (\<exists>p z. queue st = p # z \<and> \<not> stale (beats st) t (fst p)) \<Longrightarrow> purge t st = st"
  by (cases st) (auto simp: purge_def)

lemma update_not_Nil [simp]: "AList.update k v h \<noteq> []"
  by (cases h) auto

context redis_server
begin

lemma rw_refresh_exec:
  assumes "rw_distinct K" "is_hash (db s) (WaiterTS K)" "0 < timeout"
  shows "\<exists>s'. rw_refresh R K m now timeout k s = k s' \<and> clock s' = clock s \<and>
    db s' = set_ttl (set_ttl (set_ttl (put_hash (db s) (WaiterTS K)
      (AList.update m (inum now) (hashv (db s) (WaiterTS K)))) (Waiters K) (clock s + timeout))
      (WaiterTS K) (clock s + timeout)) (Seq K) (clock s + timeout)"
  using assms rw_keys_ne [OF assms(1)]
  by (intro exI [of _ "after R (PEXPIRE (Seq K) timeout) (after R (PEXPIRE (WaiterTS K) timeout)
        (after R (PEXPIRE (Waiters K) timeout) (after R (HSET (WaiterTS K) [(m, inum now)]) s)))"])
    (simp add: rw_refresh_def redis_step kv hash_set_def)

lemma rw_join_exec:
  assumes K: "rw_distinct K" and st: "shows_rw (db s) K st" "rw_ok st" "rw_room st" and t: "0 < timeout"
  shows "\<exists>s'. rw_join R K m now timeout k s = k (arrival m st) s' \<and> clock s' = clock s \<and>
    shows_rw (db s') K (joined m now (clock s + timeout) st)"
proof -
  note D = rw_keys_ne [OF K]
  note v = st(1) [unfolded shows_rw_def]
  show ?thesis
  proof (cases "map_of (queue st) m")
    case None
    let ?s1 = "after R (ZSCORE (Waiters K) m) s"
    let ?s2 = "after R (INCR (Seq K)) ?s1"
    let ?s3 = "after R (ZADD (Waiters K) (seqn st + 1) m) ?s2"
    have n: "\<bar>seqn st + 1\<bar> < 2 ^ 63" using st(2,3) by (simp add: rw_ok_def rw_room_def)
    have d3: "db ?s3 = put_zset (put_str (db s) (Seq K) (inum (seqn st + 1))) (Waiters K)
        (zadd m (seqn st + 1) (queue st))" "clock ?s3 = clock s"
      using v n D by (simp_all add: redis_step kv)
    have eq: "rw_join R K m now timeout k s = rw_refresh R K m now timeout (k (seqn st + 1)) ?s3"
      using v n D None by (simp add: rw_join_def redis_step kv bulk_reply_def)
    obtain s' where s': "rw_refresh R K m now timeout (k (seqn st + 1)) ?s3 = k (seqn st + 1) s'"
        "clock s' = clock s" "db s' = set_ttl (set_ttl (set_ttl (put_hash (db ?s3) (WaiterTS K)
      (AList.update m (inum now) (hashv (db ?s3) (WaiterTS K)))) (Waiters K) (clock s + timeout))
      (WaiterTS K) (clock s + timeout)) (Seq K) (clock s + timeout)"
      using rw_refresh_exec [OF K _ t, of ?s3 m now "k (seqn st + 1)"] v D by (auto simp: d3 kv)
    have "shows_rw (db s') K (joined m now (clock s + timeout) st)"
      using v D None st(2) by (simp add: s'(3) d3 kv shows_rw_def joined_def Let_def rw_ok_def)
    then show ?thesis using eq s' None by (auto simp: arrival_def)
  next
    case (Some n)
    let ?s1 = "after R (ZSCORE (Waiters K) m) s"
    have q: "queue st \<noteq> []" "0 < seqn st" using Some st(2) by (auto simp: rw_ok_def)
    have d1: "db ?s1 = db s" "clock ?s1 = clock s" using v by (simp_all add: redis_step)
    have eq: "rw_join R K m now timeout k s = rw_refresh R K m now timeout (k n) ?s1"
      using v D Some by (simp add: rw_join_def redis_step kv bulk_reply_def)
    obtain s' where s': "rw_refresh R K m now timeout (k n) ?s1 = k n s'"
        "clock s' = clock s" "db s' = set_ttl (set_ttl (set_ttl (put_hash (db s) (WaiterTS K)
      (AList.update m (inum now) (hashv (db s) (WaiterTS K)))) (Waiters K) (clock s + timeout))
      (WaiterTS K) (clock s + timeout)) (Seq K) (clock s + timeout)"
      using rw_refresh_exec [OF K _ t, of ?s1 m now "k n"] v D by (auto simp: d1 kv)
    have "db s (Waiters K) \<noteq> None" using q v zsetv_empty [of s "Waiters K"] by simp
    then have "shows_rw (db s') K (joined m now (clock s + timeout) st)"
      using v D Some q by (simp add: s'(3) kv shows_rw_def joined_def Let_def)
    then show ?thesis using eq s' Some by (auto simp: arrival_def)
  qed
qed

lemma purge_exec:
  assumes K: "rw_distinct K" and "shows_rw (db s) K st" "zwf (queue st)" "length (queue st) < fuel"
  shows "\<exists>s'. purge_waiters R K now timeout fuel k s = k s' \<and> clock s' = clock s \<and>
    shows_rw (db s') K (purge (now - timeout) st)"
  using assms(2-4)
proof (induction fuel arbitrary: s st)
  case (Suc fuel)
  note D = rw_keys_ne [OF K]
  note v = Suc.prems(1) [unfolded shows_rw_def]
  show ?case
  proof (cases "queue st")
    case Nil
    then have "shows_rw (db (after R (ZRANGE_0_0 (Waiters K)) s)) K (purge (now - timeout) st)"
      using Suc.prems(1) v by (simp add: redis_step purge_stop)
    then show ?thesis using v Nil
      by (intro exI [of _ "after R (ZRANGE_0_0 (Waiters K)) s"]) (simp add: redis_step)
  next
    case (Cons p z)
    let ?h = "fst p"
    let ?s2 = "after R (HGET (WaiterTS K) ?h) (after R (ZRANGE_0_0 (Waiters K)) s)"
    let ?s4 = "after R (HDEL (WaiterTS K) ?h) (after R (ZREM (Waiters K) ?h) ?s2)"
    have s2: "db ?s2 = db s" "clock ?s2 = clock s" using v by (simp_all add: redis_step)
    show ?thesis
    proof (cases "stale (beats st) (now - timeout) ?h")
      case False
      then have "shows_rw (db ?s2) K (purge (now - timeout) st)"
        using Suc.prems(1) Cons by (simp add: s2 purge_stop)
      then show ?thesis using v Cons False
        by (intro exI [of _ ?s2]) (simp add: redis_step stale_def)
    next
      case True
      let ?st = "leave ?h st"
      have z: "zrem ?h (queue st) = z"
        using Suc.prems(2) Cons zrem_head by simp
      have h: "beats st \<noteq> []" using True by (auto simp: stale_def older_def bulk_reply_def)
      have "shows_rw (db ?s4) K ?st"
        using v D h Cons z by (simp add: redis_step kv shows_rw_def leave_def)
      moreover have "zwf (queue ?st)" "length (queue ?st) < fuel"
        using Suc.prems(2,3) Cons z by (simp_all add: leave_def zwf_def)
      ultimately obtain s' where s': "purge_waiters R K now timeout fuel k ?s4 = k s'" "clock s' = clock s"
          "shows_rw (db s') K (purge (now - timeout) ?st)"
        using Suc.IH [of ?s4 ?st] by (auto simp: redis_step)
      have "purge (now - timeout) ?st = purge (now - timeout) st"
        using True Cons z by (simp add: purge_def leave_def)
      moreover have "purge_waiters R K now timeout (Suc fuel) k s = purge_waiters R K now timeout fuel k ?s4"
        using v D Cons True by (simp add: redis_step kv stale_def)
      ultimately show ?thesis using s' by auto
    qed
  qed
qed simp

lemma take_write_exec:
  assumes K: "rw_distinct K" and st: "shows_rw (db s) K st" "0 \<le> wfence st" "wfence st + 1 < 2 ^ 53" and ttl: "0 < ttl"
  shows "\<exists>s'. rw_take_write R K token ttl now m s =
      (if behind m (queue st) \<or> wr st \<noteq> None \<or> reclaim now (rd st) \<noteq> []
       then (Inr SNil, s') else (Inr (SInt (wfence st + 1)), s')) \<and> clock s' = clock s \<and>
    shows_rw (db s') K
      (if behind m (queue st) \<or> wr st \<noteq> None then st
       else if reclaim now (rd st) \<noteq> [] then st\<lparr>rd := reclaim now (rd st)\<rparr>
       else leave m (st\<lparr>rd := [], wr := Some (token, clock s + ttl), wfence := wfence st + 1\<rparr>))"
proof -
  note D = rw_keys_ne [OF K]
  note v = st(1) [unfolded shows_rw_def]
  let ?s1 = "after R (ZRANGE_0_0 (Waiters K)) s"
  let ?s2 = "after R (EXISTS (Writer K)) ?s1"
  let ?s3 = "after R (ZREMRANGEBYSCORE (Readers K) now) ?s2"
  let ?s4 = "after R (ZCARD (Readers K)) ?s3"
  have d: "db ?s1 = db s" "db ?s2 = db s" "db ?s4 = put_zset (db s) (Readers K) (reclaim now (rd st))"
    using v D by (simp_all add: redis_step kv reclaim_def)
  show ?thesis
  proof (cases "behind m (queue st)")
    case True
    then show ?thesis using v st(1) d
      by (intro exI [of _ ?s1]) (simp add: rw_take_write_def redis_step head_behind lua_return_def)
  next
    case head: False
    show ?thesis
    proof (cases "wr st = None")
      case False
      then obtain t e where "wr st = Some (t, e)" by auto
      then show ?thesis using v st(1) d head
        by (intro exI [of _ ?s2]) (auto simp: rw_take_write_def redis_step head_behind lua_return_def)
    next
      case wr: True
      have eq: "rw_take_write R K token ttl now m s =
          (if int (length (reclaim now (rd st))) > 0 then lua_return SNil
           else invoke R (SET_PX (Writer K) (Text token) ttl) (\<lambda>_.
             invoke R (ZREM (Waiters K) m) (\<lambda>_.
             invoke R (HDEL (WaiterTS K) m) (\<lambda>_.
             invoke R (INCR (Fencing K)) (\<lambda>f. lua_return (integer_reply f)))))) ?s4"
        using v D wr head
        by (simp add: rw_take_write_def redis_step kv head_behind reclaim_def)
      show ?thesis
      proof (cases "reclaim now (rd st) = []")
        case False
        then have "shows_rw (db ?s4) K (st\<lparr>rd := reclaim now (rd st)\<rparr>)"
          using v D by (simp add: d kv shows_rw_def)
        then show ?thesis using False wr head
          by (intro exI [of _ ?s4]) (simp add: eq lua_return_def redis_step)
      next
        case True
        let ?s5 = "after R (SET_PX (Writer K) (Text token) ttl) ?s4"
        let ?s6 = "after R (ZREM (Waiters K) m) ?s5"
        let ?s7 = "after R (HDEL (WaiterTS K) m) ?s6"
        let ?s8 = "after R (INCR (Fencing K)) ?s7"
        have n: "\<bar>wfence st + 1\<bar> < 2 ^ 63" "wfence st + 1 \<noteq> 0"
          using st(2,3) by simp_all
        have c: "clock ?s4 = clock s" by (simp add: redis_step)
        have d5: "db ?s5 = (put_zset (db s) (Readers K) [])(Writer K := Some (VStr (Text token), Some (clock s + ttl)))"
          using ttl True c by (simp add: write_after(2) d)
        have d7: "db ?s7 = put_hash (put_zset (db ?s5) (Waiters K) (zrem m (queue st))) (WaiterTS K)
            (AList.delete m (beats st))"
          using v D by (simp add: redis_step kv d5)
        have d8: "db ?s8 = put_str (db ?s7) (Fencing K) (inum (wfence st + 1))"
          using v D n by (simp add: redis_step kv d7 d5)
        have "shows_rw (db ?s8) K
            (leave m (st\<lparr>rd := [], wr := Some (token, clock s + ttl), wfence := wfence st + 1\<rparr>))"
          using v D n by (simp add: d8 d7 d5 kv shows_rw_def leave_def)
        then show ?thesis using True wr head v D n ttl
          by (intro exI [of _ ?s8]) (simp add: eq redis_step kv d5 d7 lua_return_def)
      qed
    qed
  qed
qed

lemma texts_below: "texts (RArr (map (\<lambda>p. Text (fst p)) z)) = map fst z"
  by (induction z) (simp_all add: texts_def List.map_filter_simps)

lemma take_read_exec:
  assumes K: "rw_distinct K" and st: "shows_rw (db s) K st"
  shows "\<exists>s'. rw_take_read R K token ttl now m n s =
      (if wr st \<noteq> None \<or> writer_before n (queue st)
       then (Inr SNil, s') else (Inr (SInt 1), s')) \<and> clock s' = clock s \<and>
    shows_rw (db s') K
      (if wr st \<noteq> None \<or> writer_before n (queue st) then st
       else leave m (st\<lparr>rd := zadd token (now + ttl) (rd st)\<rparr>))"
proof -
  note D = rw_keys_ne [OF K]
  note v = st [unfolded shows_rw_def]
  let ?s1 = "after R (EXISTS (Writer K)) s"
  let ?s2 = "after R (ZRANGEBYSCORE_below (Waiters K) n) ?s1"
  let ?B = "writer_before n (queue st)"
  have ahead: "list_ex (\<lambda>m. take 2 m = ''W:'') (map fst (filter (\<lambda>p. snd p < n) (queue st))) = ?B"
    unfolding writer_before_def list_ex_iff by (simp add: image_iff Bex_def) blast
  have d: "db ?s1 = db s" "db ?s2 = db s" using v by (simp_all add: redis_step)
  show ?thesis
  proof (cases "wr st = None")
    case False
    then obtain t e where "wr st = Some (t, e)" by auto
    then show ?thesis using st d v
      by (intro exI [of _ ?s1]) (simp add: rw_take_read_def redis_step lua_return_def)
  next
    case wr: True
    have eq: "rw_take_read R K token ttl now m n s =
        (if ?B then lua_return SNil
         else invoke R (ZADD (Readers K) (now + ttl) token) (\<lambda>_.
           invoke R (ZREM (Waiters K) m) (\<lambda>_.
           invoke R (HDEL (WaiterTS K) m) (\<lambda>_. lua_return (SInt 1))))) ?s2"
      using v wr ahead by (simp add: rw_take_read_def redis_step texts_below)
    show ?thesis
    proof (cases ?B)
      case True
      then show ?thesis using wr st d by (intro exI [of _ ?s2]) (simp add: eq lua_return_def redis_step)
    next
      case False
      let ?s5 = "after R (HDEL (WaiterTS K) m) (after R (ZREM (Waiters K) m) (after R (ZADD (Readers K) (now + ttl) token) ?s2))"
      have d5: "db ?s5 = put_hash (put_zset (put_zset (db s) (Readers K) (zadd token (now + ttl) (rd st)))
          (Waiters K) (zrem m (queue st))) (WaiterTS K) (AList.delete m (beats st))"
        using v D by (simp add: redis_step kv)
      have "shows_rw (db ?s5) K (leave m (st\<lparr>rd := zadd token (now + ttl) (rd st)\<rparr>))"
        using v D by (simp add: d5 kv shows_rw_def leave_def)
      then show ?thesis using False wr v D
        by (intro exI [of _ ?s5]) (simp add: eq redis_step kv lua_return_def)
    qed
  qed
qed

text \<open>The invariants along the way.\<close>

end

lemma purged_suffix: "\<exists>ys. z = ys @ fst (purged t z h)"
  by (induction t z h rule: purged.induct) (auto, metis append_Cons)

lemma length_purged: "length (fst (purged t z h)) \<le> length z"
  by (induction t z h rule: purged.induct) auto

lemma purged_subset: "set (fst (purged t z h)) \<subseteq> set z"
  using purged_suffix [of z t h] by (auto intro: ccontr) (metis Un_iff set_append)

lemma zwf_purged: "zwf z \<Longrightarrow> zwf (fst (purged t z h))"
proof -
  assume "zwf z"
  moreover obtain ys where "z = ys @ fst (purged t z h)" using purged_suffix by blast
  ultimately show ?thesis
    by (metis distinct_append map_append sorted_wrt_append zwf_def)
qed

lemma purge_simps [simp]:
  "wr (purge t st) = wr st" "rd (purge t st) = rd st" "wfence (purge t st) = wfence st"
  "seqn (purge t st) = seqn st" "qexp (purge t st) = qexp st"
  by (simp_all add: purge_def)

lemma joined_simps [simp]:
  "wr (joined m now e st) = wr st" "rd (joined m now e st) = rd st" "wfence (joined m now e st) = wfence st"
  "qexp (joined m now e st) = Some e"
  by (simp_all add: joined_def Let_def)

lemma leave_simps [simp]:
  "wr (leave m st) = wr st" "rd (leave m st) = rd st" "wfence (leave m st) = wfence st"
  "seqn (leave m st) = seqn st" "qexp (leave m st) = qexp st"
  by (simp_all add: leave_def)

lemma zadd_last:
  assumes "zwf z" "map_of z m = None" "\<forall>p \<in> set z. snd p < n"
  shows "zadd m n z = z @ [(m, n)]"
proof -
  have "zrem m z = z"
    using assms(2) by (force simp: zrem_def filter_id_conv map_of_eq_None_iff)
  then show ?thesis using assms(3) by (simp add: zadd_def zinsert_last zless_def)
qed

lemma joined_queue:
  assumes "rw_ok st"
  shows "queue (joined m now e st) =
    (if map_of (queue st) m = None then queue st @ [(m, seqn st + 1)] else queue st)"
proof -
  have "\<forall>p \<in> set (queue st). snd p < seqn st + 1" using assms by (auto simp: rw_ok_def)
  then show ?thesis using zadd_last [of "queue st" m] assms by (simp add: joined_def Let_def rw_ok_def)
qed

lemma rw_ok_joined:
  assumes "rw_ok st"
  shows "rw_ok (joined m now e st)"
proof -
  have "zwf (queue (joined m now e st))" using assms by (simp add: joined_def Let_def rw_ok_def zwf_zadd)
  moreover have "distinct (map snd (queue (joined m now e st)))"
    using assms by (force simp: joined_queue rw_ok_def)
  moreover have "\<forall>p \<in> set (queue (joined m now e st)). 0 < snd p \<and> snd p \<le> seqn (joined m now e st)"
    using assms unfolding joined_queue [OF assms] by (auto simp: rw_ok_def joined_def Let_def)
  moreover have "0 < seqn (joined m now e st)"
    using assms by (cases "map_of (queue st) m") (auto simp: rw_ok_def joined_def Let_def)
  ultimately show ?thesis using assms by (simp add: rw_ok_def)
qed

lemma rw_ok_purge: "rw_ok st \<Longrightarrow> rw_ok (purge t st)"
proof -
  assume ok: "rw_ok st"
  have "purged t (queue st) (beats st) = ([], []) \<or> 0 < seqn st"
    using ok by (cases "queue st = [] \<and> beats st = []") (auto simp: rw_ok_def)
  moreover obtain ys where "queue st = ys @ fst (purged t (queue st) (beats st))" using purged_suffix by blast
  then have "distinct (map snd (fst (purged t (queue st) (beats st))))"
    using ok by (metis distinct_append map_append rw_ok_def)
  ultimately show ?thesis
    using ok purged_subset [of t "queue st" "beats st"]
    by (auto simp: rw_ok_def purge_def zwf_purged)
qed

lemma rw_ok_leave: "rw_ok st \<Longrightarrow> rw_ok (leave m st)"
  by (cases "queue st = [] \<and> beats st = []") (auto simp: rw_ok_def leave_def set_zrem zwf_zrem zrem_def [of _ "queue st"] distinct_map_filter zwf_filter)

lemma length_joined: "length (queue (joined m now e st)) \<le> Suc (length (queue st))"
proof -
  have "length (zadd m n z) \<le> Suc (length z)" for n z
    by (simp add: length_zadd zrem_def)
  then show ?thesis by (simp add: joined_def Let_def)
qed

lemma rw_ok_rd: "rw_ok st \<Longrightarrow> zwf z \<Longrightarrow> wr st = None \<Longrightarrow> rw_ok (st\<lparr>rd := z\<rparr>)"
  by (simp add: rw_ok_def)

lemma rw_ok_wr: "rw_ok st \<Longrightarrow> 0 \<le> f \<Longrightarrow> rw_ok (st\<lparr>rd := [], wr := x, wfence := f\<rparr>)"
  by (simp add: rw_ok_def)

lemma rw_ok_write:
  assumes "rw_ok st"
  shows "rw_ok (snd (rw_write token ttl now timeout T st))"
proof -
  let ?st = "purge (now - timeout) (joined (''W:'' @ token) now (T + timeout) st)"
  have ok: "rw_ok ?st" by (intro rw_ok_purge rw_ok_joined assms)
  have z: "zwf (reclaim now (rd st))" and f: "0 \<le> wfence st + 1"
    using assms by (simp_all add: rw_ok_def zwf_reclaim)
  show ?thesis
  proof (cases "wr st")
    case None
    then show ?thesis
      using assms ok rw_ok_rd [OF ok z] rw_ok_wr [OF ok f]
      by (simp add: rw_write_def Let_def rw_ok_leave)
  next
    case (Some p)
    then show ?thesis using assms ok by (simp add: rw_write_def Let_def)
  qed
qed

lemma rw_ok_read:
  assumes "rw_ok st"
  shows "rw_ok (snd (rw_read token ttl now timeout T st))"
proof -
  let ?st = "purge (now - timeout) (joined (''R:'' @ token) now (T + timeout) st)"
  have ok: "rw_ok ?st" by (intro rw_ok_purge rw_ok_joined assms)
  have z: "zwf (zadd token (now + ttl) (rd st))" using assms by (simp add: rw_ok_def zwf_zadd)
  show ?thesis
    using assms ok rw_ok_rd [OF ok z] by (cases "wr st") (simp_all add: rw_read_def Let_def rw_ok_leave)
qed

context redis_server
begin

lemma rw_write_refines:
  assumes K: "rw_distinct K" and st: "shows_rw (db s) K st" "rw_ok st" "rw_room st"
    and t: "0 < ttl" "0 < timeout" and fuel: "Suc (length (queue st)) < fuel"
  shows "\<exists>s'. rw_write_lock R fuel K token ttl now timeout s =
      (Inr (fence_reply (fst (rw_write token ttl now timeout (clock s) st))), s') \<and> clock s' = clock s \<and>
    shows_rw (db s') K (snd (rw_write token ttl now timeout (clock s) st))"
proof -
  note D = rw_keys_ne [OF K]
  note v = st(1) [unfolded shows_rw_def]
  let ?s1 = "after R (GET (Writer K)) s" and ?m = "''W:'' @ token"
  have w: "is_str (db s) (Writer K)" "strv (db s) (Writer K) = map_option (\<lambda>p. Text (fst p)) (wr st)"
    using v by (auto simp: is_str_def strv_def split: option.splits)
  have d1: "db ?s1 = db s" "clock ?s1 = clock s" using w by (simp_all add: redis_step)
  show ?thesis
  proof (cases "map_option fst (wr st) = Some token")
    case True
    have f: "strv (db s) (Fencing K) = (if wfence st = 0 then None else Some (inum (wfence st)))"
      using strv_counter [of "db s" "Fencing K" "wfence st"] v by auto
    have "is_str (db s) (Fencing K)" using v by (auto simp: counter_def is_str_def split: option.splits rval.splits)
    then show ?thesis using True w f st(1) d1
      by (intro exI [of _ "after R (GET (Fencing K)) ?s1"])
        (auto simp: rw_write_lock_def rw_write_def Let_def redis_step bulk_reply_def lua_return_def fence_reply_def)
  next
    case False
    then have eq: "rw_write_lock R fuel K token ttl now timeout s =
        rw_join R K ?m now timeout (\<lambda>_. purge_waiters R K now timeout fuel (rw_take_write R K token ttl now ?m)) ?s1"
      using w by (cases "wr st") (auto simp: rw_write_lock_def Let_def redis_step bulk_reply_def)
    let ?k = "\<lambda>n::int. purge_waiters R K now timeout fuel (rw_take_write R K token ttl now ?m)"
    let ?st2 = "joined ?m now (clock s + timeout) st"
    let ?st3 = "purge (now - timeout) ?st2"
    obtain s2 where s2: "rw_join R K ?m now timeout ?k ?s1 = ?k (arrival ?m st) s2" "clock s2 = clock s"
        "shows_rw (db s2) K ?st2"
      using rw_join_exec [OF K, of ?s1 st timeout ?m now ?k] st t(2) d1 by auto
    have ok: "rw_ok ?st2" "rw_ok ?st3" using st(2) by (auto intro: rw_ok_joined rw_ok_purge)
    then obtain s3 where s3: "?k (arrival ?m st) s2 = rw_take_write R K token ttl now ?m s3" "clock s3 = clock s"
        "shows_rw (db s3) K ?st3"
      using purge_exec [OF K s2(3), of fuel now timeout] s2(2) fuel length_joined [of ?m now "clock s + timeout" st]
      by (fastforce simp: rw_ok_def)
    have f: "0 \<le> wfence ?st3" "wfence ?st3 + 1 < 2 ^ 53" using ok(2) st(3) by (simp_all add: rw_ok_def rw_room_def)
    obtain s4 where s4: "rw_take_write R K token ttl now ?m s3 =
      (if behind ?m (queue ?st3) \<or> wr ?st3 \<noteq> None \<or> reclaim now (rd ?st3) \<noteq> []
       then (Inr SNil, s4) else (Inr (SInt (wfence ?st3 + 1)), s4))" "clock s4 = clock s"
      "shows_rw (db s4) K
      (if behind ?m (queue ?st3) \<or> wr ?st3 \<noteq> None then ?st3
       else if reclaim now (rd ?st3) \<noteq> [] then ?st3\<lparr>rd := reclaim now (rd ?st3)\<rparr>
       else leave ?m (?st3\<lparr>rd := [], wr := Some (token, clock s + ttl), wfence := wfence ?st3 + 1\<rparr>))"
      using take_write_exec [OF K s3(3) f t(1), of token now ?m] unfolding s3(2) by blast
    have run: "rw_write_lock R fuel K token ttl now timeout s =
        (if behind ?m (queue ?st3) \<or> wr ?st3 \<noteq> None \<or> reclaim now (rd ?st3) \<noteq> []
         then (Inr SNil, s4) else (Inr (SInt (wfence ?st3 + 1)), s4))"
      using eq s2(1) s3(1) s4(1) by metis
    show ?thesis
      using False s4(2,3)
      by (cases "wr st"; cases "behind ?m (queue ?st3)"; cases "reclaim now (rd ?st3) = []";
          intro exI [of _ s4])
        (simp_all add: run rw_write_def Let_def fence_reply_def)
  qed
qed

lemma rw_read_refines:
  assumes K: "rw_distinct K" and st: "shows_rw (db s) K st" "rw_ok st" "rw_room st"
    and t: "0 < timeout" and fuel: "Suc (length (queue st)) < fuel"
  shows "\<exists>s'. rw_read_lock R fuel K token ttl now timeout s =
      (Inr (fence_reply (fst (rw_read token ttl now timeout (clock s) st))), s') \<and> clock s' = clock s \<and>
    shows_rw (db s') K (snd (rw_read token ttl now timeout (clock s) st))"
proof -
  note D = rw_keys_ne [OF K]
  note v = st(1) [unfolded shows_rw_def]
  let ?s1 = "after R (ZSCORE (Readers K) token) s" and ?m = "''R:'' @ token"
  have d1: "db ?s1 = db s" "clock ?s1 = clock s" using v by (simp_all add: redis_step)
  show ?thesis
  proof (cases "case map_of (rd st) token of Some e \<Rightarrow> now < e | None \<Rightarrow> False")
    case True
    then obtain e where "map_of (rd st) token = Some e" "now < e" by (auto split: option.splits)
    then show ?thesis using v st(1) d1
      by (intro exI [of _ ?s1]) (simp add: rw_read_lock_def rw_read_def Let_def redis_step bulk_reply_def lua_return_def fence_reply_def)
  next
    case False
    let ?k = "\<lambda>n. purge_waiters R K now timeout fuel (rw_take_read R K token ttl now ?m n)"
    have eq: "rw_read_lock R fuel K token ttl now timeout s = rw_join R K ?m now timeout ?k ?s1"
      using v False by (cases "map_of (rd st) token") (simp_all add: rw_read_lock_def Let_def redis_step bulk_reply_def)
    let ?st2 = "joined ?m now (clock s + timeout) st"
    let ?st3 = "purge (now - timeout) ?st2"
    obtain s2 where s2: "rw_join R K ?m now timeout ?k ?s1 = ?k (arrival ?m st) s2" "clock s2 = clock s"
        "shows_rw (db s2) K ?st2"
      using rw_join_exec [OF K, of ?s1 st timeout ?m now ?k] st t d1 by auto
    have ok: "zwf (queue ?st2)" using rw_ok_joined [OF st(2), of ?m now "clock s + timeout"] by (simp add: rw_ok_def)
    then obtain s3 where s3: "?k (arrival ?m st) s2 = rw_take_read R K token ttl now ?m (arrival ?m st) s3"
        "clock s3 = clock s" "shows_rw (db s3) K ?st3"
      using purge_exec [OF K s2(3) ok, of fuel now timeout] s2(2) fuel length_joined [of ?m now "clock s + timeout" st]
      by fastforce
    obtain s4 where s4: "rw_take_read R K token ttl now ?m (arrival ?m st) s3 =
      (if wr ?st3 \<noteq> None \<or> writer_before (arrival ?m st) (queue ?st3)
       then (Inr SNil, s4) else (Inr (SInt 1), s4))" "clock s4 = clock s"
      "shows_rw (db s4) K (if wr ?st3 \<noteq> None \<or> writer_before (arrival ?m st) (queue ?st3) then ?st3
       else leave ?m (?st3\<lparr>rd := zadd token (now + ttl) (rd ?st3)\<rparr>))"
      using take_read_exec [OF K s3(3), of token ttl now ?m "arrival ?m st"] s3(2) by auto
    have run: "rw_read_lock R fuel K token ttl now timeout s =
        (if wr ?st3 \<noteq> None \<or> writer_before (arrival ?m st) (queue ?st3)
         then (Inr SNil, s4) else (Inr (SInt 1), s4))"
      using eq s2(1) s3(1) s4(1) by metis
    show ?thesis
      using False s4(2,3)
      by (cases "wr st"; cases "writer_before (arrival ?m st) (queue ?st3)"; intro exI [of _ s4])
        (simp_all add: run rw_read_def Let_def fence_reply_def)
  qed
qed

end

end
