(* ===== verification/Rwfair.thy ===== *)
theory Rwfair
  imports Rwlock
begin

text \<open>
  What the arrival queue of the read-write lock guarantees: who is granted and when, that a
  waiter keeps its place, that readers and writers exclude each other in every reachable state
  of the server, and what a failed clean-up of the queue does to everyone behind it.
\<close>

section \<open>The queue\<close>

lemma map_of_AList_delete: "map_of (AList.delete k h) x = (if x = k then None else map_of h x)"
  by (simp add: delete_conv')

lemma map_of_AList_update: "map_of (AList.update k v h) x = (if x = k then Some v else map_of h x)"
  by (simp add: update_conv')

text \<open>The purge drops the longest stale prefix.\<close>

lemma purged_dropWhile:
  "distinct (map fst z) \<Longrightarrow> fst (purged t z h) = dropWhile (\<lambda>p. stale h t (fst p)) z"
proof (induction t z h rule: purged.induct)
  case (2 t p z h)
  have "stale (AList.delete (fst p) h) t (fst q) = stale h t (fst q)" if "q \<in> set z" for q
  proof -
    have "fst q \<noteq> fst p" using "2.prems" that by (metis distinct.simps(2) imageI list.set_map list.simps(9))
    then show ?thesis by (simp add: stale_def map_of_AList_delete)
  qed
  then have "dropWhile (\<lambda>q. stale (AList.delete (fst p) h) t (fst q)) z = dropWhile (\<lambda>q. stale h t (fst q)) z"
    by (intro dropWhile_cong) auto
  with 2 show ?case by simp
qed simp

lemma beats_joined: "beats (joined m now e st) = AList.update m (inum now) (beats st)"
  by (simp add: joined_def Let_def)

lemma stale_joined:
  "0 < timeout \<Longrightarrow> stale (beats (joined m now e st)) (now - timeout) x =
     (x \<noteq> m \<and> stale (beats st) (now - timeout) x)"
  by (simp add: stale_def beats_joined map_of_AList_update bulk_reply_def older_def del: of_int_diff)

definition waiting :: "string \<Rightarrow> int \<Rightarrow> int \<Rightarrow> rw_state \<Rightarrow> zset" where
  "waiting m now timeout st =
     dropWhile (\<lambda>p. fst p \<noteq> m \<and> stale (beats st) (now - timeout) (fst p))
       (if map_of (queue st) m = None then queue st @ [(m, seqn st + 1)] else queue st)"

lemma queue_attempt:
  assumes "rw_ok st" "0 < timeout"
  shows "queue (purge (now - timeout) (joined m now e st)) = waiting m now timeout st"
proof -
  have "distinct (map fst (queue (joined m now e st)))"
    using rw_ok_joined [OF assms(1), of m now e] by (simp add: rw_ok_def zwf_def)
  then have "queue (purge (now - timeout) (joined m now e st)) =
      dropWhile (\<lambda>p. stale (beats (joined m now e st)) (now - timeout) (fst p)) (queue (joined m now e st))"
    using purged_dropWhile by (simp add: purge_def)
  then show ?thesis
    unfolding stale_joined [OF assms(2)] joined_queue [OF assms(1)] waiting_def .
qed

text \<open>The caller's entry splits the queue into those ahead of it and those behind.\<close>

lemma queue_split:
  assumes ok: "rw_ok st"
  obtains as bs where
    "(if map_of (queue st) m = None then queue st @ [(m, seqn st + 1)] else queue st) = as @ (m, arrival m st) # bs"
    "m \<notin> fst ` set as" "as = filter (\<lambda>p. snd p < arrival m st) (queue st)"
proof -
  have lt: "\<forall>p \<in> set (queue st). snd p < seqn st + 1" using ok by (auto simp: rw_ok_def)
  show ?thesis
  proof (cases "map_of (queue st) m")
    case None
    have a: "arrival m st = seqn st + 1" "m \<notin> fst ` set (queue st)"
      using None by (simp add: arrival_def, simp add: map_of_eq_None_iff)
    have "filter (\<lambda>p. snd p < arrival m st) (queue st) = queue st"
      using lt a(1) by (simp add: filter_id_conv)
    then show ?thesis using None a by (intro that [of "queue st" "[]"]) simp_all
  next
    case (Some n)
    then obtain as bs where q: "queue st = as @ (m, n) # bs" by (meson map_of_SomeD split_list)
    have "sorted_wrt zless (queue st)" "distinct (map fst (queue st))" "distinct (map snd (queue st))"
      using ok by (auto simp: rw_ok_def zwf_def)
    then have s: "\<forall>p \<in> set as. zless p (m, n)" "\<forall>p \<in> set bs. zless (m, n) p" "m \<notin> fst ` set as"
      "n \<notin> snd ` set as"
      unfolding q by (simp_all add: sorted_wrt_append)
    have "snd p \<noteq> n" if "p \<in> set as" for p using s(4) that by (metis imageI)
    then have "\<forall>p \<in> set as. snd p < n" "\<forall>p \<in> set bs. \<not> snd p < n"
      using s(1,2) by (auto simp: zless_def)
    then have "filter (\<lambda>p. snd p < n) (queue st) = as"
      unfolding q by (simp add: filter_id_conv filter_empty_conv)
    then show ?thesis using Some q s(3) by (intro that [of as bs]) (simp_all add: arrival_def)
  qed
qed

lemma behind_dropWhile:
  assumes "\<not> P (m, n)" "m \<notin> fst ` set as"
  shows "behind m (dropWhile P (as @ (m, n) # bs)) \<longleftrightarrow> (\<exists>q \<in> set as. \<not> P q)"
proof (cases "\<forall>q \<in> set as. P q")
  case True
  then show ?thesis using assms(1) by (simp add: dropWhile_append2 behind_def)
next
  case False
  then have ne: "dropWhile P as \<noteq> []" by (simp add: dropWhile_eq_Nil_conv)
  then have "hd (dropWhile P as) \<in> set as" by (meson hd_in_set set_dropWhileD)
  then have "fst (hd (dropWhile P as)) \<noteq> m" using assms(2) by (metis imageI)
  moreover have "dropWhile P (as @ (m, n) # bs) = dropWhile P as @ (m, n) # bs"
    using False dropWhile_append1 by metis
  moreover have "\<exists>q \<in> set as. \<not> P q" using False by blast
  ultimately show ?thesis using ne by (simp add: behind_def)
qed

lemma behind_waiting:
  assumes "rw_ok st"
  shows "behind m (waiting m now timeout st) \<longleftrightarrow>
    (\<exists>p \<in> set (queue st). snd p < arrival m st \<and> \<not> stale (beats st) (now - timeout) (fst p))"
proof -
  obtain as bs where q: "(if map_of (queue st) m = None then queue st @ [(m, seqn st + 1)] else queue st) =
      as @ (m, arrival m st) # bs"
    and a: "m \<notin> fst ` set as" "as = filter (\<lambda>p. snd p < arrival m st) (queue st)"
    using queue_split [OF assms] .
  have "fst p \<noteq> m" if "p \<in> set as" for p using a(1) that by (metis imageI)
  then have "(\<exists>p \<in> set as. \<not> (fst p \<noteq> m \<and> stale (beats st) (now - timeout) (fst p))) \<longleftrightarrow>
      (\<exists>p \<in> set as. \<not> stale (beats st) (now - timeout) (fst p))" by blast
  also have "\<dots> \<longleftrightarrow> (\<exists>p \<in> set (queue st). snd p < arrival m st \<and> \<not> stale (beats st) (now - timeout) (fst p))"
    unfolding a(2) set_filter by blast
  finally show ?thesis
    unfolding waiting_def q by (subst behind_dropWhile [OF _ a(1)]) simp_all
qed

lemma writer_before_dropWhile:
  assumes "sorted_wrt (\<lambda>p q. snd p < snd q) z"
  shows "writer_before n (dropWhile P z) \<longleftrightarrow>
    (\<exists>p \<in> set z. snd p < n \<and> take 2 (fst p) = ''W:'' \<and> (\<exists>q \<in> set z. snd q \<le> snd p \<and> \<not> P q))"
  using assms
proof (induction z)
  case (Cons p z)
  show ?case
  proof (cases "P p")
    case True
    have "\<not> (\<exists>q \<in> set z. snd q \<le> snd p \<and> \<not> P q)" using Cons.prems by force
    moreover have "sorted_wrt (\<lambda>p q. snd p < snd q) z" using Cons.prems by simp
    ultimately show ?thesis using True Cons.IH by simp blast
  next
    case False
    have "snd p \<le> snd r" if "r \<in> set (p # z)" for r
      using Cons.prems that less_imp_le by (metis order_refl set_ConsD sorted_wrt.simps(2))
    then have "\<exists>q \<in> set (p # z). snd q \<le> snd r \<and> \<not> P q" if "r \<in> set (p # z)" for r
      using False that list.set_intros(1) by metis
    moreover have "dropWhile P (p # z) = p # z" using False by simp
    ultimately show ?thesis unfolding writer_before_def by metis
  qed
qed (simp add: writer_before_def)

section \<open>Who is granted\<close>

lemma sorted_by_arrival:
  assumes "rw_ok st"
  shows "sorted_wrt (\<lambda>p q. snd p < snd q) (queue st)"
proof -
  have "sorted_wrt zless z \<Longrightarrow> distinct (map snd z) \<Longrightarrow> sorted_wrt (\<lambda>p q. snd p < snd q) z" for z
  proof (induction z)
    case (Cons p z)
    then have "snd p < snd q" if "q \<in> set z" for q
      using that imageI [OF that, of snd] by (fastforce simp: zless_def)
    with Cons show ?case by simp
  qed simp
  then show ?thesis using assms by (simp add: rw_ok_def zwf_def)
qed

lemma write_granted_iff:
  assumes ok: "rw_ok st" and t: "0 < timeout" and new: "map_option fst (wr st) \<noteq> Some token"
  shows "fst (rw_write token ttl now timeout T st) \<noteq> None \<longleftrightarrow>
    wr st = None \<and> (\<forall>p \<in> set (rd st). snd p \<le> now) \<and>
    (\<forall>p \<in> set (queue st). snd p < arrival (''W:'' @ token) st \<longrightarrow> stale (beats st) (now - timeout) (fst p))"
proof -
  have rd: "reclaim now (rd st) = [] \<longleftrightarrow> (\<forall>p \<in> set (rd st). snd p \<le> now)"
    by (auto simp: reclaim_def filter_empty_conv)
  note b = behind_waiting [OF ok, of "''W:'' @ token" now timeout]
  show ?thesis
    using new by (cases "wr st") (simp_all add: rw_write_def Let_def queue_attempt [OF ok t, simplified] b [simplified] rd)
qed

lemma read_granted_iff:
  assumes ok: "rw_ok st" and t: "0 < timeout"
    and new: "\<not> (case map_of (rd st) token of Some e \<Rightarrow> now < e | None \<Rightarrow> False)"
  shows "fst (rw_read token ttl now timeout T st) \<noteq> None \<longleftrightarrow>
    wr st = None \<and>
    (\<forall>p \<in> set (queue st). snd p < arrival (''R:'' @ token) st \<and> take 2 (fst p) = ''W:'' \<longrightarrow>
       (\<forall>q \<in> set (queue st). snd q \<le> snd p \<longrightarrow> stale (beats st) (now - timeout) (fst q)))"
proof -
  define m where "m = ''R:'' @ token"
  let ?z = "if map_of (queue st) m = None then queue st @ [(m, seqn st + 1)] else queue st"
  let ?P = "\<lambda>p. fst p \<noteq> m \<and> stale (beats st) (now - timeout) (fst p)"
  let ?a = "arrival m st"
  obtain as bs where q: "?z = as @ (m, ?a) # bs" and as: "m \<notin> fst ` set as"
      "as = filter (\<lambda>p. snd p < ?a) (queue st)"
    using queue_split [OF ok] .
  have z: "?z = queue (joined m now 0 st)" using joined_queue [OF ok] by simp
  have s: "sorted_wrt (\<lambda>p q. snd p < snd q) ?z"
    unfolding z by (intro sorted_by_arrival rw_ok_joined ok)
  have lt: "{p \<in> set ?z. snd p < ?a} = set as"
    using s unfolding q by (auto simp: sorted_wrt_append)
  have below: "{p \<in> set ?z. snd p \<le> snd r} = {p \<in> set as. snd p \<le> snd r}" if "snd r < ?a" for r
    using lt that by fastforce
  have ne: "fst p \<noteq> m" if "p \<in> set as" for p using as(1) that by (metis imageI)
  have "writer_before ?a (waiting m now timeout st) \<longleftrightarrow>
      (\<exists>p \<in> set as. take 2 (fst p) = ''W:'' \<and> (\<exists>q \<in> set as. snd q \<le> snd p \<and> \<not> stale (beats st) (now - timeout) (fst q)))"
    unfolding waiting_def writer_before_dropWhile [OF s] using lt below ne by blast
  also have "\<dots> \<longleftrightarrow> (\<exists>p \<in> set (queue st). snd p < ?a \<and> take 2 (fst p) = ''W:'' \<and>
      (\<exists>q \<in> set (queue st). snd q \<le> snd p \<and> \<not> stale (beats st) (now - timeout) (fst q)))"
    unfolding as(2) set_filter using order.strict_trans1 by blast
  finally have w: "writer_before ?a (waiting m now timeout st) \<longleftrightarrow>
      (\<exists>p \<in> set (queue st). snd p < ?a \<and> take 2 (fst p) = ''W:'' \<and>
      (\<exists>q \<in> set (queue st). snd q \<le> snd p \<and> \<not> stale (beats st) (now - timeout) (fst q)))" .
  have "fst (rw_read token ttl now timeout T st) \<noteq> None \<longleftrightarrow>
      wr st = None \<and> \<not> writer_before ?a (waiting m now timeout st)"
    using new unfolding rw_read_def Let_def m_def [symmetric] queue_attempt [OF ok t]
    by (cases "wr st") simp_all
  with w show ?thesis unfolding m_def [symmetric] by blast
qed

text \<open>A blocked caller keeps its place, and a newcomer is last.\<close>

lemma waiting_mem: "rw_ok st \<Longrightarrow> (m, arrival m st) \<in> set (waiting m now timeout st)"
proof -
  assume ok: "rw_ok st"
  obtain as bs where q: "(if map_of (queue st) m = None then queue st @ [(m, seqn st + 1)] else queue st) =
      as @ (m, arrival m st) # bs" using queue_split [OF ok] .
  show ?thesis unfolding waiting_def q by (simp add: dropWhile_append)
qed

lemma waiting_subset: "set (waiting m now timeout st) \<subseteq> insert (m, arrival m st) (set (queue st))"
proof -
  have "set (dropWhile P z) \<subseteq> set z" for P and z :: zset by (meson set_dropWhileD subsetI)
  then show ?thesis
    unfolding waiting_def by (rule order.trans) (auto simp: arrival_def)
qed

lemma arrival_newest:
  "rw_ok st \<Longrightarrow> map_of (queue st) m = None \<Longrightarrow> p \<in> set (queue st) \<Longrightarrow> snd p < arrival m st"
  by (auto simp: rw_ok_def arrival_def)

lemma arrival_mem: "zwf (queue st) \<Longrightarrow> (m, n) \<in> set (queue st) \<Longrightarrow> arrival m st = n"
  by (simp add: arrival_def zwf_map_of [symmetric])


section \<open>The other operations on the lock\<close>

lemma keyspace_cong:
  assumes "d' j = d j"
  shows "is_str d' j = is_str d j" "is_zset d' j = is_zset d j" "is_hash d' j = is_hash d j"
    "strv d' j = strv d j" "zsetv d' j = zsetv d j" "hashv d' j = hashv d j" "ttlv d' j = ttlv d j"
    "counter d' j = counter d j"
  using assms by (simp_all add: kv_defs counter_def)

lemma shows_rw_readers:
  assumes "rw_distinct K" "shows_rw d K st" "only_zset d d' (Readers K) z"
  shows "shows_rw d' K (st\<lparr>rd := z\<rparr>)"
proof -
  have o: "d' j = d j" if "j \<noteq> Readers K" for j using assms(3) that by (simp add: only_zset_def)
  show ?thesis
    using assms(2,3) rw_keys_ne [OF assms(1)] o
    by (simp add: shows_rw_def only_zset_def keyspace_cong [of d' _ d])
qed

lemma shows_rw_writer:
  assumes "rw_distinct K" "shows_rw d K st"
  shows "shows_rw (d(Writer K := map_option (\<lambda>(t, e). (VStr (Text t), Some e)) x)) K (st\<lparr>wr := x\<rparr>)"
  using assms(2) rw_keys_ne [OF assms(1)]
  by (simp add: shows_rw_def keyspace_cong [of "d(Writer K := y)" _ d for y])

text \<open>Time passes: the writer may expire, and an idle queue is dropped with its sequence.\<close>

definition rw_elapsed :: "int \<Rightarrow> rw_state \<Rightarrow> rw_state \<Rightarrow> bool" where
  "rw_elapsed T st st' =
     (rd st' = rd st \<and> wfence st' = wfence st \<and>
      (wr st' = wr st \<or> (\<exists>t e. wr st = Some (t, e) \<and> e \<le> T \<and> wr st' = None)) \<and>
      ((queue st' = queue st \<and> beats st' = beats st \<and> seqn st' = seqn st \<and> qexp st' = qexp st) \<or>
       (\<exists>e. qexp st = Some e \<and> e \<le> T \<and> queue st' = [] \<and> beats st' = [] \<and> seqn st' = 0 \<and> qexp st' = None)))"

lemma rw_ok_elapsed:
  assumes "rw_ok st" "rw_elapsed T st st'"
  shows "rw_ok st'"
proof -
  have "wr st' \<noteq> None \<longrightarrow> rd st' = []"
    using assms by (cases "wr st") (auto simp: rw_ok_def rw_elapsed_def)
  moreover have "queue st' = [] \<and> beats st' = [] \<and> seqn st' = 0 \<or>
      queue st' = queue st \<and> beats st' = beats st \<and> seqn st' = seqn st"
    using assms(2) by (auto simp: rw_elapsed_def)
  ultimately show ?thesis
    using assms by (elim disjE conjE) (simp_all add: rw_ok_def rw_elapsed_def)
qed

context redis_server
begin

lemma writer_key:
  assumes "shows_rw (db s) K st"
  shows "is_str (db s) (Writer K)" "strv (db s) (Writer K) = map_option (\<lambda>p. Text (fst p)) (wr st)"
  using assms by (auto simp: shows_rw_def is_str_def strv_def split: option.splits)

lemma writer_release_exec:
  assumes K: "rw_distinct K" and st: "shows_rw (db s) K st"
  shows "\<exists>s'. single_release R (Writer K) token s = (Inr (bool_reply (map_option fst (wr st) = Some token)), s') \<and>
    clock s' = clock s \<and>
    shows_rw (db s') K (if map_option fst (wr st) = Some token then st\<lparr>wr := None\<rparr> else st)"
proof (cases "map_option fst (wr st) = Some token")
  case True
  let ?s1 = "after R (GET (Writer K)) s"
  let ?s2 = "after R (DEL (Writer K)) ?s1"
  have "db ?s2 = (db s)(Writer K := None)" using writer_key [OF st] by (simp add: redis_step)
  then have "shows_rw (db ?s2) K (st\<lparr>wr := None\<rparr>)" using shows_rw_writer [OF K st, of None] by simp
  moreover obtain e where "wr st = Some (token, e)" using True by auto
  ultimately show ?thesis using writer_key [OF st] st
    by (intro exI [of _ ?s2])
      (simp add: single_release_def redis_step bulk_reply_def bool_reply_def lua_return_def shows_rw_def)
next
  case False
  then show ?thesis using writer_key [OF st] st
    by (intro exI [of _ "after R (GET (Writer K)) s"])
      (cases "wr st", auto simp: single_release_def redis_step bulk_reply_def bool_reply_def lua_return_def)
qed

lemma writer_renew_exec:
  assumes K: "rw_distinct K" and st: "shows_rw (db s) K st" and ttl: "0 < ttl"
  shows "\<exists>s'. single_renew R (Writer K) token ttl s = (Inr (bool_reply (map_option fst (wr st) = Some token)), s') \<and>
    clock s' = clock s \<and>
    shows_rw (db s') K (if map_option fst (wr st) = Some token then st\<lparr>wr := Some (token, clock s + ttl)\<rparr> else st)"
proof (cases "map_option fst (wr st) = Some token")
  case True
  let ?s1 = "after R (GET (Writer K)) s"
  let ?s2 = "after R (PEXPIRE (Writer K) ttl) ?s1"
  obtain e where w: "wr st = Some (token, e)" using True by auto
  have "db ?s2 = (db s)(Writer K := Some (VStr (Text token), Some (clock s + ttl)))"
    using writer_key [OF st] ttl w st by (simp add: redis_step set_ttl_def shows_rw_def)
  then have "shows_rw (db ?s2) K (st\<lparr>wr := Some (token, clock s + ttl)\<rparr>)"
    using shows_rw_writer [OF K st, of "Some (token, clock s + ttl)"] by simp
  then show ?thesis using writer_key [OF st] st w
    by (intro exI [of _ ?s2])
      (simp add: single_renew_def redis_step bulk_reply_def bool_reply_def lua_return_def shows_rw_def)
next
  case False
  then show ?thesis using writer_key [OF st] st
    by (intro exI [of _ "after R (GET (Writer K)) s"])
      (cases "wr st", auto simp: single_renew_def redis_step bulk_reply_def bool_reply_def lua_return_def)
qed

lemma reader_renew_exec:
  assumes "rw_distinct K" and "shows_rw (db s) K st"
  shows "\<exists>s'. sem_renew R (Readers K) now ttl [token] s =
      (Inr (bool_reply (fst (pool_renew now ttl [token] (rd st)))), s') \<and> clock s' = clock s \<and>
    shows_rw (db s') K (st\<lparr>rd := snd (pool_renew now ttl [token] (rd st))\<rparr>)"
  using sem_renew_refines [of s "Readers K" now ttl "[token]"] shows_rw_readers [OF assms] assms(2)
  by (auto simp: shows_rw_def)

lemma reader_release_exec:
  assumes "rw_distinct K" and "shows_rw (db s) K st"
  shows "\<exists>s'. sem_release R (Readers K) [token] s = (Inr (SInt (owned_of (rd st) [token])), s') \<and>
    clock s' = clock s \<and> shows_rw (db s') K (st\<lparr>rd := pool_release [token] (rd st)\<rparr>)"
  using sem_release_refines [of s "Readers K" "[token]"] shows_rw_readers [OF assms] assms(2)
  by (auto simp: shows_rw_def)

lemma zrem_waiter_exec:
  assumes "rw_distinct K" and "shows_rw (db s) K st"
  shows "\<exists>r. redis_call R (ZREM (Waiters K) m) s = (Inr r, after R (ZREM (Waiters K) m) s) \<and>
    shows_rw (db (after R (ZREM (Waiters K) m) s)) K (st\<lparr>queue := zrem m (queue st)\<rparr>)"
proof -
  have z: "is_zset (db s) (Waiters K)" using assms(2) by (simp add: shows_rw_def)
  have "zrem m (queue st) \<noteq> [] \<Longrightarrow> queue st \<noteq> []" by auto
  then have "shows_rw (db (after R (ZREM (Waiters K) m) s)) K (st\<lparr>queue := zrem m (queue st)\<rparr>)"
    using assms(2) rw_keys_ne [OF assms(1)] z by (simp add: redis_step kv shows_rw_def)
  then show ?thesis using zrem_law [OF z, of m]
    by (cases "call R (ZREM (Waiters K) m) s") (auto simp: redis_call_def view_def after_def)
qed

lemma hdel_waiter_exec:
  assumes "rw_distinct K" and "shows_rw (db s) K st"
  shows "\<exists>r. redis_call R (HDEL (WaiterTS K) m) s = (Inr r, after R (HDEL (WaiterTS K) m) s) \<and>
    shows_rw (db (after R (HDEL (WaiterTS K) m) s)) K (st\<lparr>beats := AList.delete m (beats st)\<rparr>)"
proof -
  have z: "is_hash (db s) (WaiterTS K)" using assms(2) by (simp add: shows_rw_def)
  have "AList.delete m (beats st) \<noteq> [] \<Longrightarrow> beats st \<noteq> []" by auto
  then have "shows_rw (db (after R (HDEL (WaiterTS K) m) s)) K (st\<lparr>beats := AList.delete m (beats st)\<rparr>)"
    using assms(2) rw_keys_ne [OF assms(1)] z by (simp add: redis_step kv shows_rw_def)
  then show ?thesis using hdel_law [OF z, of m]
    by (cases "call R (HDEL (WaiterTS K) m) s") (auto simp: redis_call_def view_def after_def)
qed

end


context redis_server
begin

lemma rw_elapse_refines:
  assumes st: "shows_rw (db s) K st" and T: "clock s \<le> T"
  shows "\<exists>st'. shows_rw (db (elapse R T s)) K st' \<and> rw_elapsed T st st'"
proof -
  let ?d = "db (elapse R T s)"
  note v = st [unfolded shows_rw_def]
  have r: "?d (Readers K) = db s (Readers K)" "?d (Fencing K) = db s (Fencing K)"
    using v by (auto intro: elapse_without_ttl [OF T])
  obtain w where w: "?d (Writer K) = map_option (\<lambda>(t, e). (VStr (Text t), Some e)) w"
      "w = wr st \<or> (\<exists>t e. wr st = Some (t, e) \<and> e \<le> T \<and> w = None)"
  proof (cases rule: elapse_cases [OF T, of "Writer K"])
    case 1
    then show ?thesis using v that [of "wr st"] by simp
  next
    case (2 x e)
    have "map_option (\<lambda>(t, e). (VStr (Text t), Some e)) (wr st) = Some (x, Some e)"
      using 2(1) v by simp
    then obtain t where "wr st = Some (t, e)" by auto
    then show ?thesis using 2 that [of None] by simp
  qed
  note cong = keyspace_cong [of ?d _ "db s"]
  note frame = cong [OF r(1)] cong [OF r(2)] r
  consider (same) "?d (Waiters K) = db s (Waiters K)" "?d (WaiterTS K) = db s (WaiterTS K)" "?d (Seq K) = db s (Seq K)"
    | (gone) e where "qexp st = Some e" "e \<le> T" "?d (Waiters K) = None" "?d (WaiterTS K) = None" "?d (Seq K) = None"
  proof (cases "qexp st")
    case None
    then show ?thesis using v elapse_without_ttl [OF T] same by (simp split: if_splits)
  next
    case (Some e)
    have "ttlv (db s) (Seq K) = Some e" using v Some by simp
    then obtain x where x: "db s (Seq K) = Some (x, Some e)"
      by (auto simp: ttlv_def split: option.splits)
    have other: "db s j = None \<or> (\<exists>y. db s j = Some (y, Some e))" if "j = Waiters K \<or> j = WaiterTS K" for j
    proof -
      have "ttlv (db s) j = Some e \<or> db s j = None"
        using that v Some zsetv_empty [of s "Waiters K"] by (cases "queue st = []"; cases "beats st = []") auto
      then show ?thesis by (auto simp: ttlv_def split: option.splits)
    qed
    have tog: "?d j = (if ?d (Seq K) = None then None else db s j)" if "j = Waiters K \<or> j = WaiterTS K" for j
      using other [OF that] elapse_together [OF T _ x, of j] elapse_either [OF T, of j] elapse_absent [OF T, of j]
      by auto
    show ?thesis
    proof (cases "?d (Seq K) = None")
      case True
      then have "e \<le> T" using elapse_live [OF T x] by fastforce
      then show ?thesis using gone [OF Some] True tog by simp
    next
      case False
      have "?d (Seq K) = db s (Seq K)" using False elapse_either [OF T, of "Seq K"] by metis
      with False x show ?thesis using same tog by simp
    qed
  qed
  then show ?thesis
  proof cases
    case same
    have "shows_rw ?d K (st\<lparr>wr := w\<rparr>)"
      using v w(1) frame cong [OF same(1)] cong [OF same(2)] cong [OF same(3)] same
      by (simp add: shows_rw_def)
    then show ?thesis using w(2) by (intro exI [of _ "st\<lparr>wr := w\<rparr>"]) (simp add: rw_elapsed_def)
  next
    case (gone e)
    let ?st = "st\<lparr>wr := w, queue := [], beats := [], seqn := 0, qexp := None\<rparr>"
    have "shows_rw ?d K ?st"
      using v w(1) frame gone by (simp add: shows_rw_def) (simp add: kv_defs counter_def)
    then show ?thesis using w(2) gone(1,2) by (intro exI [of _ ?st]) (simp add: rw_elapsed_def)
  qed
qed

end

section \<open>Every state the server can reach\<close>

text \<open>
  Any client may run any of the operations at any time, with any clock reading; a clean-up of
  the queue is the two commands it sends, each of which may be lost.
\<close>

inductive rw_step :: "'s redis \<Rightarrow> ('s \<Rightarrow> int) \<Rightarrow> ('s \<Rightarrow> keyspace) \<Rightarrow> rw_keys \<Rightarrow> 's \<Rightarrow> 's \<Rightarrow> bool"
  for R :: "'s redis" and clock :: "'s \<Rightarrow> int" and db :: "'s \<Rightarrow> keyspace" and K :: rw_keys
where
  tick: "clock s \<le> T \<Longrightarrow> rw_step R clock db K s (elapse R T s)"
| attempt_write: "rw_write_lock R fuel K token ttl now timeout s = (Inr r, s') \<Longrightarrow> 0 < ttl \<Longrightarrow> 0 < timeout \<Longrightarrow>
    Suc (length (zsetv (db s) (Waiters K))) < fuel \<Longrightarrow>
    counter (db s) (Fencing K) = Some f \<Longrightarrow> f + 1 < 2 ^ 53 \<Longrightarrow>
    counter (db s) (Seq K) = Some n \<Longrightarrow> n + 1 < 2 ^ 53 \<Longrightarrow> rw_step R clock db K s s'"
| attempt_read: "rw_read_lock R fuel K token ttl now timeout s = (Inr r, s') \<Longrightarrow> 0 < timeout \<Longrightarrow>
    Suc (length (zsetv (db s) (Waiters K))) < fuel \<Longrightarrow>
    counter (db s) (Fencing K) = Some f \<Longrightarrow> f + 1 < 2 ^ 53 \<Longrightarrow>
    counter (db s) (Seq K) = Some n \<Longrightarrow> n + 1 < 2 ^ 53 \<Longrightarrow> rw_step R clock db K s s'"
| renew_write: "single_renew R (Writer K) token ttl s = (Inr r, s') \<Longrightarrow> 0 < ttl \<Longrightarrow> rw_step R clock db K s s'"
| release_write: "single_release R (Writer K) token s = (Inr r, s') \<Longrightarrow> rw_step R clock db K s s'"
| renew_read: "sem_renew R (Readers K) now ttl [token] s = (Inr r, s') \<Longrightarrow> rw_step R clock db K s s'"
| release_read: "sem_release R (Readers K) [token] s = (Inr r, s') \<Longrightarrow> rw_step R clock db K s s'"
| dequeue_place: "redis_call R (ZREM (Waiters K) m) s = (Inr r, s') \<Longrightarrow> rw_step R clock db K s s'"
| dequeue_beat: "redis_call R (HDEL (WaiterTS K) m) s = (Inr r, s') \<Longrightarrow> rw_step R clock db K s s'"

inductive rw_reachable :: "'s redis \<Rightarrow> ('s \<Rightarrow> int) \<Rightarrow> ('s \<Rightarrow> keyspace) \<Rightarrow> rw_keys \<Rightarrow> 's \<Rightarrow> bool"
  for R :: "'s redis" and clock :: "'s \<Rightarrow> int" and db :: "'s \<Rightarrow> keyspace" and K :: rw_keys
where
  initially: "\<forall>j \<in> {Writer K, Readers K, Fencing K, Waiters K, WaiterTS K, Seq K}. db s j = None \<Longrightarrow>
    rw_reachable R clock db K s"
| later: "rw_reachable R clock db K s \<Longrightarrow> rw_step R clock db K s s' \<Longrightarrow> rw_reachable R clock db K s'"

definition rw_good :: "keyspace \<Rightarrow> rw_keys \<Rightarrow> bool" where
  "rw_good d K = (\<exists>st. shows_rw d K st \<and> rw_ok st)"

lemma rw_good_empty:
  assumes "\<forall>j \<in> {Writer K, Readers K, Fencing K, Waiters K, WaiterTS K, Seq K}. d j = None"
  shows "rw_good d K"
  unfolding rw_good_def using assms
  by (intro exI [of _ "\<lparr>wr = None, rd = [], wfence = 0, queue = [], beats = [], seqn = 0, qexp = None\<rparr>"])
    (simp add: shows_rw_def rw_ok_def kv_defs counter_def)

lemma rw_ok_readers:
  assumes ok: "rw_ok st"
  shows "rw_ok (st\<lparr>rd := snd (pool_renew now ttl [token] (rd st))\<rparr>)"
    and "rw_ok (st\<lparr>rd := pool_release [token] (rd st)\<rparr>)"
  using ok by (auto simp: rw_ok_def pool_renew_def pool_release_def zwf_zadd zwf_zrem)

lemma rw_ok_queue:
  assumes ok: "rw_ok st"
  shows "rw_ok (st\<lparr>queue := zrem m (queue st)\<rparr>)" "rw_ok (st\<lparr>beats := AList.delete m (beats st)\<rparr>)"
proof -
  show "rw_ok (st\<lparr>queue := zrem m (queue st)\<rparr>)"
    using ok by (cases "queue st = []")
      (auto simp: rw_ok_def set_zrem zwf_zrem zrem_def [of _ "queue st"] distinct_map_filter zwf_filter)
  show "rw_ok (st\<lparr>beats := AList.delete m (beats st)\<rparr>)"
    using ok by (cases "beats st = []") (auto simp: rw_ok_def)
qed

context redis_server
begin

lemma rw_step_good:
  assumes K: "rw_distinct K" and step: "rw_step R clock db K s s'" and good: "rw_good (db s) K"
  shows "rw_good (db s') K"
proof -
  obtain st where st: "shows_rw (db s) K st" and ok: "rw_ok st" using good by (auto simp: rw_good_def)
  note v = st [unfolded shows_rw_def]
  have next_state: "rw_good (db s') K" if "shows_rw (db s') K st'" "rw_ok st'" for st'
    using that by (auto simp: rw_good_def)
  from step show ?thesis
  proof cases
    case (tick T)
    then show ?thesis using rw_elapse_refines [OF st tick(2)] rw_ok_elapsed [OF ok] next_state by auto
  next
    case (attempt_write fuel token ttl now timeout r f n)
    have "rw_room st" using attempt_write v by (simp add: rw_room_def)
    from rw_write_refines [OF K st ok this attempt_write(2,3), of fuel token now] attempt_write v show ?thesis
      using next_state [OF _ rw_ok_write [OF ok]] by auto
  next
    case (attempt_read fuel token ttl now timeout r f n)
    have "rw_room st" using attempt_read v by (simp add: rw_room_def)
    from rw_read_refines [OF K st ok this attempt_read(2), of fuel token ttl now] attempt_read v show ?thesis
      using next_state [OF _ rw_ok_read [OF ok]] by auto
  next
    case (renew_write token ttl r)
    have "rw_ok (st\<lparr>wr := Some (token, clock s + ttl)\<rparr>)" if "map_option fst (wr st) = Some token"
      using ok that by (auto simp: rw_ok_def)
    then show ?thesis
      using writer_renew_exec [OF K st renew_write(2), of token] renew_write(1) ok next_state by (auto split: if_splits)
  next
    case (release_write token r)
    have "rw_ok (st\<lparr>wr := None\<rparr>)" using ok by (simp add: rw_ok_def)
    then show ?thesis
      using writer_release_exec [OF K st, of token] release_write ok next_state by (auto split: if_splits)
  next
    case (renew_read now ttl token r)
    then show ?thesis
      using reader_renew_exec [OF K st, of now ttl token] rw_ok_readers(1) [OF ok] next_state by auto
  next
    case (release_read token r)
    then show ?thesis
      using reader_release_exec [OF K st, of token] rw_ok_readers(2) [OF ok] next_state by auto
  next
    case (dequeue_place m r)
    then show ?thesis using zrem_waiter_exec [OF K st, of m] rw_ok_queue(1) [OF ok] next_state by auto
  next
    case (dequeue_beat m r)
    then show ?thesis using hdel_waiter_exec [OF K st, of m] rw_ok_queue(2) [OF ok] next_state by auto
  qed
qed

lemma rw_reachable_good: "rw_reachable R clock db K s \<Longrightarrow> rw_distinct K \<Longrightarrow> rw_good (db s) K"
  by (induction rule: rw_reachable.induct) (auto intro: rw_good_empty rw_step_good)

end


end
