(* ===== verification/Rwprops.thy ===== *)
theory Rwprops
  imports Rwfair
begin

text \<open>
  The properties of the read-write lock: exclusion, first come first served, places that are
  kept, and the effect of a clean-up that fails halfway.
\<close>

section \<open>A failed clean-up\<close>

text \<open>
  An entry at the head of the queue without a heartbeat: the purge cannot date it, so it stays,
  and nobody behind it is granted.
\<close>

definition ghost :: "string \<Rightarrow> rw_state \<Rightarrow> bool" where
  "ghost h st = (\<exists>n z. queue st = (h, n) # z \<and> map_of (beats st) h = None)"

lemma ghost_attempt:
  assumes ok: "rw_ok st" and g: "ghost h st" and m: "m \<noteq> h"
  shows "ghost h (purge t (joined m now e st))"
    and "behind m (queue (purge t (joined m now e st)))"
proof -
  obtain n z where q: "queue st = (h, n) # z" "map_of (beats st) h = None" using g by (auto simp: ghost_def)
  have q': "\<exists>z'. queue (joined m now e st) = (h, n) # z'"
    using joined_queue [OF ok, of m now e] q(1) by simp
  have b: "map_of (beats (joined m now e st)) h = None"
    using q(2) m by (simp add: beats_joined map_of_AList_update)
  have "\<not> stale (beats (joined m now e st)) t h"
    using b by (simp add: stale_def bulk_reply_def older_def)
  then have "purge t (joined m now e st) = joined m now e st"
    using q' by (intro purge_stop) auto
  then show "ghost h (purge t (joined m now e st))" "behind m (queue (purge t (joined m now e st)))"
    using q' b m by (auto simp: ghost_def behind_def)
qed

lemma ghost_write:
  assumes "rw_ok st" "ghost h st" "''W:'' @ token \<noteq> h" "map_option fst (wr st) \<noteq> Some token"
  shows "fst (rw_write token ttl now timeout T st) = None"
    and "ghost h (snd (rw_write token ttl now timeout T st))"
    and "wr (snd (rw_write token ttl now timeout T st)) = wr st"
    and "qexp (snd (rw_write token ttl now timeout T st)) = Some (T + timeout)"
  using assms(4) ghost_attempt [OF assms(1-3), of "now - timeout" now "T + timeout"]
  by (simp_all add: rw_write_def Let_def)

lemma write_sizes:
  "seqn (snd (rw_write token ttl now timeout T st)) \<le> seqn st + 1"
  "wfence (snd (rw_write token ttl now timeout T st)) \<le> wfence st + 1"
  "length (queue (snd (rw_write token ttl now timeout T st))) \<le> Suc (length (queue st))"
proof -
  let ?st = "purge (now - timeout) (joined (''W:'' @ token) now (T + timeout) st)"
  have l: "length (queue ?st) \<le> Suc (length (queue st))"
    using length_purged [of "now - timeout"] length_joined [of "''W:'' @ token" now "T + timeout" st] order.trans
    by (fastforce simp: purge_def)
  moreover have "length (zrem m z) \<le> length z" for m z by (simp add: zrem_def)
  ultimately have "length (zrem m (queue ?st)) \<le> Suc (length (queue st))" for m
    using order.trans by blast
  then show "length (queue (snd (rw_write token ttl now timeout T st))) \<le> Suc (length (queue st))"
    using l by (simp add: rw_write_def Let_def leave_def)
qed (simp_all add: rw_write_def Let_def joined_def)

text \<open>Attempts by writers, one after another, each over a working network.\<close>

record attempt =
  at_time :: int
  at_token :: string
  at_ttl :: int
  at_now :: int
  at_timeout :: int

fun write_attempts :: "'s redis \<Rightarrow> nat \<Rightarrow> rw_keys \<Rightarrow> attempt list \<Rightarrow> 's \<Rightarrow> (goerr + sreply) list" where
  "write_attempts R fuel K [] s = []"
| "write_attempts R fuel K (a # as) s =
     (case Run R (Reply [] (at_time a))
         (rw_write_lock R fuel K (at_token a) (at_ttl a) (at_now a) (at_timeout a)) s of
        (r, s') \<Rightarrow> r # write_attempts R fuel K as s')"

text \<open>Each comes before the queue would be dropped for idleness.\<close>

fun lively :: "int \<Rightarrow> int \<Rightarrow> attempt list \<Rightarrow> bool" where
  "lively T e [] = True"
| "lively T e (a # as) = (T \<le> at_time a \<and> at_time a < e \<and> 0 < at_ttl a \<and> 0 < at_timeout a \<and>
     lively (at_time a) (at_time a + at_timeout a) as)"

context redis_server
begin

lemma ghost_blocks:
  assumes K: "rw_distinct K"
  shows "shows_rw (db s) K st \<Longrightarrow> rw_ok st \<Longrightarrow> ghost h st \<Longrightarrow> qexp st = Some e \<Longrightarrow>
    lively (clock s) e as \<Longrightarrow>
    \<forall>a \<in> set as. ''W:'' @ at_token a \<noteq> h \<and> map_option fst (wr st) \<noteq> Some (at_token a) \<Longrightarrow>
    wfence st + int (length as) < 2 ^ 53 \<Longrightarrow> seqn st + int (length as) < 2 ^ 53 \<Longrightarrow>
    Suc (length (queue st) + length as) < fuel \<Longrightarrow>
    write_attempts R fuel K as s = replicate (length as) (Inr SNil)"
proof (induction as arbitrary: s st e)
  case (Cons a as)
  let ?T = "at_time a" and ?now = "at_now a" and ?timeout = "at_timeout a"
  have T: "clock s \<le> ?T" "?T < e" "0 < at_ttl a" "0 < ?timeout" using Cons.prems(5) by simp_all
  obtain st1 where st1: "shows_rw (db (elapse R ?T s)) K st1" "rw_elapsed ?T st st1"
    using rw_elapse_refines [OF Cons.prems(1) T(1)] by blast
  have same: "queue st1 = queue st" "beats st1 = beats st" "seqn st1 = seqn st" "wfence st1 = wfence st"
      "wr st1 = wr st \<or> wr st1 = None"
    using st1(2) T(2) Cons.prems(4) by (auto simp: rw_elapsed_def)
  have ok: "rw_ok st1" using rw_ok_elapsed [OF Cons.prems(2) st1(2)] .
  have g: "ghost h st1" using Cons.prems(3) same by (simp add: ghost_def)
  have new: "map_option fst (wr st1) \<noteq> Some (at_token a)" "''W:'' @ at_token a \<noteq> h"
    using Cons.prems(6) same(5) by auto
  have room: "rw_room st1" using Cons.prems(7,8) same by (simp add: rw_room_def)
  have fuel: "Suc (length (queue st1)) < fuel" using Cons.prems(9) same by simp
  define st2 where "st2 = snd (rw_write (at_token a) (at_ttl a) ?now ?timeout ?T st1)"
  note w = ghost_write [OF ok g new(2,1), of "at_ttl a" ?now ?timeout ?T]
  have c: "clock (elapse R ?T s) = ?T" using clock_elapse [OF T(1)] .
  obtain s2 where s2: "rw_write_lock R fuel K (at_token a) (at_ttl a) ?now ?timeout (elapse R ?T s) = (Inr SNil, s2)"
      "clock s2 = ?T" "shows_rw (db s2) K st2"
    using rw_write_refines [OF K st1(1) ok room T(3,4) fuel, of "at_token a" ?now] w(1)
    unfolding c st2_def by (auto simp: fence_reply_def)
  have n: "wfence st2 \<le> wfence st1 + 1" "seqn st2 \<le> seqn st1 + 1" "length (queue st2) \<le> Suc (length (queue st1))"
    unfolding st2_def by (rule write_sizes)+
  have "write_attempts R fuel K as s2 = replicate (length as) (Inr SNil)"
  proof (rule Cons.IH [OF s2(3)])
    show "rw_ok st2" unfolding st2_def by (rule rw_ok_write [OF ok])
    show "ghost h st2" "qexp st2 = Some (?T + ?timeout)" unfolding st2_def by (rule w)+
    show "lively (clock s2) (?T + ?timeout) as" using Cons.prems(5) s2(2) by simp
    have "wr st2 = wr st \<or> wr st2 = None" using w(3) same(5) by (simp add: st2_def)
    then show "\<forall>a \<in> set as. ''W:'' @ at_token a \<noteq> h \<and> map_option fst (wr st2) \<noteq> Some (at_token a)"
      using Cons.prems(6) by auto
    show "wfence st2 + int (length as) < 2 ^ 53" "seqn st2 + int (length as) < 2 ^ 53"
      "Suc (length (queue st2) + length as) < fuel"
      using Cons.prems(7-9) n same by simp_all
  qed
  then show ?case using s2(1) by simp
qed simp

end

lemma refused_queue:
  assumes "rw_ok st" "0 < timeout" "map_option fst (wr st) \<noteq> Some token"
    "fst (rw_write token ttl now timeout T st) = None"
  shows "queue (snd (rw_write token ttl now timeout T st)) = waiting (''W:'' @ token) now timeout st"
  using assms(3,4) queue_attempt [OF assms(1,2), of now "''W:'' @ token" "T + timeout"]
  unfolding rw_write_def Let_def by (simp split: if_splits)

section \<open>Properties\<close>

text \<open>
  C4: readers and writers exclude each other. In every state the server can reach, through any
  sequence of attempts, renewals, releases, clean-ups and expiry with any clock readings, there
  is no reader while there is a writer.
\<close>

theorem rw_exclusion:
  assumes server: "redis_server R clock db" and K: "rw_distinct K"
    and reach: "rw_reachable R clock db K s" and writer: "db s (Writer K) \<noteq> None"
  shows "zsetv (db s) (Readers K) = []"
proof -
  obtain st where st: "shows_rw (db s) K st" "rw_ok st"
    using redis_server.rw_reachable_good [OF server reach K] by (auto simp: rw_good_def)
  then have "wr st \<noteq> None" using writer by (auto simp: shows_rw_def)
  with st show ?thesis by (simp add: shows_rw_def rw_ok_def)
qed

text \<open>
  C9: first come first served for writers. A writer that does not hold the lock yet is granted
  exactly when there is no writer, every reader has expired, and everyone who arrived earlier
  has been silent for longer than the waiter timeout. The script always returns.
\<close>

theorem write_fifo:
  assumes server: "redis_server R clock db" and K: "rw_distinct K"
    and st: "shows_rw (db s) K st" "rw_ok st" "rw_room st"
    and t: "0 < ttl" "0 < timeout" and fuel: "Suc (length (queue st)) < fuel"
    and new: "map_option fst (wr st) \<noteq> Some token"
  shows "\<exists>r s'. rw_write_lock R fuel K token ttl now timeout s = (Inr r, s') \<and>
    r = (if wr st = None \<and> (\<forall>p \<in> set (rd st). snd p \<le> now) \<and>
            (\<forall>p \<in> set (queue st). snd p < arrival (''W:'' @ token) st \<longrightarrow>
               stale (beats st) (now - timeout) (fst p))
         then SInt (wfence st + 1) else SNil)"
proof -
  let ?g = "wr st = None \<and> (\<forall>p \<in> set (rd st). snd p \<le> now) \<and>
    (\<forall>p \<in> set (queue st). snd p < arrival (''W:'' @ token) st \<longrightarrow> stale (beats st) (now - timeout) (fst p))"
  obtain s' where run: "rw_write_lock R fuel K token ttl now timeout s =
      (Inr (fence_reply (fst (rw_write token ttl now timeout (clock s) st))), s')"
    using redis_server.rw_write_refines [OF server K st t fuel] by blast
  have iff: "fst (rw_write token ttl now timeout (clock s) st) \<noteq> None \<longleftrightarrow> ?g"
    by (rule write_granted_iff [OF st(2) t(2) new])
  have "fst (rw_write token ttl now timeout (clock s) st) = (if ?g then Some (wfence st + 1) else None)"
  proof (cases ?g)
    case True
    with iff obtain f where f: "fst (rw_write token ttl now timeout (clock s) st) = Some f" by blast
    then have "f = wfence st + 1" using new by (auto simp: rw_write_def Let_def split: if_splits)
    with f show ?thesis unfolding if_P [OF True] by simp
  next
    case False
    with iff have "fst (rw_write token ttl now timeout (clock s) st) = None" by blast
    then show ?thesis unfolding if_not_P [OF False] .
  qed
  then show ?thesis using run by (simp add: fence_reply_def)
qed

text \<open>
  C10: first come first served for readers. A reader that is not in yet is granted exactly when
  there is no writer and every writer that arrived earlier has been purged with all before it:
  readers pass each other, never a live writer.
\<close>

theorem read_fifo:
  assumes server: "redis_server R clock db" and K: "rw_distinct K"
    and st: "shows_rw (db s) K st" "rw_ok st" "rw_room st"
    and t: "0 < timeout" and fuel: "Suc (length (queue st)) < fuel"
    and new: "map_of (rd st) token = None"
  shows "\<exists>r s'. rw_read_lock R fuel K token ttl now timeout s = (Inr r, s') \<and>
    (r \<noteq> SNil) = (wr st = None \<and>
      (\<forall>p \<in> set (queue st). snd p < arrival (''R:'' @ token) st \<and> take 2 (fst p) = ''W:'' \<longrightarrow>
         (\<forall>q \<in> set (queue st). snd q \<le> snd p \<longrightarrow> stale (beats st) (now - timeout) (fst q))))"
proof -
  obtain s' where run: "rw_read_lock R fuel K token ttl now timeout s =
      (Inr (fence_reply (fst (rw_read token ttl now timeout (clock s) st))), s')"
    using redis_server.rw_read_refines [OF server K st t fuel] by blast
  have reply: "(fence_reply r \<noteq> SNil) = (r \<noteq> None)" for r by (cases r) (simp_all add: fence_reply_def)
  have "\<not> (case map_of (rd st) token of Some e \<Rightarrow> now < e | None \<Rightarrow> False)" using new by simp
  from read_granted_iff [OF st(2) t this, of ttl "clock s"] show ?thesis
    by (intro exI [of _ "fence_reply (fst (rw_read token ttl now timeout (clock s) st))"] exI [of _ s'] conjI run)
      (simp only: reply)
qed

text \<open>
  Places are kept. A writer that is refused is in the queue afterwards with the arrival
  number it had before, or with one above everybody else's if it is new; nobody else's number
  changes and nobody else joins.
\<close>

theorem place_kept:
  assumes server: "redis_server R clock db" and K: "rw_distinct K"
    and st: "shows_rw (db s) K st" "rw_ok st" "rw_room st"
    and t: "0 < ttl" "0 < timeout" and fuel: "Suc (length (queue st)) < fuel"
    and new: "map_option fst (wr st) \<noteq> Some token"
    and refused: "rw_write_lock R fuel K token ttl now timeout s = (Inr SNil, s')"
  shows "map_of (zsetv (db s') (Waiters K)) (''W:'' @ token) = Some (arrival (''W:'' @ token) st) \<and>
    set (zsetv (db s') (Waiters K)) \<subseteq> insert (''W:'' @ token, arrival (''W:'' @ token) st) (set (queue st)) \<and>
    (map_of (queue st) (''W:'' @ token) = None \<longrightarrow> (\<forall>p \<in> set (queue st). snd p < arrival (''W:'' @ token) st))"
proof -
  define m where "m = ''W:'' @ token"
  define st' where "st' = snd (rw_write token ttl now timeout (clock s) st)"
  have run: "fence_reply (fst (rw_write token ttl now timeout (clock s) st)) = SNil" "shows_rw (db s') K st'"
    using redis_server.rw_write_refines [OF server K st t fuel, of token now] refused by (auto simp: st'_def)
  have none: "fst (rw_write token ttl now timeout (clock s) st) = None"
    using run(1) by (cases "fst (rw_write token ttl now timeout (clock s) st)") (simp_all add: fence_reply_def)
  have q: "zsetv (db s') (Waiters K) = waiting m now timeout st"
    using run(2) refused_queue [OF st(2) t(2) new none] by (simp add: shows_rw_def st'_def m_def)
  have "zwf (waiting m now timeout st)"
    using rw_ok_purge [OF rw_ok_joined [OF st(2), of m now 0], of "now - timeout"] queue_attempt [OF st(2) t(2), of now m 0]
    by (simp add: rw_ok_def)
  then show ?thesis
    using waiting_mem [OF st(2), of m now timeout] waiting_subset [of m now timeout st] arrival_newest [OF st(2), of m]
    unfolding q m_def [symmetric] by (simp add: zwf_map_of)
qed

text \<open>
  C37: a clean-up of the writer at the head of the queue that loses its first command and
  completes its second leaves an entry nobody can purge. Every later attempt by another writer
  is refused, for as long as attempts keep the queue from being dropped for idleness.
\<close>

theorem failed_dequeue_blocks:
  assumes server: "redis_server R clock db" and K: "rw_distinct (rw_on w)"
    and st: "shows_rw (db s) (rw_on w) st" "rw_ok st"
    and head: "queue st = (RWWriter_member w, n) # z"
    and T: "clock s \<le> T" "T < e" "qexp st = Some e" and lively: "lively T e as"
    and others: "\<forall>a \<in> set as. at_token a \<noteq> rw_id w \<and> map_option fst (wr st) \<noteq> Some (at_token a)"
    and room: "wfence st + int (length as) < 2 ^ 53" "seqn st + int (length as) < 2 ^ 53"
    and fuel: "Suc (length (queue st) + length as) < fuel"
  shows "write_attempts R fuel (rw_on w) as (RWWriter_Dequeue R (Fail [] err) (Reply [] T) w s) =
    replicate (length as) (Inr SNil)"
proof -
  let ?K = "rw_on w" and ?h = "RWWriter_member w"
  obtain st1 where st1: "shows_rw (db (elapse R T s)) ?K st1" "rw_elapsed T st st1"
    using redis_server.rw_elapse_refines [OF server st(1) T(1)] by blast
  have same: "queue st1 = queue st" "seqn st1 = seqn st" "wfence st1 = wfence st" "qexp st1 = Some e"
      "wr st1 = wr st \<or> wr st1 = None"
    using st1(2) T(2,3) by (auto simp: rw_elapsed_def)
  let ?s2 = "after R (HDEL (WaiterTS ?K) ?h) (elapse R T s)"
  let ?st2 = "st1\<lparr>beats := AList.delete ?h (beats st1)\<rparr>"
  obtain r where del: "redis_call R (HDEL (WaiterTS ?K) ?h) (elapse R T s) = (Inr r, ?s2)" "shows_rw (db ?s2) ?K ?st2"
    using redis_server.hdel_waiter_exec [OF server K st1(1)] by blast
  have eq: "RWWriter_Dequeue R (Fail [] err) (Reply [] T) w s = ?s2"
    using del(1) by (simp add: RWWriter_Dequeue_def dequeue_def)
  have ok: "rw_ok ?st2" using rw_ok_queue(2) [OF rw_ok_elapsed [OF st(2) st1(2)]] .
  have c: "clock ?s2 = T"
    using redis_server.clock_elapse [OF server T(1)] by (simp add: redis_server.clock_after [OF server])
  show ?thesis
    unfolding eq
  proof (rule redis_server.ghost_blocks [OF server K del(2) ok])
    show "ghost ?h ?st2" using head same by (simp add: ghost_def map_of_AList_delete)
    show "lively (clock ?s2) e as" using lively c by simp
    show "\<forall>a \<in> set as. ''W:'' @ at_token a \<noteq> ?h \<and> map_option fst (wr ?st2) \<noteq> Some (at_token a)"
      using others same(5) by (auto simp: RWWriter_member_def)
  qed (use same room fuel in simp_all)
qed


text \<open>Witnesses: a queue with a writer \<^verbatim>\<open>a\<close> ahead of a reader \<^verbatim>\<open>b\<close>, nobody inside.\<close>

definition wit_keys :: rw_keys where
  "wit_keys = \<lparr>Writer = ''w'', Readers = ''r'', Fencing = ''f'', Waiters = ''q'', WaiterTS = ''t'', Seq = ''n''\<rparr>"

definition wit_rw :: mem where
  "wit_rw = \<lparr>mclock = 100, mdata = [
     ''q'' \<mapsto> (VZset [(''W:a'', 1), (''R:b'', 2)], Some 2000),
     ''t'' \<mapsto> (VHash [(''W:a'', inum 90), (''R:b'', inum 95)], Some 2000),
     ''n'' \<mapsto> (VStr (inum 2), Some 2000)]\<rparr>"

definition wit_st :: rw_state where
  "wit_st = \<lparr>wr = None, rd = [], wfence = 0, queue = [(''W:a'', 1), (''R:b'', 2)],
     beats = [(''W:a'', inum 90), (''R:b'', inum 95)], seqn = 2, qexp = Some 2000\<rparr>"

lemma wit_distinct: "rw_distinct wit_keys"
  by (simp add: rw_distinct_def wit_keys_def)

lemma wit_shows: "shows_rw (mem_db wit_rw) wit_keys wit_st" "rw_ok wit_st" "rw_room wit_st"
  by (simp_all add: shows_rw_def wit_keys_def wit_rw_def wit_st_def mem_db_def kv_defs counter_def inum_def
      rw_ok_def rw_room_def zwf_def zless_def)

lemma wit_arrival:
  "arrival ''W:a'' wit_st = 1" "arrival ''W:c'' wit_st = 3" "arrival ''R:b'' wit_st = 2" "arrival ''R:d'' wit_st = 3"
  by (simp_all add: arrival_def wit_st_def)

lemma wit_not_stale: "\<not> stale (beats wit_st) (- 1880) x"
  by (simp add: stale_def older_def wit_st_def bulk_reply_def inum_def)

theorem write_fifo_witness:
  "(\<exists>s'. rw_write_lock mem_redis 9 wit_keys ''a'' 1000 120 2000 wit_rw = (Inr (SInt 1), s')) \<and>
   (\<exists>s'. rw_write_lock mem_redis 9 wit_keys ''c'' 1000 120 2000 wit_rw = (Inr SNil, s'))"
proof -
  have f: "Suc (length (queue wit_st)) < 9" "map_option fst (wr wit_st) \<noteq> Some t" for t by (simp_all add: wit_st_def)
  note W = write_fifo [OF mem_server wit_distinct wit_shows, where ttl = 1000 and timeout = 2000 and fuel = 9, OF _ _ f]
  have "\<not> (\<forall>p \<in> set (queue wit_st). snd p < 3 \<longrightarrow> stale (beats wit_st) (- 1880) (fst p))"
    using wit_not_stale by (auto simp: wit_st_def)
  then show ?thesis
    using W [of "''a''" 120] W [of "''c''" 120]
    by (simp add: wit_arrival) (simp add: wit_st_def split: if_splits)
qed

theorem read_fifo_witness:
  "(\<exists>s'. rw_read_lock mem_redis 9 wit_keys ''d'' 1000 120 2000 wit_rw = (Inr SNil, s'))"
proof -
  have f: "Suc (length (queue wit_st)) < 9" "map_of (rd wit_st) t = None" for t by (simp_all add: wit_st_def)
  have "\<not> (\<forall>p \<in> set (queue wit_st). snd p < 3 \<and> take 2 (fst p) = ''W:'' \<longrightarrow>
      (\<forall>q \<in> set (queue wit_st). snd q \<le> snd p \<longrightarrow> stale (beats wit_st) (- 1880) (fst q)))"
    using wit_not_stale by (auto simp: wit_st_def)
  then show ?thesis
    using read_fifo [OF mem_server wit_distinct wit_shows, where ttl = 1000 and timeout = 2000 and fuel = 9 and now = 120,
        OF _ f, of "''d''"]
    by (auto simp: wit_arrival simp del: not_all)
qed

theorem rw_exclusion_witness:
  "\<exists>s. rw_reachable mem_redis mclock mem_db wit_keys s \<and> mem_db s ''w'' \<noteq> None \<and> zsetv (mem_db s) ''r'' = []"
proof -
  let ?st = "\<lparr>wr = None, rd = [], wfence = 0, queue = [], beats = [], seqn = 0, qexp = None\<rparr>"
  have st: "shows_rw (mem_db empty_mem) wit_keys ?st" "rw_ok ?st" "rw_room ?st"
    by (simp_all add: empty_mem_db shows_rw_def rw_ok_def rw_room_def kv_defs counter_def)
  have start: "rw_reachable mem_redis mclock mem_db wit_keys empty_mem"
    by (rule rw_reachable.initially) (simp add: empty_mem_db)
  obtain s where s: "rw_write_lock mem_redis 9 wit_keys ''a'' 1000 120 2000 empty_mem =
      (Inr (fence_reply (fst (rw_write ''a'' 1000 120 2000 (mclock empty_mem) ?st))), s)"
      "shows_rw (mem_db s) wit_keys (snd (rw_write ''a'' 1000 120 2000 (mclock empty_mem) ?st))"
    using mem.rw_write_refines [OF wit_distinct st, of 1000 2000 9 "''a''" 120] by auto
  have "rw_reachable mem_redis mclock mem_db wit_keys s"
    by (rule rw_reachable.later [OF start rw_step.attempt_write [OF s(1)]])
      (simp_all add: empty_mem_db kv_defs counter_def, linarith+)
  moreover have "snd (rw_write ''a'' 1000 120 2000 (mclock empty_mem) ?st) =
      \<lparr>wr = Some (''a'', 1000), rd = [], wfence = 1, queue = [], beats = [], seqn = 1, qexp = Some 2000\<rparr>"
    by (simp add: empty_lock(3)) code_simp
  then have "mem_db s ''w'' \<noteq> None" using s(2) by (simp add: shows_rw_def wit_keys_def)
  ultimately show ?thesis
    using rw_exclusion [OF mem_server wit_distinct] by (auto simp: wit_keys_def)
qed


lemma wit_refused: "\<exists>s'. rw_write_lock mem_redis 9 wit_keys ''c'' 1000 120 2000 wit_rw = (Inr SNil, s')"
proof -
  have "fst (rw_write ''c'' 1000 120 2000 (mclock wit_rw) wit_st) = None"
    unfolding wit_rw_def wit_st_def by code_simp
  then show ?thesis
    using mem.rw_write_refines [OF wit_distinct wit_shows, of 1000 2000 9 "''c''" 120]
    by (auto simp: wit_st_def fence_reply_def)
qed

theorem place_kept_witness:
  "\<exists>s'. rw_write_lock mem_redis 9 wit_keys ''c'' 1000 120 2000 wit_rw = (Inr SNil, s') \<and>
     map_of (zsetv (mem_db s') ''q'') ''W:c'' = Some 3"
proof -
  obtain s' where s: "rw_write_lock mem_redis 9 wit_keys ''c'' 1000 120 2000 wit_rw = (Inr SNil, s')"
    using wit_refused by blast
  show ?thesis
    using place_kept [OF mem_server wit_distinct wit_shows _ _ _ _ s] s
    by (simp add: wit_arrival) (simp add: wit_st_def wit_keys_def)
qed

theorem failed_dequeue_blocks_witness:
  "write_attempts mem_redis 9 wit_keys
     [\<lparr>at_time = 200, at_token = ''c'', at_ttl = 1000, at_now = 200, at_timeout = 2000\<rparr>,
      \<lparr>at_time = 2100, at_token = ''c'', at_ttl = 1000, at_now = 2100, at_timeout = 2000\<rparr>]
     (RWWriter_Dequeue mem_redis (Fail [] (TransportError ''EOF'')) (Reply [] 150) (NewRWWriter ''a'' wit_keys 1000000000) wit_rw) =
   [Inr SNil, Inr SNil]"
proof -
  let ?w = "NewRWWriter ''a'' wit_keys 1000000000"
  let ?as = "[\<lparr>at_time = 200, at_token = ''c'', at_ttl = 1000, at_now = 200, at_timeout = 2000\<rparr>,
      \<lparr>at_time = 2100, at_token = ''c'', at_ttl = 1000, at_now = 2100, at_timeout = 2000\<rparr>]"
  have w: "rw_on ?w = wit_keys" "rw_id ?w = ''a''" "RWWriter_member ?w = ''W:a''"
    by (simp_all add: NewRWWriter_def RWWriter_member_def)
  have "write_attempts mem_redis 9 (rw_on ?w) ?as
      (RWWriter_Dequeue mem_redis (Fail [] (TransportError ''EOF'')) (Reply [] 150) ?w wit_rw) = replicate (length ?as) (Inr SNil)"
  proof (rule failed_dequeue_blocks [OF mem_server, where st = wit_st and n = 1 and z = "[(''R:b'', 2)]" and e = 2000])
    show "lively 150 2000 ?as" by simp
  qed (use wit_shows wit_distinct in \<open>simp_all add: w, simp_all add: wit_st_def wit_rw_def\<close>)
  then show ?thesis by (simp only: w) simp
qed


end
