(* ===== verification/Float64.thy ===== *)
theory Float64
  imports Prelude "HOL-Library.Log_Nat"
begin

text \<open>
  Binary64 arithmetic, as Go's \<^verbatim>\<open>float64\<close> and Lua's numbers have it. A finite value is the
  rational it denotes; every operation is the exact one followed by rounding to the nearest
  representable value, ties to even, with gradual underflow and overflow to infinity. The
  sign of zero, which no operation of the library observes, is dropped.
\<close>

datatype f64 = Fin rat | PInf | NInf | NaN

section \<open>Rounding\<close>

definition round_even :: "rat \<Rightarrow> int" where
  "round_even q = (let n = \<lfloor>q\<rfloor>; f = q - of_int n in
     if f < 1 / 2 then n else if 1 / 2 < f then n + 1 else if even n then n else n + 1)"

text \<open>The exponent of the leading binary digit of a non-zero rational.\<close>

definition lead :: "rat \<Rightarrow> int" where
  "lead x = (let (p, q) = quotient_of \<bar>x\<bar>;
                 e = int (floorlog 2 (nat p)) - int (floorlog 2 (nat q)) in
             if 2 powi e \<le> \<bar>x\<bar> then e else e - 1)"

text \<open>The distance of neighbours around \<open>x\<close>: 53 significant digits, none below \<open>2\<^sup>-\<^sup>1\<^sup>0\<^sup>7\<^sup>4\<close>.\<close>

definition ulp :: "rat \<Rightarrow> rat" where
  "ulp x = 2 powi (max (lead x - 52) (- 1074))"

definition nearest :: "rat \<Rightarrow> rat" where
  "nearest x = (if x = 0 then 0 else of_int (round_even (x / ulp x)) * ulp x)"

definition f64_round :: "rat \<Rightarrow> f64" where
  "f64_round x = (let y = nearest x in
     if 2 ^ 1024 \<le> y then PInf else if y \<le> - (2 ^ 1024) then NInf else Fin y)"

definition representable :: "rat \<Rightarrow> bool" where
  "representable x = (f64_round x = Fin x)"

section \<open>Operations\<close>

definition f64_of_int :: "int \<Rightarrow> f64" where
  "f64_of_int n = f64_round (of_int n)"

fun f64_neg :: "f64 \<Rightarrow> f64" where
  "f64_neg (Fin x) = Fin (- x)"
| "f64_neg PInf = NInf"
| "f64_neg NInf = PInf"
| "f64_neg NaN = NaN"

fun f64_add :: "f64 \<Rightarrow> f64 \<Rightarrow> f64" where
  "f64_add (Fin x) (Fin y) = f64_round (x + y)"
| "f64_add NaN _ = NaN"
| "f64_add _ NaN = NaN"
| "f64_add PInf NInf = NaN"
| "f64_add NInf PInf = NaN"
| "f64_add PInf _ = PInf"
| "f64_add _ PInf = PInf"
| "f64_add NInf _ = NInf"
| "f64_add _ NInf = NInf"

definition f64_sub :: "f64 \<Rightarrow> f64 \<Rightarrow> f64" where
  "f64_sub x y = f64_add x (f64_neg y)"

definition signed_inf :: "rat \<Rightarrow> f64" where
  "signed_inf s = (if 0 < s then PInf else if s < 0 then NInf else NaN)"

fun f64_mul :: "f64 \<Rightarrow> f64 \<Rightarrow> f64" where
  "f64_mul (Fin x) (Fin y) = f64_round (x * y)"
| "f64_mul NaN _ = NaN"
| "f64_mul _ NaN = NaN"
| "f64_mul PInf (Fin y) = signed_inf y"
| "f64_mul NInf (Fin y) = signed_inf (- y)"
| "f64_mul (Fin x) PInf = signed_inf x"
| "f64_mul (Fin x) NInf = signed_inf (- x)"
| "f64_mul PInf PInf = PInf"
| "f64_mul NInf NInf = PInf"
| "f64_mul PInf NInf = NInf"
| "f64_mul NInf PInf = NInf"

text \<open>
  The library divides finite numbers only, and never by zero, so that the sign of a zero
  divisor does not matter.
\<close>

fun f64_div :: "f64 \<Rightarrow> f64 \<Rightarrow> f64" where
  "f64_div (Fin x) (Fin y) = (if y = 0 then signed_inf x else f64_round (x / y))"
| "f64_div NaN _ = NaN"
| "f64_div _ NaN = NaN"
| "f64_div PInf (Fin y) = (if y < 0 then NInf else PInf)"
| "f64_div NInf (Fin y) = (if y < 0 then PInf else NInf)"
| "f64_div (Fin x) _ = Fin 0"
| "f64_div _ _ = NaN"

fun f64_less :: "f64 \<Rightarrow> f64 \<Rightarrow> bool" where
  "f64_less (Fin x) (Fin y) = (x < y)"
| "f64_less NInf (Fin y) = True"
| "f64_less (Fin x) PInf = True"
| "f64_less NInf PInf = True"
| "f64_less _ _ = False"

fun f64_le :: "f64 \<Rightarrow> f64 \<Rightarrow> bool" where
  "f64_le (Fin x) (Fin y) = (x \<le> y)"
| "f64_le NInf y = (y \<noteq> NaN)"
| "f64_le x PInf = (x \<noteq> NaN)"
| "f64_le _ _ = False"

fun f64_ceil :: "f64 \<Rightarrow> f64" where
  "f64_ceil (Fin x) = Fin (of_int \<lceil>x\<rceil>)"
| "f64_ceil x = x"

fun f64_floor :: "f64 \<Rightarrow> f64" where
  "f64_floor (Fin x) = Fin (of_int \<lfloor>x\<rfloor>)"
| "f64_floor x = x"

text \<open>\<^verbatim>\<open>math.Pow(2, n)\<close>: a power of two is exact until it overflows.\<close>

definition Pow2 :: "nat \<Rightarrow> f64" where
  "Pow2 n = (if n < 1024 then Fin (2 ^ n) else PInf)"

text \<open>
  Conversion to a 64-bit integer truncates towards zero. Out of range, and for infinities and
  NaN, the result depends on the implementation: \<open>impl\<close>.
\<close>

definition trunc :: "rat \<Rightarrow> int" where
  "trunc q = (if q < 0 then \<lceil>q\<rceil> else \<lfloor>q\<rfloor>)"

definition f64_to_int64 :: "(f64 \<Rightarrow> int) \<Rightarrow> f64 \<Rightarrow> int" where
  "f64_to_int64 impl x = (case x of
       Fin q \<Rightarrow> if - (2 ^ 63) \<le> trunc q \<and> trunc q < 2 ^ 63 then trunc q else impl x
     | _ \<Rightarrow> impl x)"

section \<open>Rounding to nearest\<close>

lemma round_even_error: "\<bar>of_int (round_even q) - q\<bar> \<le> 1 / 2"
proof -
  have "of_int \<lfloor>q\<rfloor> \<le> q" "q < of_int \<lfloor>q\<rfloor> + 1" by linarith+
  then show ?thesis by (auto simp: round_even_def Let_def)
qed

lemma round_even_of_int [simp]: "round_even (of_int n) = n"
  by (simp add: round_even_def)

lemma round_even_nonneg: "0 \<le> q \<Longrightarrow> 0 \<le> round_even q"
  by (auto simp: round_even_def Let_def)

lemma round_even_nonpos: "q \<le> 0 \<Longrightarrow> round_even q \<le> 0"
proof -
  assume q: "q \<le> 0"
  have "of_int (round_even q) \<le> q + 1 / 2" using round_even_error [of q] by linarith
  then have "of_int (round_even q) < (1 :: rat)" using q by linarith
  then show "round_even q \<le> 0" by linarith
qed

lemma power_int_2_pos [simp]: "0 < (2 :: rat) powi e"
  by simp

lemma floorlog_rat:
  assumes "0 < n"
  shows "2 powi (int (floorlog 2 n) - 1) \<le> (of_nat n :: rat)" and "(of_nat n :: rat) < 2 powi int (floorlog 2 n)"
proof -
  have b: "2 ^ (floorlog 2 n - 1) \<le> n" "n < 2 ^ floorlog 2 n"
    using floorlog_bounds [of n 2] assms by simp_all
  have "of_nat (2 ^ (floorlog 2 n - 1)) \<le> (of_nat n :: rat)" "(of_nat n :: rat) < of_nat (2 ^ floorlog 2 n)"
    using b by (simp_all only: of_nat_le_iff of_nat_less_iff)
  moreover have "int (floorlog 2 n) - 1 = int (floorlog 2 n - 1)" using assms by (simp add: floorlog_def)
  ultimately show "2 powi (int (floorlog 2 n) - 1) \<le> (of_nat n :: rat)" "(of_nat n :: rat) < 2 powi int (floorlog 2 n)"
    by (simp_all only: power_int_of_nat of_nat_power of_nat_numeral)
qed

lemma lead_bounds:
  assumes "x \<noteq> 0"
  shows "2 powi lead x \<le> \<bar>x\<bar>" and "\<bar>x\<bar> < 2 powi (lead x + 1)"
proof -
  obtain p q where pq: "quotient_of \<bar>x\<bar> = (p, q)" by fastforce
  then have x: "\<bar>x\<bar> = of_int p / of_int q" "0 < q"
    using quotient_of_div quotient_of_denom_pos by blast+
  have "0 < (of_int p / of_int q :: rat)" using assms x(1) by simp
  then have p: "0 < p" using x(2) by (simp add: zero_less_divide_iff)
  obtain m n where mn: "p = int m" "q = int n" "0 < m" "0 < n" using p x(2) by (metis zero_less_imp_eq_int)
  define a b where "a = int (floorlog 2 m)" and "b = int (floorlog 2 n)"
  have A: "2 powi (a - 1) \<le> (of_nat m :: rat)" "(of_nat m :: rat) < 2 powi a"
    and B: "2 powi (b - 1) \<le> (of_nat n :: rat)" "(of_nat n :: rat) < 2 powi b"
    using floorlog_rat [OF mn(3)] floorlog_rat [OF mn(4)] by (simp_all add: a_def b_def)
  have x': "\<bar>x\<bar> = of_nat m / of_nat n" using x mn by simp
  have n: "(0 :: rat) < of_nat n" using mn by simp
  have "2 powi (a - b - 1) \<le> 2 powi (a - 1) / (2 powi b :: rat)" by (simp add: power_int_diff)
  also have "\<dots> \<le> of_nat m / of_nat n" using A(1) B(2) n by (intro frac_le) simp_all
  finally have lo: "2 powi (a - b - 1) \<le> \<bar>x\<bar>" using x' by simp
  have "(of_nat m :: rat) / of_nat n < 2 powi a / 2 powi (b - 1)"
    using A(2) B(1) n by (intro frac_less) simp_all
  also have "\<dots> = 2 powi (a - b + 1)" by (simp add: power_int_diff power_int_add)
  finally have hi: "\<bar>x\<bar> < 2 powi (a - b + 1)" using x' by simp
  have "lead x = (if 2 powi (a - b) \<le> \<bar>x\<bar> then a - b else a - b - 1)"
    using pq mn by (simp add: lead_def a_def b_def)
  then show "2 powi lead x \<le> \<bar>x\<bar>" "\<bar>x\<bar> < 2 powi (lead x + 1)" using lo hi by auto
qed

lemma ulp_pos [simp]: "0 < ulp x"
  by (simp add: ulp_def)

lemma ulp_le: "x \<noteq> 0 \<Longrightarrow> ulp x \<le> \<bar>x\<bar> / 2 ^ 52 \<or> ulp x = 2 powi - 1074"
proof -
  assume x: "x \<noteq> 0"
  have "ulp x = 2 powi (lead x - 52) \<or> ulp x = 2 powi - 1074" by (auto simp: ulp_def max_def)
  moreover have "(2 :: rat) powi (lead x - 52) = 2 powi lead x / 2 ^ 52" by (simp add: power_int_diff)
  ultimately show ?thesis using lead_bounds(1) [OF x] by (auto simp: divide_right_mono)
qed

text \<open>The error of one rounding.\<close>

definition eps :: rat where "eps = 1 / 2 ^ 53"
definition tiny :: rat where "tiny = 2 powi - 1075"

lemma nearest_error: "\<bar>nearest x - x\<bar> \<le> max (eps * \<bar>x\<bar>) tiny"
proof (cases "x = 0")
  case False
  let ?u = "ulp x"
  have "nearest x - x = (of_int (round_even (x / ?u)) - x / ?u) * ?u"
    using False less_imp_neq [OF ulp_pos, of x] by (simp add: nearest_def field_simps)
  then have "\<bar>nearest x - x\<bar> = \<bar>of_int (round_even (x / ?u)) - x / ?u\<bar> * ?u"
    by (simp add: abs_mult less_imp_le)
  also have "\<dots> \<le> 1 / 2 * ?u"
    by (rule mult_right_mono [OF round_even_error]) (simp add: less_imp_le)
  finally have e: "\<bar>nearest x - x\<bar> \<le> ?u / 2" by simp
  from ulp_le [OF False] show ?thesis
  proof
    assume "?u \<le> \<bar>x\<bar> / 2 ^ 52"
    then have "?u / 2 \<le> eps * \<bar>x\<bar>" by (simp add: eps_def)
    then have "\<bar>nearest x - x\<bar> \<le> eps * \<bar>x\<bar>" using e by linarith
    then show ?thesis by (simp add: le_max_iff_disj)
  next
    assume "?u = 2 powi - 1074"
    then have "?u / 2 = tiny" by (simp add: tiny_def power_int_minus)
    then show ?thesis using e by simp
  qed
qed (simp add: nearest_def tiny_def)

lemma eps_small: "0 < eps" "eps * 9007199254740992 = 1"
  by (simp_all add: eps_def)

lemma tiny_small: "0 < tiny" "tiny \<le> 1 / 2 ^ 1000"
proof -
  show "0 < tiny" by (simp add: tiny_def)
  have "tiny \<le> 2 powi - 1000" unfolding tiny_def by (rule power_int_increasing) simp_all
  also have "(2 :: rat) powi - 1000 = 1 / 2 ^ 1000" by (simp only: power_int_minus power_int_numeral divide_inverse mult_1)
  finally show "tiny \<le> 1 / 2 ^ 1000" .
qed

lemma f64_round_Fin:
  assumes "\<bar>x\<bar> \<le> 2 ^ 1023"
  shows "f64_round x = Fin (nearest x)"
proof -
  define h :: rat where "h = 2 ^ 1023"
  have h: "1 \<le> h" "2 ^ 1024 = h + h" unfolding h_def by (simp_all only: one_le_power one_le_numeral flip: mult_2 power_Suc) simp
  have "eps * \<bar>x\<bar> \<le> 1 / 2 * h"
    using assms [folded h_def] eps_small by (intro mult_mono) (simp_all add: eps_def)
  moreover have "tiny < 1" using tiny_small(2) by (rule le_less_trans) simp
  ultimately have "max (eps * \<bar>x\<bar>) tiny < h" using h(1) by auto
  then have "\<bar>nearest x\<bar> < h + h" using nearest_error [of x] assms [folded h_def] by linarith
  then show ?thesis unfolding f64_round_def Let_def h(2) by auto
qed

lemma nearest_nonneg: "0 \<le> x \<Longrightarrow> 0 \<le> nearest x"
  using round_even_nonneg [of "x / ulp x"] ulp_pos [of x]
  by (simp add: nearest_def zero_le_mult_iff less_imp_le zero_le_divide_iff)

lemma nearest_nonpos: "x \<le> 0 \<Longrightarrow> nearest x \<le> 0"
  using round_even_nonpos [of "x / ulp x"] ulp_pos [of x]
  by (simp add: nearest_def mult_le_0_iff less_imp_le divide_le_0_iff)

lemma nearest_0 [simp]: "nearest 0 = 0"
  by (simp add: nearest_def)

text \<open>Integers of up to 53 digits are exact.\<close>

lemma nearest_of_int:
  assumes "\<bar>n\<bar> < 2 ^ 53"
  shows "nearest (of_int n) = of_int n"
proof (cases "n = 0")
  case False
  let ?x = "of_int n :: rat"
  have "2 powi lead ?x \<le> \<bar>?x\<bar>" using lead_bounds(1) False by simp
  also have "\<bar>?x\<bar> = of_int \<bar>n\<bar>" by simp
  also have "\<dots> < of_int (2 ^ 53)" using assms by (simp only: of_int_less_iff)
  also have "\<dots> = 2 powi 53" by simp
  finally have "lead ?x < 53" using power_int_increasing [of 53 "lead ?x" "2 :: rat"] by (meson linorder_not_less one_le_numeral)
  then have "max (lead ?x - 52) (- 1074) = - int (nat (- max (lead ?x - 52) (- 1074)))" by simp
  then obtain k where k: "max (lead ?x - 52) (- 1074) = - int k" by blast
  have u: "ulp ?x = 1 / 2 ^ k" by (simp add: ulp_def k power_int_minus divide_inverse)
  then have "?x / ulp ?x = of_int (n * 2 ^ k)" by simp
  then have "nearest ?x = of_int (n * 2 ^ k) * ulp ?x" using False by (simp only: nearest_def round_even_of_int) simp
  then show ?thesis by (simp add: u)
qed simp

end
