(* ===== verification/Options.thy ===== *)
theory Options
  imports Float64 Rwlock
begin

text \<open>
  \<^verbatim>\<open>options.go\<close>, \<^verbatim>\<open>dist.go\<close> and \<^verbatim>\<open>metrics.go\<close>: the configuration of a primitive, the backoff of
  an acquisition, the client with its defaults, and the \<^verbatim>\<open>Metrics\<close> and \<^verbatim>\<open>Tracer\<close> interfaces
  as method tables over the state \<open>'w\<close> of whatever is installed. What \<^verbatim>\<open>rand.Float64\<close> returns
  is an argument \<open>r\<close>.
\<close>

section \<open>Configuration\<close>

record retryPolicy =
  base :: duration
  maxd :: duration

record config =
  ttl :: duration
  autoRenew :: bool
  retry :: retryPolicy
  fencing :: bool
  watchdog :: bool

type_synonym config_option = "config \<Rightarrow> config"

definition Lease_ttl :: "duration \<Rightarrow> config_option" where "Lease_ttl d c = c\<lparr>ttl := d\<rparr>"
definition AutoRenew :: config_option where "AutoRenew c = c\<lparr>autoRenew := True\<rparr>"
definition NoAutoRenew :: config_option where "NoAutoRenew c = c\<lparr>autoRenew := False\<rparr>"
definition Watchdog :: config_option where "Watchdog c = c\<lparr>watchdog := True\<rparr>"
definition Fencing_on :: config_option where "Fencing_on c = c\<lparr>fencing := True\<rparr>"
definition Retry :: "duration \<Rightarrow> duration \<Rightarrow> config_option" where
  "Retry b m c = c\<lparr>retry := \<lparr>base = b, maxd = m\<rparr>\<rparr>"

section \<open>Backoff\<close>

definition jitter :: "rat \<Rightarrow> f64" where
  "jitter r = f64_add (f64_round (4 / 5)) (f64_mul (f64_round (2 / 5)) (Fin r))"

definition delay :: "(f64 \<Rightarrow> int) \<Rightarrow> rat \<Rightarrow> retryPolicy \<Rightarrow> nat \<Rightarrow> duration" where
  "delay impl r rp attempt =
     (let b = (if base rp \<le> 0 then 50 * Millisecond else base rp);
          m = (if maxd rp \<le> 0 then 2 * Second else maxd rp);
          d = f64_mul (f64_of_int b) (Pow2 attempt);
          d' = (if f64_less (f64_of_int m) d then f64_of_int m else d)
      in f64_to_int64 impl (f64_mul d' (jitter r)))"

definition renewalInterval :: "(f64 \<Rightarrow> int) \<Rightarrow> rat \<Rightarrow> duration \<Rightarrow> duration" where
  "renewalInterval impl r t =
     (let b = quot t 3; b' = (if b \<le> 0 then Second else b)
      in f64_to_int64 impl (f64_mul (f64_of_int b') (jitter r)))"

section \<open>Metrics and tracing\<close>

record 'w metrics =
  m_Acquire :: "string \<Rightarrow> string \<Rightarrow> bool \<Rightarrow> duration \<Rightarrow> 'w \<Rightarrow> 'w"
  m_Release :: "string \<Rightarrow> string \<Rightarrow> 'w \<Rightarrow> 'w"
  m_Renew :: "string \<Rightarrow> string \<Rightarrow> bool \<Rightarrow> 'w \<Rightarrow> 'w"
  m_RenewalStopped :: "string \<Rightarrow> string \<Rightarrow> string \<Rightarrow> 'w \<Rightarrow> 'w"

definition noopMetrics :: "'w metrics" where
  "noopMetrics = \<lparr>m_Acquire = \<lambda>_ _ _ _ w. w, m_Release = \<lambda>_ _ w. w, m_Renew = \<lambda>_ _ _ w. w,
     m_RenewalStopped = \<lambda>_ _ _ w. w\<rparr>"

text \<open>\<^verbatim>\<open>Start\<close> opens a span and returns the function that finishes it.\<close>

record 'w tracer =
  t_Start :: "string \<Rightarrow> 'w \<Rightarrow> (goerr option \<Rightarrow> 'w \<Rightarrow> 'w) \<times> 'w"

definition noopTracer :: "'w tracer" where
  "noopTracer = \<lparr>t_Start = \<lambda>_ w. (\<lambda>_ w'. w', w)\<rparr>"

section \<open>The client\<close>

record ('s, 'w) client =
  rdb :: "'s redis"
  metrics :: "'w metrics"
  tracer :: "'w tracer"
  defaults :: config

type_synonym ('s, 'w) client_option = "('s, 'w) client \<Rightarrow> ('s, 'w) client"

definition New :: "'s redis \<Rightarrow> ('s, 'w) client_option list \<Rightarrow> ('s, 'w) client" where
  "New R opts = foldl (\<lambda>c opt. opt c)
     \<lparr>rdb = R, metrics = noopMetrics, tracer = noopTracer,
      defaults = \<lparr>ttl = 10 * Second, autoRenew = True,
        retry = \<lparr>base = 50 * Millisecond, maxd = 2 * Second\<rparr>, fencing = False, watchdog = False\<rparr>\<rparr> opts"

definition Client_Redis :: "('s, 'w) client \<Rightarrow> 's redis" where "Client_Redis c = rdb c"

definition resolved :: "('s, 'w) client \<Rightarrow> config_option list \<Rightarrow> config" where
  "resolved c opts =
     (let cfg = foldl (\<lambda>x opt. opt x) (defaults c) opts
      in if ttl cfg \<le> 0 then cfg\<lparr>ttl := ttl (defaults c)\<rparr> else cfg)"

definition WithMetrics :: "'w metrics option \<Rightarrow> ('s, 'w) client_option" where
  "WithMetrics m c = (case m of None \<Rightarrow> c | Some x \<Rightarrow> c\<lparr>metrics := x\<rparr>)"

definition WithTracer :: "'w tracer option \<Rightarrow> ('s, 'w) client_option" where
  "WithTracer t c = (case t of None \<Rightarrow> c | Some x \<Rightarrow> c\<lparr>tracer := x\<rparr>)"

definition WithDefaultLease :: "duration \<Rightarrow> ('s, 'w) client_option" where
  "WithDefaultLease d c = c\<lparr>defaults := (defaults c)\<lparr>ttl := d\<rparr>\<rparr>"

definition WithAutoRenew :: "bool \<Rightarrow> ('s, 'w) client_option" where
  "WithAutoRenew enabled c = c\<lparr>defaults := (defaults c)\<lparr>autoRenew := enabled\<rparr>\<rparr>"

definition WithRetry :: "duration \<Rightarrow> duration \<Rightarrow> ('s, 'w) client_option" where
  "WithRetry b m c = c\<lparr>defaults := (defaults c)\<lparr>retry := \<lparr>base = b, maxd = m\<rparr>\<rparr>\<rparr>"

section \<open>Bounds of the backoff\<close>

lemma nearest_between:
  assumes "1 / 2 ^ 900 \<le> x"
  shows "x * (1 - eps) \<le> nearest x" and "nearest x \<le> x * (1 + eps)"
proof -
  define h :: rat where "h = 1 / 2 ^ 900"
  have "0 < h" by (simp add: h_def)
  have "tiny \<le> eps * h"
  proof -
    have "tiny \<le> 1 / 2 ^ 1000" by (rule tiny_small)
    also have "\<dots> \<le> 1 / 2 ^ (53 + 900)" by (rule divide_left_mono) (auto intro: power_increasing)
    also have "\<dots> = eps * h" unfolding eps_def h_def power_add by simp
    finally show ?thesis .
  qed
  moreover have "eps * h \<le> eps * x" using assms [folded h_def] by (intro mult_left_mono) (simp_all add: eps_def)
  ultimately have "\<bar>nearest x - x\<bar> \<le> eps * x"
    using nearest_error [of x] assms [folded h_def] \<open>0 < h\<close> by (simp add: max_def split: if_splits)
  then show "x * (1 - eps) \<le> nearest x" "nearest x \<le> x * (1 + eps)" by (simp_all add: algebra_simps abs_le_iff)
qed

text \<open>Much weaker than the truth, but enough and easier to compose.\<close>

lemma nearest_close:
  assumes "1 / 100 \<le> x"
  shows "x * (999999 / 1000000) \<le> nearest x" and "nearest x \<le> x * (1000001 / 1000000)"
proof -
  have "(1 :: rat) / 2 ^ 900 \<le> 1 / 2 ^ 7" by (rule divide_left_mono) (auto intro: power_increasing)
  then have x: "1 / 2 ^ 900 \<le> x" by (rule order_trans) (use assms in simp)
  have "x * (999999 / 1000000) \<le> x * (1 - eps)" "x * (1 + eps) \<le> x * (1000001 / 1000000)"
    using assms by (auto simp: eps_def intro!: mult_left_mono)
  then show "x * (999999 / 1000000) \<le> nearest x" "nearest x \<le> x * (1000001 / 1000000)"
    using nearest_between [OF x] by linarith+
qed

lemma huge: "(q :: rat) \<le> 2 ^ 200 \<Longrightarrow> q \<le> 2 ^ 1023"
  by (erule order_trans) (rule power_increasing, simp_all)

lemma f64_round_small:
  assumes "0 \<le> x" and "x \<le> 2 ^ 200"
  shows "f64_round x = Fin (nearest x)"
  using assms huge [of x] by (intro f64_round_Fin) simp

lemma jitter_bounds:
  assumes "0 \<le> r" and "r < 1"
  obtains j where "jitter r = Fin j" "79999 / 100000 \<le> j" "j \<le> 120001 / 100000"
proof -
  define a b where "a = nearest (4 / 5)" and "b = nearest (2 / 5)"
  have a: "f64_round (4 / 5) = Fin a" "799999 / 1000000 \<le> a" "a \<le> 800001 / 1000000"
    using f64_round_small [of "4 / 5"] nearest_close [of "4 / 5"] by (simp_all add: a_def)
  have b: "f64_round (2 / 5) = Fin b" "0 \<le> b" "b \<le> 400001 / 1000000"
    using f64_round_small [of "2 / 5"] nearest_close [of "2 / 5"] by (simp_all add: b_def)
  have br: "0 \<le> b * r" "b * r \<le> 400001 / 1000000" using b assms mult_mono [of b "400001 / 1000000" r 1] by simp_all
  define c where "c = nearest (b * r)"
  have "tiny \<le> 1 / 1000000" using tiny_small(2) by (rule order_trans) simp
  then have c: "f64_round (b * r) = Fin c" "0 \<le> c" "c \<le> 400003 / 1000000"
    using f64_round_small [of "b * r"] nearest_nonneg [OF br(1)] nearest_error [of "b * r"] br
    by (auto simp: c_def eps_def max_def abs_le_iff split: if_splits)
  have "jitter r = Fin (nearest (a + c))" using a b c f64_round_small [of "a + c"] by (simp add: jitter_def)
  moreover have "79999 / 100000 \<le> nearest (a + c)" "nearest (a + c) \<le> 120001 / 100000"
    using nearest_close [of "a + c"] a c by (auto simp: field_simps)
  ultimately show ?thesis by (rule that)
qed

text \<open>A duration in floating point, scaled by the jitter and cut to a duration again.\<close>

lemma jittered_bounds:
  assumes r: "0 \<le> r" "r < 1" and d: "1 \<le> d" "d \<le> 2 ^ 62" and c: "d * (99999 / 100000) \<le> c" "c \<le> d * (100001 / 100000)"
  shows "d * (7999 / 10000) - 1 \<le> of_int (f64_to_int64 impl (f64_mul (Fin c) (jitter r)))"
    and "of_int (f64_to_int64 impl (f64_mul (Fin c) (jitter r))) \<le> d * (12001 / 10000)"
proof -
  obtain j where j: "jitter r = Fin j" "79999 / 100000 \<le> j" "j \<le> 120001 / 100000" using jitter_bounds [OF r] by blast
  have c0: "0 \<le> c" using c(1) d by (auto intro: order_trans)
  have lo: "d * (99999 / 100000) * (79999 / 100000) \<le> c * j"
    by (rule mult_mono) (use c j d c0 in auto)
  have hi: "c * j \<le> d * (100001 / 100000) * (120001 / 100000)"
    by (rule mult_mono) (use c j d c0 in auto)
  have x: "1 / 100 \<le> c * j" "c * j \<le> 2 ^ 200" using lo hi d by auto
  define y where "y = nearest (c * j)"
  have y: "d * (7999 / 10000) \<le> y" "y \<le> d * (12001 / 10000)"
    using nearest_close [OF x(1)] lo hi d by (auto simp: y_def)
  have fy: "f64_mul (Fin c) (jitter r) = Fin y" using f64_round_small [OF _ x(2)] x(1) by (simp add: j y_def)
  have y0: "0 \<le> y" "y < 2 ^ 63" using y d by auto
  then have "0 \<le> \<lfloor>y\<rfloor>" "\<lfloor>y\<rfloor> < 2 ^ 63" by (simp_all add: floor_less_iff)
  then have "f64_to_int64 impl (Fin y) = \<lfloor>y\<rfloor>" using y0 by (simp add: f64_to_int64_def trunc_def)
  then show "d * (7999 / 10000) - 1 \<le> of_int (f64_to_int64 impl (f64_mul (Fin c) (jitter r)))"
    "of_int (f64_to_int64 impl (f64_mul (Fin c) (jitter r))) \<le> d * (12001 / 10000)"
    using y by (simp_all add: fy) linarith+
qed


lemma f64_of_int_close:
  assumes "1 \<le> n" and "n \<le> 2 ^ 62"
  obtains x where "f64_of_int n = Fin x" "of_int n * (999999 / 1000000) \<le> x" "x \<le> of_int n * (1000001 / 1000000)"
proof -
  have "(of_int n :: rat) \<le> of_int (2 ^ 62)" using assms(2) by (simp only: of_int_le_iff)
  then have "f64_of_int n = Fin (nearest (of_int n))"
    unfolding f64_of_int_def using assms(1) by (intro f64_round_small) simp_all
  then show ?thesis using that nearest_close [of "of_int n"] assms(1) by simp
qed

text \<open>The capped exponential, in floating point.\<close>

lemma capped_close:
  fixes b m :: int and n :: nat
  assumes b: "1 \<le> b" "b \<le> 2 ^ 62" and m: "1 \<le> m" "m \<le> 2 ^ 62"
  defines "d \<equiv> f64_mul (f64_of_int b) (Pow2 n)"
  obtains c where "(if f64_less (f64_of_int m) d then f64_of_int m else d) = Fin c"
    "of_int (min (b * 2 ^ n) m) * (99999 / 100000) \<le> c" "c \<le> of_int (min (b * 2 ^ n) m) * (100001 / 100000)"
proof -
  obtain fb where fb: "f64_of_int b = Fin fb" "of_int b * (999999 / 1000000) \<le> fb" "fb \<le> of_int b * (1000001 / 1000000)"
    using f64_of_int_close [OF b] .
  obtain fm where fm: "f64_of_int m = Fin fm" "of_int m * (999999 / 1000000) \<le> fm" "fm \<le> of_int m * (1000001 / 1000000)"
    using f64_of_int_close [OF m] .
  have b1: "(1 :: rat) \<le> of_int b" and m1: "(1 :: rat) \<le> of_int m" using b m by simp_all
  have "(of_int m :: rat) \<le> of_int (2 ^ 62)" using m(2) by (simp only: of_int_le_iff)
  then have fm': "fm < 2 ^ 64" using fm(3) by simp
  show ?thesis
  proof (cases "n \<le> 100")
    case True
    define P :: rat where "P = 2 ^ n"
    have P: "1 \<le> P" "P \<le> 2 ^ 100" using True by (simp_all add: P_def power_increasing del: power_numeral)
    have B: "(of_int b :: rat) \<le> of_int (2 ^ 62)" using b(2) by (simp only: of_int_le_iff)
    have x: "of_int b * P * (999999 / 1000000) \<le> fb * P" "fb * P \<le> of_int b * P * (1000001 / 1000000)"
      using mult_right_mono [OF fb(2), of P] mult_right_mono [OF fb(3), of P] P by (simp_all add: mult.commute mult.left_commute)
    have bP: "1 \<le> of_int b * P" "of_int b * P \<le> 2 ^ 62 * 2 ^ 100"
      using mult_mono [of 1 "of_int b" 1 P] mult_mono [of "of_int b" "2 ^ 62" P "2 ^ 100"] b1 P B by simp_all
    define y where "y = nearest (fb * P)"
    have "0 \<le> fb * P" "fb * P \<le> 2 ^ 200" using x bP by simp_all
    then have "f64_round (fb * P) = Fin y" unfolding y_def by (rule f64_round_small)
    then have "d = Fin y" using fb(1) True by (simp add: d_def Pow2_def P_def)
    moreover have "of_int b * P * (99999 / 100000) \<le> y" "y \<le> of_int b * P * (100001 / 100000)"
      using nearest_close [of "fb * P"] x bP by (simp_all add: y_def)
    moreover have "(of_int (min (b * 2 ^ n) m) :: rat) = min (of_int b * P) (of_int m)" by (simp add: P_def of_int_min)
    ultimately show ?thesis using that [of "if fm < y then fm else y"] fm m1 by (auto simp: min_def split: if_splits)
  next
    case False
    have "m < 2 ^ 63" using m(2) by simp
    also have "(2 :: int) ^ 63 \<le> 2 ^ n" using False by (intro power_increasing) simp_all
    also have "\<dots> \<le> b * 2 ^ n" using b(1) by simp
    finally have min: "min (b * 2 ^ n) m = m" by simp
    have "f64_less (Fin fm) d"
    proof (cases "n < 1024")
      case True
      have "(2 :: rat) ^ 64 * 2 \<le> 2 ^ n" using False power_increasing [of 65 n "2 :: rat"] by simp
      also have "\<dots> \<le> fb * 2 ^ n * (1000002 / 1000000)"
        using b1 fb(2) mult_right_mono [of 1 "fb * (1000002 / 1000000)" "2 ^ n"] by (simp add: mult_ac)
      finally have big: "2 ^ 64 * (3 / 2) \<le> fb * 2 ^ n" by simp
      have "nearest (fb * 2 ^ n) > fm" using nearest_close(1) [of "fb * 2 ^ n"] big fm' by simp
      moreover have "0 < nearest (fb * 2 ^ n)" using calculation fm(2) m1 by simp
      ultimately show ?thesis using True fb(1) by (auto simp: d_def Pow2_def f64_round_def Let_def)
    qed (use fb b1 in \<open>auto simp: d_def Pow2_def signed_inf_def\<close>)
    then show ?thesis using that [of fm] fm m1 by (simp add: min)
  qed
qed

lemma delay_between:
  fixes r :: rat and rp :: retryPolicy and attempt :: nat
  assumes r: "0 \<le> r" "r < 1" and range: "base rp \<le> 2 ^ 62" "maxd rp \<le> 2 ^ 62"
  defines "ideal \<equiv> of_int (min ((if base rp \<le> 0 then 50 * Millisecond else base rp) * 2 ^ attempt)
                          (if maxd rp \<le> 0 then 2 * Second else maxd rp)) :: rat"
  shows "ideal * (7999 / 10000) - 1 \<le> of_int (delay impl r rp attempt) \<and>
    of_int (delay impl r rp attempt) \<le> ideal * (12001 / 10000)"
proof -
  let ?b = "if base rp \<le> 0 then 50 * Millisecond else base rp"
  let ?m = "if maxd rp \<le> 0 then 2 * Second else maxd rp"
  have b: "1 \<le> ?b" "?b \<le> 2 ^ 62" and m: "1 \<le> ?m" "?m \<le> 2 ^ 62" using range by auto
  obtain c where c: "(if f64_less (f64_of_int ?m) (f64_mul (f64_of_int ?b) (Pow2 attempt)) then f64_of_int ?m
      else f64_mul (f64_of_int ?b) (Pow2 attempt)) = Fin c" "ideal * (99999 / 100000) \<le> c" "c \<le> ideal * (100001 / 100000)"
    unfolding ideal_def by (rule capped_close [OF b m, where n = attempt])
  have "1 \<le> ?b * 2 ^ attempt" using mult_mono [of 1 ?b 1 "2 ^ attempt"] b(1) by simp
  then have "1 \<le> min (?b * 2 ^ attempt) ?m" "min (?b * 2 ^ attempt) ?m \<le> 2 ^ 62" using m by simp_all
  then have "of_int 1 \<le> ideal" "ideal \<le> of_int (2 ^ 62)" unfolding ideal_def by (simp_all only: of_int_le_iff)
  then have "1 \<le> ideal" "ideal \<le> 2 ^ 62" by simp_all
  from jittered_bounds [OF r this c(2,3), of impl] show ?thesis
    unfolding delay_def Let_def c(1) by blast
qed

text \<open>
  C34: The backoff before the next attempt is the base doubled once per attempt, capped at the
  maximum, and scattered by a fifth either way; the defaults replace bounds that are not
  positive. This holds of the floating-point computation, whose rounding, overflow included,
  costs less than one part in ten thousand, and the cut to whole nanoseconds one nanosecond.
\<close>

theorem delay_bounds:
  fixes r :: rat and rp :: retryPolicy and attempt :: nat
  assumes r: "0 \<le> r" "r < 1" and range: "base rp \<le> 2 ^ 62" "maxd rp \<le> 2 ^ 62"
  defines "ideal \<equiv> of_int (min ((if base rp \<le> 0 then 50 * Millisecond else base rp) * 2 ^ attempt)
                          (if maxd rp \<le> 0 then 2 * Second else maxd rp)) :: rat"
  shows "ideal * (7999 / 10000) - 1 \<le> of_int (delay impl r rp attempt) \<and>
    of_int (delay impl r rp attempt) \<le> ideal * (12001 / 10000)"
  unfolding ideal_def by (rule delay_between [OF r range])

theorem delay_bounds_witness:
  "(1599799999 :: rat) \<le> of_int (delay (\<lambda>_. 0) (1 / 2) \<lparr>base = 0, maxd = 0\<rparr> 2000) \<and>
   of_int (delay (\<lambda>_. 0) (1 / 2) \<lparr>base = 0, maxd = 0\<rparr> 2000) \<le> (2400200000 :: rat)"
proof -
  have "(2000000000 :: int) \<le> 50000000 * 2 ^ 6" by simp
  also have "(50000000 :: int) * 2 ^ 6 \<le> 50000000 * 2 ^ 2000" by (intro mult_left_mono power_increasing) simp_all
  finally have "min (50000000 * 2 ^ 2000) (2000000000 :: int) = 2000000000" by (rule min_absorb2)
  then show ?thesis
    using delay_bounds [of "1 / 2" "\<lparr>base = 0, maxd = 0\<rparr>" 2000 "\<lambda>_. 0"] by (simp del: power_numeral)
qed


lemma renewalInterval_bounds:
  assumes r: "0 \<le> r" "r < 1" and t: "3 \<le> t" "t \<le> 2 ^ 62"
  shows "of_int (t div 3) * (7999 / 10000 :: rat) - 1 \<le> of_int (renewalInterval impl r t)"
    and "of_int (renewalInterval impl r t) \<le> of_int (t div 3) * (12001 / 10000 :: rat)"
proof -
  have b: "1 \<le> t div 3" "t div 3 \<le> 2 ^ 62" using t by (simp_all add: zdiv_mono1 [of 3 t 3, simplified])
  obtain x where x: "f64_of_int (t div 3) = Fin x" "of_int (t div 3) * (999999 / 1000000) \<le> x"
    "x \<le> of_int (t div 3) * (1000001 / 1000000)" using f64_of_int_close [OF b] .
  have i: "renewalInterval impl r t = f64_to_int64 impl (f64_mul (Fin x) (jitter r))"
    using b(1) t(1) x(1) by (simp add: renewalInterval_def)
  have "of_int 1 \<le> (of_int (t div 3) :: rat)" "(of_int (t div 3) :: rat) \<le> of_int (2 ^ 62)"
    using b by (simp_all only: of_int_le_iff)
  then have d: "(1 :: rat) \<le> of_int (t div 3)" "(of_int (t div 3) :: rat) \<le> 2 ^ 62" by simp_all
  have c: "of_int (t div 3) * (99999 / 100000) \<le> x" "x \<le> of_int (t div 3) * (100001 / 100000)"
    using x(2,3) d by simp_all
  show "of_int (t div 3) * (7999 / 10000 :: rat) - 1 \<le> of_int (renewalInterval impl r t)"
    "of_int (renewalInterval impl r t) \<le> of_int (t div 3) * (12001 / 10000 :: rat)"
    unfolding i by (rule jittered_bounds [OF r d c])+
qed

text \<open>
  Two heartbeats fit into a lease: with any jitter, twice the renewal interval ends before
  the local deadline a grant sets, for every lease of six milliseconds or more. One missed
  heartbeat therefore does not lose the lease.
\<close>

theorem two_heartbeats_fit:
  assumes r: "0 \<le> r" "r < 1" and t: "6 * Millisecond \<le> t" "t \<le> 2 ^ 62"
  shows "0 < renewalInterval impl r t \<and> start + 2 * renewalInterval impl r t < requestExpiry start t"
proof -
  let ?i = "renewalInterval impl r t"
  have t3: "3 \<le> t" using t by simp
  note b = renewalInterval_bounds [OF r t3 t(2), of impl]
  have "of_int (2000000) \<le> (of_int (t div 3) :: rat)" using t(1) by (simp only: of_int_le_iff zdiv_mono1 [of 6000000 t 3, simplified])
  then have "(0 :: rat) < of_int ?i" using b(1) by simp
  moreover have "(of_int ?i :: rat) * 10000 \<le> of_int (t div 3) * 12001" using b(2) by simp
  then have "of_int (?i * 10000) \<le> (of_int (t div 3 * 12001) :: rat)" by simp
  then have "?i * 10000 \<le> t div 3 * 12001" by (simp only: of_int_le_iff)
  moreover have "3 * (t div 3) \<le> t" "100 * (t div 100) \<le> t" by simp_all
  moreover have "requestExpiry start t = start + t - t div 100 - Millisecond" using t by (intro requestExpiry_eq) simp_all
  ultimately show ?thesis using t by simp
qed

theorem two_heartbeats_fit_witness:
  "7000000000 + 2 * renewalInterval (\<lambda>_. 0) (1 / 4) (10 * Second) < requestExpiry 7000000000 (10 * Second)"
  using two_heartbeats_fit [of "1 / 4" "10 * Second" "\<lambda>_. 0" 7000000000] by simp


text \<open>
  A waiter of the read/write lock that goes on retrying beats in time: when the longest
  backoff, jitter included, and the time of a request fit into twice the lease, the next
  heartbeat is sent before the waiter counts as crashed.
\<close>

theorem waiter_outlives_backoff:
  assumes r: "0 \<le> r" "r < 1" and range: "base rp \<le> 2 ^ 62" "maxd rp \<le> 2 ^ 62" and t: "0 < t" "t < 2 ^ 62"
    and fits: "12001 * (if maxd rp \<le> 0 then 2 * Second else maxd rp) + 10000 * (request + Millisecond) \<le> 20000 * t"
  shows "delay impl r rp attempt + request \<le> waiterTimeout t * Millisecond"
proof -
  define b m where "b = (if base rp \<le> 0 then 50 * Millisecond else base rp)"
    and "m = (if maxd rp \<le> 0 then 2 * Second else maxd rp)"
  define x where "x = min (b * 2 ^ attempt) m"
  have "of_int (delay impl r rp attempt) * 10000 \<le> (of_int x * 12001 :: rat)"
    using delay_between [OF r range, of attempt impl] by (simp add: x_def b_def m_def)
  then have "of_int (delay impl r rp attempt * 10000) \<le> (of_int (x * 12001) :: rat)" by simp
  then have "delay impl r rp attempt * 10000 \<le> x * 12001" by (simp only: of_int_le_iff)
  moreover have "x \<le> m" by (simp add: x_def)
  moreover have "waiterTimeout t * Millisecond > 2 * t - Millisecond"
    using t mult_div_bounds [of Millisecond "2 * t"] by (simp add: waiterTimeout_def Milliseconds_nonneg)
  ultimately show ?thesis using fits [folded m_def] by (simp add: algebra_simps)
qed

theorem waiter_outlives_backoff_witness:
  "delay (\<lambda>_. 0) (1 / 2) \<lparr>base = 50 * Millisecond, maxd = 2 * Second\<rparr> 9 + Second \<le> waiterTimeout (10 * Second) * Millisecond"
  using waiter_outlives_backoff [of "1 / 2" "\<lparr>base = 50 * Millisecond, maxd = 2 * Second\<rparr>" "10 * Second" Second "\<lambda>_. 0" 9]
  by simp

text \<open>
  It does not beat in time under a short lease. With the default backoff and a lease below
  800 milliseconds, every delay from the seventh attempt on is longer than the time after
  which the waiter counts as crashed, whatever the jitter.
\<close>

theorem short_lease_waiter_late:
  assumes r: "0 \<le> r" "r < 1" and t: "0 < t" "t < 799 * Millisecond" and attempt: "6 \<le> attempt"
  shows "waiterTimeout t * Millisecond < delay impl r (retry (defaults (New R []))) attempt"
proof -
  let ?rp = "\<lparr>base = 50 * Millisecond, maxd = 2 * Second\<rparr>"
  have rp: "retry (defaults (New R [])) = ?rp" by (simp add: New_def)
  have "50 * Millisecond * 2 ^ 6 \<le> 50 * Millisecond * (2 :: int) ^ attempt"
    using attempt by (intro mult_left_mono power_increasing) simp_all
  then have "min (50 * Millisecond * 2 ^ attempt) (2 * Second) = 2 * Second" by simp
  then have "2000000000 * (7999 / 10000) - 1 \<le> (of_int (delay impl r ?rp attempt) :: rat)"
    using delay_between [OF r, of ?rp attempt impl] by simp
  then have "of_int 1599799999 \<le> (of_int (delay impl r ?rp attempt) :: rat)" by simp
  then have "1599799999 \<le> delay impl r ?rp attempt" by (simp only: of_int_le_iff)
  moreover have "waiterTimeout t * Millisecond \<le> 2 * t"
    using t mult_div_bounds [of Millisecond "2 * t"] by (simp add: waiterTimeout_def Milliseconds_nonneg)
  ultimately show ?thesis using t unfolding rp by linarith
qed

theorem short_lease_waiter_late_witness:
  "waiterTimeout (500 * Millisecond) * Millisecond < delay (\<lambda>_. 0) 0 (retry (defaults (New mem_redis []))) 6"
  using short_lease_waiter_late [of 0 "500 * Millisecond" 6 "\<lambda>_. 0" mem_redis] by simp

end
