(* ===== verification/Keys.thy ===== *)
theory Keys
  imports Rwlock
begin

text \<open>
  \<^verbatim>\<open>internal/redis/key.go\<close>: the keys of a primitive. In a Redis Cluster a key belongs to the
  slot its hash tag selects, and a script may only use keys of one slot. \<open>hash_tag\<close> is the
  rule of the cluster specification; the slot function itself is a parameter.
\<close>

definition Key :: "string \<Rightarrow> string" where
  "Key name = (if CHR ''{'' \<in> set name \<and> CHR ''}'' \<in> set name then name else ''{'' @ name @ ''}'')"

definition Derived :: "string \<Rightarrow> string \<Rightarrow> string" where
  "Derived primary suffix = primary @ '':'' @ suffix"

section \<open>Cluster slots\<close>

text \<open>
  What is hashed: the text between the first opening brace and the first closing brace after
  it, when there are such braces and the text is not empty; the whole key otherwise.
\<close>

definition hash_tag :: "string \<Rightarrow> string" where
  "hash_tag k = (case dropWhile (\<lambda>c. c \<noteq> CHR ''{'') k of
       [] \<Rightarrow> k
     | _ # rest \<Rightarrow> let t = takeWhile (\<lambda>c. c \<noteq> CHR ''}'') rest in
         if CHR ''}'' \<notin> set rest \<or> t = [] then k else t)"

text \<open>
  A name that gives a well-formed family of keys: one that \<^verbatim>\<open>Key\<close> keeps has a proper tag
  already, one that it wraps is not empty and does not begin with a closing brace.
\<close>

definition good_name :: "string \<Rightarrow> bool" where
  "good_name name =
     (if CHR ''{'' \<in> set name \<and> CHR ''}'' \<in> set name
      then (let rest = tl (dropWhile (\<lambda>c. c \<noteq> CHR ''{'') name) in
            CHR ''}'' \<in> set rest \<and> hd rest \<noteq> CHR ''}'')
      else name \<noteq> [] \<and> hd name \<noteq> CHR ''}'')"

lemma hash_tag_split:
  assumes "CHR ''{'' \<notin> set a" and "CHR ''}'' \<notin> set t" and "t \<noteq> []"
  shows "hash_tag (a @ CHR ''{'' # t @ CHR ''}'' # b) = t"
proof -
  have "dropWhile (\<lambda>c. c \<noteq> CHR ''{'') (a @ CHR ''{'' # t @ CHR ''}'' # b) = CHR ''{'' # t @ CHR ''}'' # b"
    using assms(1) by (subst dropWhile_append2) (auto intro: ccontr)
  moreover have "takeWhile (\<lambda>c. c \<noteq> CHR ''}'') (t @ CHR ''}'' # b) = t"
    using assms(2) by (subst takeWhile_append2) (auto intro: ccontr)
  ultimately show ?thesis using assms(3) by (simp add: hash_tag_def)
qed

text \<open>A good name gives a key with a proper tag.\<close>

lemma good_name_tagged:
  assumes "good_name name"
  obtains a t b where "Key name = a @ CHR ''{'' # t @ CHR ''}'' # b"
    "CHR ''{'' \<notin> set a" "CHR ''}'' \<notin> set t" "t \<noteq> []"
proof (cases "CHR ''{'' \<in> set name \<and> CHR ''}'' \<in> set name")
  case True
  obtain a r where n: "name = a @ CHR ''{'' # r" "CHR ''{'' \<notin> set a" using True by (meson split_list_first)
  have "dropWhile (\<lambda>c. c \<noteq> CHR ''{'') name = CHR ''{'' # r"
    unfolding n(1) using n(2) by (subst dropWhile_append2) (auto intro: ccontr)
  then have r: "CHR ''}'' \<in> set r" "hd r \<noteq> CHR ''}''" using assms True by (simp_all add: good_name_def)
  then obtain t b where t: "r = t @ CHR ''}'' # b" "CHR ''}'' \<notin> set t" by (meson split_list_first)
  then have "t \<noteq> []" using r(2) by auto
  then show ?thesis using that n t True by (simp add: Key_def)
next
  case False
  then have k: "Key name = ''{'' @ name @ ''}''" by (simp add: Key_def)
  obtain t b where t: "name @ ''}'' = t @ CHR ''}'' # b" "CHR ''}'' \<notin> set t"
    using split_list_first [of "CHR ''}''" "name @ ''}''"] by auto
  have "t \<noteq> []" using t False assms by (cases name) (auto simp: good_name_def)
  then show ?thesis using that [of "[]" t b] k t by simp
qed

text \<open>Without a proper tag the whole key is hashed, and so is every key derived from it.\<close>

lemma bad_name_untagged:
  assumes "\<not> good_name name" and "CHR ''{'' \<notin> set b" and "CHR ''}'' \<notin> set b"
  shows "hash_tag (Key name @ b) = Key name @ b"
proof (cases "CHR ''{'' \<in> set name \<and> CHR ''}'' \<in> set name")
  case True
  then have k: "Key name = name" by (simp add: Key_def)
  obtain a r where n: "name = a @ CHR ''{'' # r" "CHR ''{'' \<notin> set a" using True by (meson split_list_first)
  have d: "dropWhile (\<lambda>c. c \<noteq> CHR ''{'') (a @ CHR ''{'' # r @ x) = CHR ''{'' # r @ x" for x
    using n(2) by (subst dropWhile_append2) (auto intro: ccontr)
  have "CHR ''}'' \<notin> set r \<or> hd r = CHR ''}''" using assms(1) True d [of "[]"] n(1) by (simp add: good_name_def)
  then have "CHR ''}'' \<notin> set (r @ b) \<or> takeWhile (\<lambda>c. c \<noteq> CHR ''}'') (r @ b) = []"
    using assms(3) by (cases r) auto
  moreover have "Key name @ b = a @ CHR ''{'' # r @ b" using k n(1) by simp
  ultimately show ?thesis using d [of b] by (auto simp: hash_tag_def)
next
  case False
  then have "name = [] \<or> hd name = CHR ''}''" using assms(1) unfolding good_name_def by (simp only: if_False) simp
  then show ?thesis using False by (cases name) (auto simp: Key_def hash_tag_def)
qed

text \<open>
  The keys of a primitive share one cluster slot. In a cluster whose slot of a key depends
  on its hash tag only, every key derived from a good name is on the slot of the primary key,
  whatever the suffix. For any other name the family falls apart: the primary key and a
  derived key are hashed over different texts.
\<close>

theorem family_one_slot:
  assumes cluster: "\<And>k. slot k = crc (hash_tag k)"
  shows "(good_name name \<longrightarrow> slot (Derived (Key name) suffix) = slot (Key name)) \<and>
    (\<not> good_name name \<and> CHR ''{'' \<notin> set suffix \<and> CHR ''}'' \<notin> set suffix \<longrightarrow>
      hash_tag (Derived (Key name) suffix) \<noteq> hash_tag (Key name))"
proof (intro conjI impI)
  assume "good_name name"
  then obtain a t b where k: "Key name = a @ CHR ''{'' # t @ CHR ''}'' # b"
    "CHR ''{'' \<notin> set a" "CHR ''}'' \<notin> set t" "t \<noteq> []" by (rule good_name_tagged)
  then show "slot (Derived (Key name) suffix) = slot (Key name)"
    using hash_tag_split [OF k(2-4), of b] hash_tag_split [OF k(2-4), of "b @ '':'' @ suffix"]
    by (simp add: cluster Derived_def)
next
  assume "\<not> good_name name \<and> CHR ''{'' \<notin> set suffix \<and> CHR ''}'' \<notin> set suffix"
  then show "hash_tag (Derived (Key name) suffix) \<noteq> hash_tag (Key name)"
    using bad_name_untagged [of name "[]"] bad_name_untagged [of name "'':'' @ suffix"]
    by (simp add: Derived_def)
qed

theorem family_one_slot_witness:
  "length (hash_tag ''{order}:fencing'') = length (hash_tag ''{order}'') \<and>
   hash_tag ''}{:fencing'' \<noteq> hash_tag ''}{''"
  using family_one_slot [where slot = "\<lambda>k. length (hash_tag k)" and crc = length and name = "''order''" and suffix = "''fencing''"]
    family_one_slot [where slot = "\<lambda>k. length (hash_tag k)" and crc = length and name = "''}{''" and suffix = "''fencing''"]
  by (simp add: good_name_def Key_def Derived_def)

section \<open>Key families\<close>

lemma Derived_inject [simp]: "Derived k a = Derived k b \<longleftrightarrow> a = b"
  by (simp add: Derived_def)

lemma Derived_not_primary [simp]: "Derived k a \<noteq> k" "k \<noteq> Derived k a"
  by (simp_all add: Derived_def)

end
