(* ===== verification/Renewer.thy ===== *)
theory Renewer
  imports Prelude 
begin

text \<open>
  \<^verbatim>\<open>internal/lease/renewer.go\<close>: the background loop that drives renewals, with concurrent
  \<^verbatim>\<open>Start\<close> and \<^verbatim>\<open>Stop\<close> calls. The program counter of the loop and of each \<^verbatim>\<open>Stop\<close> call is part
  of the state, one step per operation on shared state, so that every interleaving is a path
  of the step relation. What \<^verbatim>\<open>renew\<close> returns, when the ticker fires and which ready case
  \<^verbatim>\<open>select\<close> takes are the environment's choice.
\<close>

section \<open>State\<close>

text \<open>
  Where the loop is: not launched, in \<^verbatim>\<open>select\<close>, past a tick, inside \<^verbatim>\<open>renew\<close>, back from it,
  past the second look at the context, about to call \<^verbatim>\<open>onLost\<close>, or returned (with \<^verbatim>\<open>done\<close>
  closed by its \<^verbatim>\<open>defer\<close>).
\<close>

datatype loop_pc =
    NotLaunched
  | Selecting
  | Ticked
  | Renewing
  | Returned "goerr option"
  | Judging "goerr option"
  | Notifying
  | Exited

text \<open>A \<^verbatim>\<open>Stop\<close> call: not begun, past \<^verbatim>\<open>cancel\<close>, waiting for \<^verbatim>\<open>done\<close>, returned.\<close>

datatype stop_pc = StopIdle | StopCancelled | StopWaiting | StopReturned

text \<open>
  \<open>closes\<close> counts how often \<^verbatim>\<open>done\<close> was closed (a second close would panic), \<open>renewals\<close>
  the calls of \<^verbatim>\<open>renew\<close> and \<open>losses\<close> those of \<^verbatim>\<open>onLost\<close>.
\<close>

record renewer =
  interval :: duration
  cancelled :: bool
  started :: bool
  closes :: nat
  pc :: loop_pc
  stops :: "nat \<Rightarrow> stop_pc"
  renewals :: nat
  losses :: nat

definition NewRenewer :: "duration \<Rightarrow> renewer" where
  "NewRenewer i = \<lparr>interval = i, cancelled = False, started = False, closes = 0, pc = NotLaunched,
     stops = (\<lambda>_. StopIdle), renewals = 0, losses = 0\<rparr>"

definition Done_closed :: "renewer \<Rightarrow> bool" where
  "Done_closed r = (0 < closes r)"

section \<open>Operations\<close>

definition close_done :: "renewer \<Rightarrow> renewer" where
  "close_done r = r\<lparr>closes := Suc (closes r)\<rparr>"

definition Renewer_Start :: "renewer \<Rightarrow> renewer" where
  "Renewer_Start r = (if started r then r else r\<lparr>started := True, pc := Selecting\<rparr>)"

text \<open>The steps of the \<open>i\<close>-th \<^verbatim>\<open>Stop\<close> call; the last one blocks until \<^verbatim>\<open>done\<close> is closed.\<close>

fun Renewer_Stop :: "nat \<Rightarrow> renewer \<Rightarrow> renewer option" where
  "Renewer_Stop i r = (case stops r i of
       StopIdle \<Rightarrow> Some (r\<lparr>cancelled := True, stops := (stops r)(i := StopCancelled)\<rparr>)
     | StopCancelled \<Rightarrow>
         let r' = (if started r then r else close_done (r\<lparr>started := True\<rparr>))
         in Some (r'\<lparr>stops := (stops r)(i := StopWaiting)\<rparr>)
     | StopWaiting \<Rightarrow> if Done_closed r then Some (r\<lparr>stops := (stops r)(i := StopReturned)\<rparr>) else None
     | StopReturned \<Rightarrow> None)"

definition loop_return :: "renewer \<Rightarrow> renewer" where
  "loop_return r = close_done (r\<lparr>pc := Exited\<rparr>)"

text \<open>The steps of the loop, on what the environment does next.\<close>

datatype loop_event = CtxDone | TickerFires | RenewReturns "goerr option" | Continues

fun loop_step :: "loop_event \<Rightarrow> renewer \<Rightarrow> renewer option" where
  "loop_step ev r = (case (pc r, ev) of
       (Selecting, CtxDone) \<Rightarrow> if cancelled r then Some (loop_return r) else None
     | (Selecting, TickerFires) \<Rightarrow> Some (r\<lparr>pc := Ticked\<rparr>)
     | (Ticked, Continues) \<Rightarrow>
         if cancelled r then Some (loop_return r) else Some (r\<lparr>pc := Renewing, renewals := Suc (renewals r)\<rparr>)
     | (Renewing, RenewReturns e) \<Rightarrow> Some (r\<lparr>pc := Returned e\<rparr>)
     | (Returned e, Continues) \<Rightarrow>
         if cancelled r then Some (loop_return r) else Some (r\<lparr>pc := Judging e\<rparr>)
     | (Judging e, Continues) \<Rightarrow>
         if err_Is e ErrLost then Some (r\<lparr>pc := Notifying\<rparr>) else Some (r\<lparr>pc := Selecting\<rparr>)
     | (Notifying, Continues) \<Rightarrow> Some (loop_return (r\<lparr>losses := Suc (losses r)\<rparr>))
     | _ \<Rightarrow> None)"

inductive renewer_step :: "renewer \<Rightarrow> renewer \<Rightarrow> bool" where
  start: "renewer_step r (Renewer_Start r)"
| stop: "Renewer_Stop i r = Some r' \<Longrightarrow> renewer_step r r'"
| loop: "loop_step ev r = Some r' \<Longrightarrow> renewer_step r r'"

inductive renewer_reachable :: "renewer \<Rightarrow> bool" where
  new: "renewer_reachable (NewRenewer i)"
| later: "renewer_reachable r \<Longrightarrow> renewer_step r r' \<Longrightarrow> renewer_reachable r'"

section \<open>Invariant\<close>

text \<open>
  How often \<^verbatim>\<open>done\<close> has been closed, by where the loop is and whether \<^verbatim>\<open>startOnce\<close> is used; what
  a \<^verbatim>\<open>Stop\<close> call at each point may rely on.
\<close>

fun closes_at :: "loop_pc \<Rightarrow> bool \<Rightarrow> nat" where
  "closes_at Exited b = 1"
| "closes_at NotLaunched b = (if b then 1 else 0)"
| "closes_at _ b = 0"

fun loop_ok :: "loop_pc \<Rightarrow> bool \<Rightarrow> nat \<Rightarrow> bool" where
  "loop_ok NotLaunched b n = (n = 0)"
| "loop_ok Exited b n = (b \<and> n \<le> 1)"
| "loop_ok _ b n = (b \<and> n = 0)"

fun stop_ok :: "stop_pc \<Rightarrow> bool \<Rightarrow> bool \<Rightarrow> nat \<Rightarrow> bool" where
  "stop_ok StopIdle c b n = True"
| "stop_ok StopCancelled c b n = c"
| "stop_ok StopWaiting c b n = (c \<and> b)"
| "stop_ok StopReturned c b n = (c \<and> 0 < n)"

definition renewer_ok :: "renewer \<Rightarrow> bool" where
  "renewer_ok r = (loop_ok (pc r) (started r) (losses r) \<and> closes r = closes_at (pc r) (started r) \<and>
     (\<forall>i. stop_ok (stops r i) (cancelled r) (started r) (closes r)))"

lemma stop_ok_mono: "stop_ok p c b n \<Longrightarrow> (c \<longrightarrow> c') \<Longrightarrow> (b \<longrightarrow> b') \<Longrightarrow> n \<le> n' \<Longrightarrow> stop_ok p c' b' n'"
  by (cases p) auto

lemma stops_ok_mono:
  assumes "\<forall>i. stop_ok (f i) c b n" and "c \<longrightarrow> c'" and "b \<longrightarrow> b'" and "n \<le> n'"
  shows "\<forall>i. stop_ok (f i) c' b' n'"
  using assms stop_ok_mono by blast

lemma stops_ok_upd:
  assumes "\<forall>i. stop_ok (f i) c b n" and "c \<longrightarrow> c'" and "b \<longrightarrow> b'" and "n \<le> n'" and "stop_ok p c' b' n'"
  shows "\<forall>i. stop_ok ((f(j := p)) i) c' b' n'"
  using stops_ok_mono [OF assms(1-4)] assms(5) by simp

lemma loop_cases:
  assumes "loop_step ev r = Some r'"
  obtains (ends) "pc r = Selecting \<or> pc r = Ticked \<or> (\<exists>e. pc r = Returned e)" "cancelled r" "r' = loop_return r"
  | (tick) "pc r = Selecting" "r' = r\<lparr>pc := Ticked\<rparr>"
  | (renew) "pc r = Ticked" "\<not> cancelled r" "r' = r\<lparr>pc := Renewing, renewals := Suc (renewals r)\<rparr>"
  | (returned) e where "pc r = Renewing" "r' = r\<lparr>pc := Returned e\<rparr>"
  | (judge) e where "pc r = Returned e" "\<not> cancelled r" "r' = r\<lparr>pc := Judging e\<rparr>"
  | (lost) e where "pc r = Judging e" "err_Is e ErrLost" "r' = r\<lparr>pc := Notifying\<rparr>"
  | (again) e where "pc r = Judging e" "\<not> err_Is e ErrLost" "r' = r\<lparr>pc := Selecting\<rparr>"
  | (notify) "pc r = Notifying" "r' = loop_return (r\<lparr>losses := Suc (losses r)\<rparr>)"
  using assms that by (cases "pc r"; cases ev) (simp_all split: if_splits, metis)

lemma stop_cases:
  assumes "Renewer_Stop i r = Some r'"
  obtains (cancel) "stops r i = StopIdle" "r' = r\<lparr>cancelled := True, stops := (stops r)(i := StopCancelled)\<rparr>"
  | (once) "stops r i = StopCancelled" "started r" "r' = r\<lparr>stops := (stops r)(i := StopWaiting)\<rparr>"
  | (close) "stops r i = StopCancelled" "\<not> started r"
      "r' = (close_done (r\<lparr>started := True\<rparr>))\<lparr>stops := (stops r)(i := StopWaiting)\<rparr>"
  | (wait) "stops r i = StopWaiting" "Done_closed r" "r' = r\<lparr>stops := (stops r)(i := StopReturned)\<rparr>"
  using assms that by (cases "stops r i") (simp_all add: Let_def close_done_def split: if_splits)

lemma renewer_okD:
  assumes "renewer_ok r"
  shows "loop_ok (pc r) (started r) (losses r)" and "closes r = closes_at (pc r) (started r)"
    and "\<forall>i. stop_ok (stops r i) (cancelled r) (started r) (closes r)"
  using assms unfolding renewer_ok_def by blast+

lemma renewer_ok_start:
  assumes "renewer_ok r"
  shows "renewer_ok (Renewer_Start r)"
proof (cases "started r")
  case False
  note ok = renewer_okD [OF assms]
  have "pc r = NotLaunched" using ok(1) False by (cases "pc r") auto
  then show ?thesis using ok False stops_ok_mono [OF ok(3), of "cancelled r" True 0] by (simp add: Renewer_Start_def renewer_ok_def)
qed (use assms in \<open>simp add: Renewer_Start_def\<close>)

lemma renewer_ok_stop:
  assumes "Renewer_Stop i r = Some r'" and ok: "renewer_ok r"
  shows "renewer_ok r'"
proof -
  note l = renewer_okD(1,2) [OF ok] and s = renewer_okD(3) [OF ok]
  note upd = stops_ok_upd [OF s, where j = i]
  have i: "stop_ok (stops r i) (cancelled r) (started r) (closes r)" using s by blast
  from assms(1) show ?thesis
  proof (cases rule: stop_cases)
    case cancel
    then show ?thesis using l upd [of True "started r" "closes r" StopCancelled] by (simp add: renewer_ok_def)
  next
    case once
    then show ?thesis using l i upd [of "cancelled r" "started r" "closes r" StopWaiting] by (simp add: renewer_ok_def)
  next
    case close
    then have "pc r = NotLaunched" using l(1) by (cases "pc r") auto
    then show ?thesis
      using close l i upd [of "cancelled r" True "Suc (closes r)" StopWaiting]
      by (simp add: renewer_ok_def close_done_def)
  next
    case wait
    then show ?thesis
      using l i upd [of "cancelled r" "started r" "closes r" StopReturned] by (simp add: renewer_ok_def Done_closed_def)
  qed
qed

lemma renewer_ok_loop:
  assumes "loop_step ev r = Some r'" and ok: "renewer_ok r"
  shows "renewer_ok r'"
proof -
  note l = renewer_okD(1,2) [OF ok] and s = renewer_okD(3) [OF ok]
  note more = stops_ok_mono [OF s, of "cancelled r" "started r" "Suc (closes r)"]
  from assms(1) show ?thesis
    using l s more by (cases rule: loop_cases) (auto simp: renewer_ok_def loop_return_def close_done_def)
qed

lemma renewer_ok_step: "renewer_step r r' \<Longrightarrow> renewer_ok r \<Longrightarrow> renewer_ok r'"
  by (induction rule: renewer_step.induct) (auto intro: renewer_ok_start renewer_ok_stop renewer_ok_loop simp del: Renewer_Stop.simps loop_step.simps)

lemma renewer_reachable_ok: "renewer_reachable r \<Longrightarrow> renewer_ok r"
  by (induction rule: renewer_reachable.induct) (simp_all add: renewer_ok_step, simp add: renewer_ok_def NewRenewer_def)

section \<open>Properties\<close>

lemma halted_step:
  assumes "renewer_step r r'" and "renewer_ok r" and "closes r = 1"
  shows "closes r' = 1 \<and> pc r' = pc r \<and> renewals r' = renewals r \<and> losses r' = losses r"
proof -
  have p1: "pc r = Exited \<or> pc r = NotLaunched"
    using renewer_okD(2) [OF assms(2)] assms(3) by (cases "pc r") simp_all
  have p2: "started r"
    using renewer_okD(1,2) [OF assms(2)] assms(3) p1 by (cases "pc r"; cases "started r") simp_all
  from assms(1) show ?thesis
  proof cases
    case start
    then show ?thesis using p2 assms(3) by (simp add: Renewer_Start_def)
  next
    case (stop i)
    then show ?thesis using p2 assms(3) by (cases rule: stop_cases) simp_all
  next
    case (loop ev)
    then show ?thesis using p1 by (cases rule: loop_cases) auto
  qed
qed

lemma halted_forever:
  assumes "renewer_step\<^sup>*\<^sup>* r r'" and "renewer_ok r" and "closes r = 1"
  shows "closes r' = 1 \<and> pc r' = pc r \<and> renewals r' = renewals r \<and> losses r' = losses r \<and> renewer_ok r'"
  using assms
proof (induction rule: rtranclp_induct)
  case (step y z)
  then show ?case using halted_step [of y z] renewer_ok_step [of y z] by simp
qed simp

text \<open>
  C11: \<^verbatim>\<open>Stop\<close> joins the loop. In every interleaving of \<^verbatim>\<open>Start\<close>, any number of \<^verbatim>\<open>Stop\<close> calls and
  the loop, the channel \<^verbatim>\<open>done\<close> is closed at most once (a second close would panic) and
  \<^verbatim>\<open>onLost\<close> runs at most once; once some \<^verbatim>\<open>Stop\<close> has returned, the loop is not running and no
  later step, a late \<^verbatim>\<open>Start\<close> included, renews or notifies again.
\<close>

theorem stop_joins_loop:
  assumes "renewer_reachable r"
  shows "closes r \<le> 1 \<and> losses r \<le> 1 \<and>
    (stops r i = StopReturned \<and> renewer_step\<^sup>*\<^sup>* r r' \<longrightarrow>
      (pc r' = Exited \<or> pc r' = NotLaunched) \<and> closes r' = 1 \<and> renewals r' = renewals r \<and> losses r' = losses r)"
proof -
  note ok = renewer_okD [OF renewer_reachable_ok [OF assms]]
  have c: "closes r \<le> 1" "losses r \<le> 1" using ok(1,2) by (cases "pc r"; simp)+
  have "(pc r' = Exited \<or> pc r' = NotLaunched) \<and> closes r' = 1 \<and> renewals r' = renewals r \<and> losses r' = losses r"
    if "stops r i = StopReturned" "renewer_step\<^sup>*\<^sup>* r r'"
  proof -
    have "0 < closes r" using ok(3) that(1) by (metis stop_ok.simps(4))
    then have c1: "closes r = 1" using c(1) by simp
    then have "pc r = Exited \<or> pc r = NotLaunched" using ok(2) by (cases "pc r") simp_all
    then show ?thesis
      using halted_forever [OF that(2) renewer_reachable_ok [OF assms] c1] by simp
  qed
  then show ?thesis using c by blast
qed

text \<open>Runs of the loop alone.\<close>

fun run_loop :: "loop_event list \<Rightarrow> renewer \<Rightarrow> renewer option" where
  "run_loop [] r = Some r"
| "run_loop (ev # evs) r = (case loop_step ev r of None \<Rightarrow> None | Some r' \<Rightarrow> run_loop evs r')"

fun steps_left :: "loop_pc \<Rightarrow> nat" where
  "steps_left (Judging e) = 3"
| "steps_left Selecting = 2"
| "steps_left Renewing = 2"
| "steps_left Ticked = 1"
| "steps_left (Returned e) = 1"
| "steps_left Notifying = 1"
| "steps_left _ = 0"

lemma cancelled_loop_step:
  assumes "loop_step ev r = Some r'" and "cancelled r"
  shows "cancelled r' \<and> stops r' = stops r \<and> steps_left (pc r') < steps_left (pc r)"
  using assms by (cases rule: loop_cases) (auto simp: loop_return_def close_done_def)

lemma run_loop_bounded:
  "run_loop evs r = Some r' \<Longrightarrow> cancelled r \<Longrightarrow> renewer_ok r \<Longrightarrow>
    length evs \<le> steps_left (pc r) \<and> cancelled r' \<and> stops r' = stops r \<and> renewer_ok r'"
proof (induction evs arbitrary: r)
  case (Cons ev evs)
  then obtain r1 where r1: "loop_step ev r = Some r1" "run_loop evs r1 = Some r'" by (auto split: option.splits simp del: loop_step.simps)
  then show ?case
    using Cons.IH [OF r1(2)] cancelled_loop_step [OF r1(1)] renewer_ok_loop [OF r1(1)] Cons.prems by auto
qed simp

lemma loop_enabled:
  assumes "cancelled r" and "steps_left (pc r) \<noteq> 0"
  shows "\<exists>ev r'. loop_step ev r = Some r'"
proof (cases "pc r")
  case Renewing
  then have "loop_step (RenewReturns None) r = Some (r\<lparr>pc := Returned None\<rparr>)" by simp
  then show ?thesis by blast
next
  case Selecting
  then have "loop_step CtxDone r = Some (loop_return r)" using assms by simp
  then show ?thesis by blast
next
  case (Judging e)
  then have "loop_step Continues r = Some (r\<lparr>pc := if err_Is e ErrLost then Notifying else Selecting\<rparr>)" by simp
  then show ?thesis by blast
next
  case Ticked
  then have "loop_step Continues r = Some (loop_return r)" using assms by simp
  then show ?thesis by blast
next
  case (Returned e)
  then have "loop_step Continues r = Some (loop_return r)" using assms by simp
  then show ?thesis by blast
next
  case Notifying
  then have "loop_step Continues r = Some (loop_return (r\<lparr>losses := Suc (losses r)\<rparr>))" by simp
  then show ?thesis by blast
qed (use assms in simp_all)

text \<open>
  C30: \<^verbatim>\<open>Stop\<close> returns. When a \<^verbatim>\<open>Stop\<close> call waits for the loop, the loop takes at most three more
  steps, whatever the ticker and \<^verbatim>\<open>renew\<close> do, and as long as \<^verbatim>\<open>Stop\<close> is blocked the loop can
  take one: so \<^verbatim>\<open>Stop\<close> is unblocked as soon as \<^verbatim>\<open>renew\<close>, if it is being called, returns.
\<close>

theorem stop_returns:
  assumes "renewer_reachable r" and "stops r i = StopWaiting" and "run_loop evs r = Some r'"
  shows "length evs \<le> 3 \<and> (Renewer_Stop i r' \<noteq> None \<or> (\<exists>ev. loop_step ev r' \<noteq> None))"
proof -
  note ok = renewer_reachable_ok [OF assms(1)]
  have c: "cancelled r" "started r" using renewer_okD(3) [OF ok] assms(2) by (metis stop_ok.simps(3))+
  note run = run_loop_bounded [OF assms(3) c(1) ok]
  have "steps_left (pc r) \<le> 3" by (cases "pc r") simp_all
  moreover have "Renewer_Stop i r' \<noteq> None" if "steps_left (pc r') = 0"
  proof -
    have w: "stops r' i = StopWaiting" "renewer_ok r'" using run assms(2) by simp_all
    then have "started r'" using renewer_okD(3) by (metis stop_ok.simps(3))
    then have "closes r' = 1" using renewer_okD(2) [OF w(2)] that by (cases "pc r'") simp_all
    then show ?thesis using w by (simp add: Done_closed_def)
  qed
  ultimately show ?thesis using run loop_enabled [of r'] by (metis le_trans option.distinct(1))
qed

text \<open>A heartbeat is under way when \<^verbatim>\<open>Stop\<close> is called, fails, and the loop ends.\<close>

definition wit_stopping :: renewer where
  "wit_stopping = \<lparr>interval = 5, cancelled = True, started = True, closes = 0, pc = Renewing,
     stops = (\<lambda>_. StopIdle)(0 := StopWaiting), renewals = 1, losses = 0\<rparr>"

definition wit_stopped :: renewer where
  "wit_stopped = wit_stopping\<lparr>pc := Exited, closes := 1, stops := (\<lambda>_. StopIdle)(0 := StopReturned)\<rparr>"

lemma wit_reachable: "renewer_reachable wit_stopping"
proof -
  let ?r1 = "Renewer_Start (NewRenewer 5)"
  let ?r2 = "?r1\<lparr>pc := Ticked\<rparr>"
  let ?r3 = "?r2\<lparr>pc := Renewing, renewals := 1\<rparr>"
  let ?r4 = "?r3\<lparr>cancelled := True, stops := (\<lambda>_. StopIdle)(0 := StopCancelled)\<rparr>"
  note simps = Renewer_Start_def NewRenewer_def wit_stopping_def
  have "renewer_reachable ?r1" by (rule renewer_reachable.later [OF renewer_reachable.new renewer_step.start])
  moreover have "renewer_step ?r1 ?r2" by (rule renewer_step.loop [of TickerFires]) (simp add: simps)
  moreover have "renewer_step ?r2 ?r3" by (rule renewer_step.loop [of Continues]) (simp add: simps)
  moreover have "renewer_step ?r3 ?r4" by (rule renewer_step.stop [of 0]) (simp add: simps)
  moreover have "renewer_step ?r4 wit_stopping" by (rule renewer_step.stop [of 0]) (simp add: simps Let_def)
  ultimately show ?thesis by (meson renewer_reachable.later)
qed

theorem stop_returns_witness:
  "\<exists>r. run_loop [RenewReturns (Some ErrLost), Continues] wit_stopping = Some r \<and> Renewer_Stop 0 r \<noteq> None"
proof -
  obtain r' where r': "run_loop [RenewReturns (Some ErrLost), Continues] wit_stopping = Some r'" "pc r' = Exited"
    by (simp add: wit_stopping_def loop_return_def close_done_def)
  have "loop_step ev r' = None" for ev using r'(2) by simp
  then show ?thesis
    using stop_returns [OF wit_reachable _ r'(1), of 0] r'(1)
    by (simp add: wit_stopping_def del: Renewer_Stop.simps loop_step.simps run_loop.simps)
qed

theorem stop_joins_loop_witness: "closes wit_stopped = 1 \<and> renewals (Renewer_Start wit_stopped) = renewals wit_stopped"
proof -
  let ?r1 = "wit_stopping\<lparr>pc := Returned None\<rparr>"
  let ?r2 = "wit_stopping\<lparr>pc := Exited, closes := 1\<rparr>"
  note simps = wit_stopping_def wit_stopped_def
  have "renewer_step wit_stopping ?r1" by (rule renewer_step.loop [of "RenewReturns None"]) (simp add: simps)
  moreover have "renewer_step ?r1 ?r2"
    by (rule renewer_step.loop [of Continues]) (simp add: simps loop_return_def close_done_def)
  moreover have "renewer_step ?r2 wit_stopped" by (rule renewer_step.stop [of 0]) (simp add: simps Done_closed_def)
  ultimately have r: "renewer_reachable wit_stopped" using wit_reachable by (meson renewer_reachable.later)
  have "renewer_step\<^sup>*\<^sup>* wit_stopped (Renewer_Start wit_stopped)" by (rule r_into_rtranclp) (rule renewer_step.start)
  moreover have "stops wit_stopped 0 = StopReturned" by (simp add: simps)
  ultimately show ?thesis
    using stop_joins_loop [OF r, of 0 "Renewer_Start wit_stopped"] by (simp add: wit_stopped_def)
qed

end
