(* ===== verification/Handle.thy ===== *)
theory Handle
  imports Options Keys Renewer
begin

text \<open>
  \<^verbatim>\<open>guard.go\<close>: the lifecycle every acquired lease shares: its context that is cancelled on
  loss, the deadline timer, background renewal or watching, and idempotent release. The
  handle is generic in the lease: \<open>'l\<close> with the method table of the \<^verbatim>\<open>Lease\<close> interface, whose
  contract is the locale \<open>lease_api\<close>, and \<open>timed_lease\<close> with the time to live a renewal extends it
  by; the four leases satisfy both.
\<close>

section \<open>The contract of a lease\<close>

locale lease_api =
  fixes ops :: "('l, 's) lease_ops"
  assumes acquired: "Acquire ops aenv l s = (None, l', s') \<Longrightarrow> \<exists>d. ExpiresAt ops l' = Some d \<and> acq_replied aenv < d"
    and renewed: "Renew ops renv l s = (None, l', s') \<Longrightarrow> \<exists>d0 d. ExpiresAt ops l = Some d0 \<and> ren_replied renv < d0 \<and>
          ExpiresAt ops l' = Some d \<and> d0 \<le> d \<and> ren_checked renv < d"
    and not_renewed: "Renew ops renv l s = (Some e, l', s') \<Longrightarrow> l' = l"
    and released_expiry: "Release ops tr l s = (None, l', s') \<Longrightarrow> ExpiresAt ops l' = None"
    and release_expiry: "Release ops tr l s = (res, l', s') \<Longrightarrow> ExpiresAt ops l' = None \<or> ExpiresAt ops l' = ExpiresAt ops l"
    and ID_renew: "Renew ops renv l s = (res, l', s') \<Longrightarrow> ID ops l' = ID ops l"
    and ID_release: "Release ops tr l s = (res, l', s') \<Longrightarrow> ID ops l' = ID ops l"

text \<open>
  A lease with the time to live \<open>life\<close>: a confirmed renewal sets the deadline to that of a request
  sent when the renewal started, unless the old one is later.
\<close>

locale timed_lease = lease_api ops for ops :: "('l, 's) lease_ops" +
  fixes life :: "'l \<Rightarrow> duration"
  assumes extended: "Renew ops renv l s = (None, l', s') \<Longrightarrow> \<exists>d0. ExpiresAt ops l = Some d0 \<and>
          ExpiresAt ops l' = Some (max d0 (requestExpiry (ren_started renv) (life l)))"

lemmas ops_defs = SingleOwner_ops_def PermitSet_ops_def RWWriter_ops_def RWReader_ops_def
lemmas renew_defs = SingleOwner_Renew_def PermitSet_Renew_def RWWriter_Renew_def RWReader_Renew_def
lemmas release_defs = SingleOwner_Release_def PermitSet_Release_def RWWriter_Release_def RWReader_Release_def
lemmas acquire_defs = SingleOwner_Acquire_def SingleOwner_TryAcquire_def PermitSet_Acquire_def PermitSet_TryAcquire_def
  RWWriter_Acquire_def RWWriter_TryAcquire_def RWReader_Acquire_def discardLateGrant_def
lemmas case_splits = prod.splits sum.splits option.splits if_splits

lemma confirmed: "confirm_renewal x deadline now1 now2 = Some y \<Longrightarrow>
    \<exists>d0 d. x = Some d0 \<and> now1 < d0 \<and> y = Some d \<and> d0 \<le> d \<and> now2 < d"
  "confirm_renewal x deadline now1 now2 = Some y \<Longrightarrow> \<exists>d0. x = Some d0 \<and> y = Some (max d0 deadline)"
  by (erule confirm_renewal_cases, auto)+

lemma Join_ErrLost [simp]: "errors_Join (Some e) x \<noteq> None" "None \<noteq> errors_Join (Some e) x"
  by (cases x; simp)+

interpretation so: timed_lease "SingleOwner_ops R" so_ttl
proof unfold_locales
  fix env l and s :: 'a and l' s'
  show "Acquire (SingleOwner_ops R) env l s = (None, l', s') \<Longrightarrow> \<exists>d. ExpiresAt (SingleOwner_ops R) l' = Some d \<and> acq_replied env < d"
    by (auto simp: ops_defs acquire_defs Let_def split: case_splits)
qed (auto simp: ops_defs renew_defs release_defs Let_def split: case_splits dest: confirmed)

interpretation ps: timed_lease "PermitSet_ops R" ps_ttl
proof unfold_locales
  fix env l and s :: 'a and l' s'
  show "Acquire (PermitSet_ops R) env l s = (None, l', s') \<Longrightarrow> \<exists>d. ExpiresAt (PermitSet_ops R) l' = Some d \<and> acq_replied env < d"
    by (auto simp: ops_defs acquire_defs Let_def split: case_splits)
qed (auto simp: ops_defs renew_defs release_defs Let_def split: case_splits dest: confirmed)

interpretation rww: timed_lease "RWWriter_ops R fuel" rw_ttl
proof unfold_locales
  fix env l and s :: 'a and l' s'
  show "Acquire (RWWriter_ops R fuel) env l s = (None, l', s') \<Longrightarrow> \<exists>d. ExpiresAt (RWWriter_ops R fuel) l' = Some d \<and> acq_replied env < d"
    by (auto simp: ops_defs acquire_defs Let_def split: case_splits)
qed (auto simp: ops_defs renew_defs release_defs Let_def split: case_splits dest: confirmed)

interpretation rwr: timed_lease "RWReader_ops R fuel" rw_ttl
proof unfold_locales
  fix env l and s :: 'a and l' s'
  show "Acquire (RWReader_ops R fuel) env l s = (None, l', s') \<Longrightarrow> \<exists>d. ExpiresAt (RWReader_ops R fuel) l' = Some d \<and> acq_replied env < d"
    by (auto simp: ops_defs acquire_defs Let_def split: case_splits)
qed (auto simp: ops_defs renew_defs release_defs Let_def split: case_splits dest: confirmed)

section \<open>The handle\<close>

text \<open>
  \<open>h_lost\<close> is the error of \<^verbatim>\<open>lostCtx\<close>, \<open>h_timer\<close> the instant the deadline timer is set to,
  \<open>h_renewer\<close> what the background loop does (\<^verbatim>\<open>nil\<close> without one) and \<open>h_stopped\<close> whether
  \<^verbatim>\<open>stopOnce\<close> has run, which joins that loop.
\<close>

datatype background = Heartbeat duration | Watching duration

record ('l, 'w) handle =
  h_resource :: string
  h_primitive :: string
  h_metrics :: "'w metrics"
  h_tracer :: "'w tracer"
  h_leas :: 'l
  h_renewer :: "background option"
  h_released :: bool
  h_releaseDone :: bool
  h_lost :: bool
  h_stopped :: bool
  h_timer :: "instant option"

definition newHandle :: "string \<Rightarrow> string \<Rightarrow> 'w metrics \<Rightarrow> 'w tracer \<Rightarrow> 'l \<Rightarrow> ('l, 'w) handle" where
  "newHandle resource primitive m t l = \<lparr>h_resource = resource, h_primitive = primitive, h_metrics = m,
     h_tracer = t, h_leas = l, h_renewer = None, h_released = False, h_releaseDone = False,
     h_lost = False, h_stopped = False, h_timer = None\<rparr>"

definition markLost :: "('l, 'w) handle \<Rightarrow> ('l, 'w) handle" where
  "markLost h = h\<lparr>h_lost := True, h_timer := None\<rparr>"

text \<open>A zero expiry lies in the past, so that nothing remains until it.\<close>

definition checkDeadline :: "('l, 's) lease_ops \<Rightarrow> instant \<Rightarrow> ('l, 'w) handle \<Rightarrow> ('l, 'w) handle" where
  "checkDeadline ops now h =
     (if h_lost h then h
      else case ExpiresAt ops (h_leas h) of
        None \<Rightarrow> h\<lparr>h_lost := True, h_timer := None\<rparr>
      | Some d \<Rightarrow> if d - now \<le> 0 then h\<lparr>h_lost := True, h_timer := None\<rparr>
                  else h\<lparr>h_timer := Some d\<rparr>)"

definition startRenewal :: "('l, 's) lease_ops \<Rightarrow> duration \<Rightarrow> instant \<Rightarrow> ('l, 'w) handle \<Rightarrow> ('l, 'w) handle" where
  "startRenewal ops i now h = checkDeadline ops now (h\<lparr>h_renewer := Some (Heartbeat i)\<rparr>)"

definition startWatchdog :: "('l, 's) lease_ops \<Rightarrow> duration \<Rightarrow> instant \<Rightarrow> ('l, 'w) handle \<Rightarrow> ('l, 'w) handle" where
  "startWatchdog ops i now h = checkDeadline ops now (h\<lparr>h_renewer := Some (Watching i)\<rparr>)"

text \<open>
  \<^verbatim>\<open>withLeaseDeadline\<close>: what comes before the call, what comes after it, and both around a
  call. During the call other goroutines may cancel \<^verbatim>\<open>lostCtx\<close> (the deadline timer, the
  \<^verbatim>\<open>AfterFunc\<close> of the call's own deadline, a release): \<open>meanwhile\<close>.
\<close>

definition call_begin :: "('l, 's) lease_ops \<Rightarrow> instant \<Rightarrow> ('l, 'w) handle \<Rightarrow> goerr option \<times> ('l, 'w) handle" where
  "call_begin ops now h =
     (if h_released h \<or> h_lost h then (Some ErrLost, h)
      else if \<not> After (ExpiresAt ops (h_leas h)) now then (Some ErrLost, markLost h)
      else (None, h))"

definition call_end ::
  "('l, 's) lease_ops \<Rightarrow> instant \<Rightarrow> goerr option \<Rightarrow> ('l, 'w) handle \<Rightarrow> goerr option \<times> ('l, 'w) handle" where
  "call_end ops now err h =
     (if h_lost h \<or> err_Is err ErrLost \<or> \<not> After (ExpiresAt ops (h_leas h)) now
      then (errors_Join (Some ErrLost) err, markLost h)
      else (err, h))"

record call_env =
  ce_before :: instant
  ce_meanwhile :: bool
  ce_after :: instant

definition withLeaseDeadline ::
  "('l, 's) lease_ops \<Rightarrow> call_env \<Rightarrow> ('l \<Rightarrow> 's \<Rightarrow> goerr option \<times> 'l \<times> 's) \<Rightarrow> ('l, 'w) handle \<Rightarrow> 's \<Rightarrow>
     goerr option \<times> ('l, 'w) handle \<times> 's" where
  "withLeaseDeadline ops env f h s =
     (case call_begin ops (ce_before env) h of
        (Some e, h') \<Rightarrow> (Some e, h', s)
      | (None, h') \<Rightarrow>
          (case f (h_leas h') s of (err, l, s') \<Rightarrow>
             let h1 = h'\<lparr>h_leas := l\<rparr>; h2 = (if ce_meanwhile env then markLost h1 else h1)
             in (case call_end ops (ce_after env) err h2 of (e, h3) \<Rightarrow> (e, h3, s'))))"

definition handle_renew ::
  "('l, 's) lease_ops \<Rightarrow> call_env \<Rightarrow> renew_env \<Rightarrow> ('l, 'w) handle \<Rightarrow> 's \<Rightarrow> 'w \<Rightarrow>
     goerr option \<times> ('l, 'w) handle \<times> 's \<times> 'w" where
  "handle_renew ops cenv renv h s w =
     (if h_released h \<or> h_lost h then (Some ErrLost, h, s, w)
      else
        let (finish, w1) = t_Start (h_tracer h) ''distsync.renew'' w;
            (err, h1, s1) = withLeaseDeadline ops cenv (Renew ops renv) h s;
            w2 = m_Renew (h_metrics h) (h_primitive h) (h_resource h) (err = None) w1;
            h2 = (if err_Is err ErrLost then markLost h1 else h1)
        in (err, h2, s1, finish err w2))"

text \<open>The watchdog's check: a plain read that the lease is still held.\<close>

definition watch_check ::
  "('l, 's) lease_ops \<Rightarrow> call_env \<Rightarrow> instant \<Rightarrow> (nat \<Rightarrow> transport) \<Rightarrow> ('l, 'w) handle \<Rightarrow> 's \<Rightarrow>
     goerr option \<times> ('l, 'w) handle \<times> 's" where
  "watch_check ops cenv now trs h s =
     withLeaseDeadline ops cenv (\<lambda>l s. case Held ops now trs l s of
         (Inl e, s') \<Rightarrow> (Some e, l, s')
       | (Inr held, s') \<Rightarrow> (if held then None else Some ErrLost, l, s')) h s"

text \<open>What the loop calls on a definitive loss, for heartbeat and watchdog alike.\<close>

definition onLost :: "('l, 'w) handle \<Rightarrow> 'w \<Rightarrow> ('l, 'w) handle \<times> 'w" where
  "onLost h w = (markLost h, m_RenewalStopped (h_metrics h) (h_primitive h) (h_resource h) ''lost'' w)"

text \<open>One turn of the background loop; the last component tells whether the loop goes on.\<close>

definition heartbeat ::
  "('l, 's) lease_ops \<Rightarrow> call_env \<Rightarrow> renew_env \<Rightarrow> ('l, 'w) handle \<Rightarrow> 's \<Rightarrow> 'w \<Rightarrow> ('l, 'w) handle \<times> 's \<times> 'w \<times> bool" where
  "heartbeat ops cenv renv h s w =
     (case handle_renew ops cenv renv h s w of (err, h', s', w') \<Rightarrow>
        if err_Is err ErrLost then (case onLost h' w' of (h'', w'') \<Rightarrow> (h'', s', w'', False))
        else (h', s', w', True))"

definition watch ::
  "('l, 's) lease_ops \<Rightarrow> call_env \<Rightarrow> instant \<Rightarrow> (nat \<Rightarrow> transport) \<Rightarrow> ('l, 'w) handle \<Rightarrow> 's \<Rightarrow> 'w \<Rightarrow>
     ('l, 'w) handle \<times> 's \<times> 'w \<times> bool" where
  "watch ops cenv now trs h s w =
     (case watch_check ops cenv now trs h s of (err, h', s') \<Rightarrow>
        if err_Is err ErrLost then (case onLost h' w of (h'', w') \<Rightarrow> (h'', s', w', False))
        else (h', s', w, True))"

definition stop :: "('l, 'w) handle \<Rightarrow> 'w \<Rightarrow> ('l, 'w) handle \<times> 'w" where
  "stop h w =
     (let h1 = markLost (h\<lparr>h_released := True\<rparr>)
      in if h_stopped h1 then (h1, w)
         else (h1\<lparr>h_stopped := True\<rparr>,
               if h_renewer h1 = None then w
               else m_RenewalStopped (h_metrics h1) (h_primitive h1) (h_resource h1) ''released'' w))"

definition handle_release ::
  "('l, 's) lease_ops \<Rightarrow> transport \<Rightarrow> ('l, 'w) handle \<Rightarrow> 's \<Rightarrow> 'w \<Rightarrow> goerr option \<times> ('l, 'w) handle \<times> 's \<times> 'w" where
  "handle_release ops tr h s w =
     (if h_releaseDone h then (None, h, s, w)
      else
        let (h1, w1) = stop h w;
            (finish, w2) = t_Start (h_tracer h1) ''distsync.release'' w1;
            (err, l, s') = Release ops tr (h_leas h1) s;
            w3 = m_Release (h_metrics h1) (h_primitive h1) (h_resource h1) w2
        in (err, h1\<lparr>h_leas := l, h_releaseDone := (err = None \<or> err_Is err ErrLost)\<rparr>, s', finish err w3))"

section \<open>Guards\<close>

text \<open>\<^verbatim>\<open>Guard\<close> is a handle with the fencing token of its acquisition.\<close>

record ('l, 'w) guard =
  g_handle :: "('l, 'w) handle"
  g_fencing :: "64 word"

definition Guard_FencingToken :: "('l, 'w) guard \<Rightarrow> 64 word" where "Guard_FencingToken g = g_fencing g"
definition Guard_Token :: "('l, 's) lease_ops \<Rightarrow> ('l, 'w) guard \<Rightarrow> string" where
  "Guard_Token ops g = ID ops (h_leas (g_handle g))"
definition Guard_ExpiresAt :: "('l, 's) lease_ops \<Rightarrow> ('l, 'w) guard \<Rightarrow> instant option" where
  "Guard_ExpiresAt ops g = ExpiresAt ops (h_leas (g_handle g))"

text \<open>Whether \<^verbatim>\<open>Context\<close> is cancelled, which is when \<^verbatim>\<open>Lost\<close> is closed.\<close>

definition Guard_Lost :: "('l, 'w) guard \<Rightarrow> bool" where "Guard_Lost g = h_lost (g_handle g)"

definition Guard_Renew ::
  "('l, 's) lease_ops \<Rightarrow> call_env \<Rightarrow> renew_env \<Rightarrow> ('l, 'w) guard \<Rightarrow> 's \<Rightarrow> 'w \<Rightarrow> goerr option \<times> ('l, 'w) guard \<times> 's \<times> 'w" where
  "Guard_Renew ops cenv renv g s w =
     (case handle_renew ops cenv renv (g_handle g) s w of (e, h, s', w') \<Rightarrow> (e, g\<lparr>g_handle := h\<rparr>, s', w'))"

definition Guard_Unlock ::
  "('l, 's) lease_ops \<Rightarrow> transport \<Rightarrow> ('l, 'w) guard \<Rightarrow> 's \<Rightarrow> 'w \<Rightarrow> goerr option \<times> ('l, 'w) guard \<times> 's \<times> 'w" where
  "Guard_Unlock ops tr g s w =
     (case handle_release ops tr (g_handle g) s w of (e, h, s', w') \<Rightarrow> (e, g\<lparr>g_handle := h\<rparr>, s', w'))"


section \<open>Renewal\<close>

lemma err_Is_ErrLost [simp]: "err_Is (errors_Join (Some ErrLost) e) ErrLost"
  by (cases e) simp_all

lemma markLost_simps [simp]:
  "h_lost (markLost h)" "h_timer (markLost h) = None" "h_leas (markLost h) = h_leas h"
  "h_released (markLost h) = h_released h" "h_releaseDone (markLost h) = h_releaseDone h"
  "h_renewer (markLost h) = h_renewer h" "h_stopped (markLost h) = h_stopped h"
  by (simp_all add: markLost_def)

lemma withLeaseDeadline_cases:
  assumes "withLeaseDeadline ops env f h s = (err, h', s')"
  obtains (refused) "h_released h \<or> h_lost h" "err = Some ErrLost" "h' = h" "s' = s"
  | (expired) "\<not> After (ExpiresAt ops (h_leas h)) (ce_before env)" "err = Some ErrLost" "h' = markLost h" "s' = s"
  | (lost) l where "err_Is err ErrLost" "h_lost h'" "h' = markLost (h\<lparr>h_leas := l\<rparr>)" "\<exists>e. f (h_leas h) s = (e, l, s')"
  | (kept) l where "\<not> err_Is err ErrLost" "\<not> h_lost h" "\<not> h_released h" "f (h_leas h) s = (err, l, s')"
      "h' = h\<lparr>h_leas := l\<rparr>" "After (ExpiresAt ops l) (ce_after env)"
proof -
  obtain e l s1 where f: "f (h_leas h) s = (e, l, s1)" by (metis prod_cases3)
  consider "h_released h \<or> h_lost h" | "\<not> (h_released h \<or> h_lost h)" "\<not> After (ExpiresAt ops (h_leas h)) (ce_before env)"
    | "\<not> (h_released h \<or> h_lost h)" "After (ExpiresAt ops (h_leas h)) (ce_before env)" by blast
  then show ?thesis
  proof cases
    case 1
    then have "err = Some ErrLost" "h' = h" "s' = s" using assms by (simp_all add: withLeaseDeadline_def call_begin_def)
    then show ?thesis using refused 1 by blast
  next
    case 2
    then have "err = Some ErrLost" "h' = markLost h" "s' = s" using assms by (simp_all add: withLeaseDeadline_def call_begin_def)
    then show ?thesis using expired 2 by blast
  next
    case 3
    then have b: "call_begin ops (ce_before env) h = (None, h)" by (simp add: call_begin_def)
    show ?thesis
    proof (cases "ce_meanwhile env \<or> err_Is e ErrLost \<or> \<not> After (ExpiresAt ops l) (ce_after env)")
      case True
      then have "err = errors_Join (Some ErrLost) e" "h' = markLost (h\<lparr>h_leas := l\<rparr>)" "s' = s1"
        using assms 3 f by (cases "ce_meanwhile env"; auto simp: withLeaseDeadline_def b call_end_def markLost_def Let_def)+
      then show ?thesis using lost [of l] f by simp
    next
      case False
      then have "err = e" "h' = h\<lparr>h_leas := l\<rparr>" "s' = s1"
        using assms 3 f by (simp_all add: withLeaseDeadline_def b call_end_def Let_def)
      then show ?thesis using kept False 3 f by blast
    qed
  qed
qed

context timed_lease
begin

lemma renew_cases:
  assumes "handle_renew ops cenv renv h s w = (err, h', s', w')" and "h_released h \<longrightarrow> h_lost h"
  shows "(err = None \<longrightarrow> \<not> h_lost h' \<and> (\<exists>d0 d. ExpiresAt ops (h_leas h) = Some d0 \<and> ExpiresAt ops (h_leas h') = Some d \<and>
      d = max d0 (requestExpiry (ren_started renv) (life (h_leas h))) \<and> ce_after cenv < d)) \<and>
    (err_Is err ErrLost \<longrightarrow> h_lost h') \<and>
    (err \<noteq> None \<and> \<not> err_Is err ErrLost \<longrightarrow> h' = h \<and> \<not> h_lost h)"
proof (cases "h_released h \<or> h_lost h")
  case True
  then show ?thesis using assms by (auto simp: handle_renew_def)
next
  case False
  obtain h1 s1 where w: "withLeaseDeadline ops cenv (Renew ops renv) h s = (err, h1, s1)"
    "h' = (if err_Is err ErrLost then markLost h1 else h1)"
    using assms(1) False by (auto simp: handle_renew_def Let_def split: prod.splits)
  from w(1) show ?thesis
  proof (cases rule: withLeaseDeadline_cases)
    case (kept l)
    show ?thesis
    proof (cases err)
      case None
      then obtain d0 where d: "ExpiresAt ops (h_leas h) = Some d0"
        "ExpiresAt ops l = Some (max d0 (requestExpiry (ren_started renv) (life (h_leas h))))"
        using extended [of renv "h_leas h" s l s1] kept(4) by blast
      then show ?thesis using kept None w(2) by auto
    next
      case (Some e)
      then have "l = h_leas h" using not_renewed kept(4) by blast
      then show ?thesis using kept Some w(2) by auto
    qed
  qed (use w(2) False in \<open>cases err; auto\<close>)+
qed

end

text \<open>
  C27: The outcome of a renewal, manual or by the heartbeat, of any of the four leases. Success:
  the context is not cancelled and the deadline is that of a request sent when the renewal
  started (the time to live, less the safety margin, from then), or the old one if that is later;
  in any case it is still ahead when the call returns. Loss: the context is cancelled. Any other error leaves the handle as it was, so that a
  failed heartbeat does not give up a lease that may still be held. A handle that is lost or
  released refuses without a request to the server.
\<close>

theorem renew_outcome:
  assumes api: "timed_lease ops life" and run: "handle_renew ops cenv renv h s w = (err, h', s', w')"
    and ok: "h_released h \<longrightarrow> h_lost h"
  shows "(err = None \<longrightarrow> \<not> h_lost h' \<and> (\<exists>d0 d. ExpiresAt ops (h_leas h) = Some d0 \<and> ExpiresAt ops (h_leas h') = Some d \<and>
      d = max d0 (requestExpiry (ren_started renv) (life (h_leas h))) \<and> ce_after cenv < d)) \<and>
    (err_Is err ErrLost \<longrightarrow> h_lost h') \<and>
    (err \<noteq> None \<and> \<not> err_Is err ErrLost \<longrightarrow> h' = h \<and> \<not> h_lost h) \<and>
    (h_lost h \<longrightarrow> err = Some ErrLost \<and> h' = h \<and> s' = s \<and> w' = w)"
  using timed_lease.renew_cases [OF api run ok] run by (auto simp: handle_renew_def)

section \<open>Release\<close>

lemma stop_simps [simp]:
  "h_lost (fst (stop h w))" "h_released (fst (stop h w))" "h_leas (fst (stop h w)) = h_leas h"
  "h_releaseDone (fst (stop h w)) = h_releaseDone h"
  by (simp_all add: stop_def Let_def)

lemma handle_release_run:
  assumes "\<not> h_releaseDone h" and "Release ops tr (h_leas h) s = (e, l, s')"
  shows "\<exists>h' w'. handle_release ops tr h s w = (e, h', s', w') \<and> h_lost h' \<and> h_released h' \<and> h_leas h' = l \<and>
    h_releaseDone h' = (e = None \<or> err_Is e ErrLost)"
proof -
  obtain h1 w1 where st: "stop h w = (h1, w1)" by fastforce
  then have h1: "h_lost h1" "h_released h1" "h_leas h1 = h_leas h"
    using stop_simps [of h w] by simp_all
  obtain finish w2 where "t_Start (h_tracer h1) ''distsync.release'' w1 = (finish, w2)" by fastforce
  then show ?thesis using assms h1 by (simp add: handle_release_def st)
qed

text \<open>
  C28: Releasing is idempotent and may be retried. Whatever the first release returns, the
  handle is lost to its holder, so that every later renewal is refused without a request. When
  the release completed (without error, or with the lease already gone) every later release
  returns nil and changes neither the handle nor the server nor the metrics; otherwise the
  next one sends the request for the same lease again.
\<close>

theorem release_completes_once:
  assumes api: "lease_api ops" and unreleased: "\<not> h_releaseDone h"
    and run: "handle_release ops tr h s w = (err, h', s', w')"
  shows "h_lost h' \<and> handle_renew ops cenv renv h' s2 w2 = (Some ErrLost, h', s2, w2) \<and>
    (err = None \<or> err_Is err ErrLost \<longrightarrow> handle_release ops tr2 h' s2 w2 = (None, h', s2, w2)) \<and>
    (\<not> (err = None \<or> err_Is err ErrLost) \<longrightarrow>
      ID ops (h_leas h') = ID ops (h_leas h) \<and>
      fst (handle_release ops tr2 h' s2 w2) = fst (Release ops tr2 (h_leas h') s2))"
proof -
  obtain e l s1 where rel: "Release ops tr (h_leas h) s = (e, l, s1)" by (metis prod_cases3)
  obtain e2 l2 s3 where rel2: "Release ops tr2 (h_leas h') s2 = (e2, l2, s3)" by (metis prod_cases3)
  have h': "e = err" "h_lost h'" "h_leas h' = l" "h_releaseDone h' = (err = None \<or> err_Is err ErrLost)"
    using handle_release_run [where w = w, OF unreleased rel] run by auto
  have id: "ID ops l = ID ops (h_leas h)" using lease_api.ID_release [OF api rel] .
  have "handle_renew ops cenv renv h' s2 w2 = (Some ErrLost, h', s2, w2)" using h'(2) by (simp add: handle_renew_def)
  moreover have "handle_release ops tr2 h' s2 w2 = (None, h', s2, w2)" if "h_releaseDone h'"
    using that by (simp add: handle_release_def)
  moreover have "fst (handle_release ops tr2 h' s2 w2) = fst (Release ops tr2 (h_leas h') s2)" if "\<not> h_releaseDone h'"
    using handle_release_run [where w = w2, OF that rel2] rel2 by auto
  ultimately show ?thesis using h' id by simp
qed


end
