(* ===== verification/Guards.thy ===== *)
theory Guards
  imports Handle
begin

text \<open>
  The life of a guard with everything that runs beside its holder: the deadline timer, the
  background loop, manual renewals and releases, interleaved in any order. A renewal is not
  one step: its request may take effect between any steps of the others.
\<close>

record ('l, 's, 'w) scene =
  sc_now :: instant
  sc_h :: "('l, 'w) handle"
  sc_s :: 's

text \<open>
  The steps: time passes; the due timer runs \<^verbatim>\<open>checkDeadline\<close>; a renewal or a check begins,
  takes effect on the lease, or returns; a loss is noted; the holder's release stops the
  handle and then releases the lease.
\<close>

inductive life_step :: "('l, 's) lease_ops \<Rightarrow> ('l, 's, 'w) scene \<Rightarrow> ('l, 's, 'w) scene \<Rightarrow> bool" for ops where
  passes: "sc_now S \<le> t \<Longrightarrow> life_step ops S (S\<lparr>sc_now := t\<rparr>)"
| timer: "h_timer (sc_h S) = Some d \<Longrightarrow> d \<le> sc_now S \<Longrightarrow> life_step ops S (S\<lparr>sc_h := checkDeadline ops (sc_now S) (sc_h S)\<rparr>)"
| begins: "call_begin ops (sc_now S) (sc_h S) = (e, h) \<Longrightarrow> life_step ops S (S\<lparr>sc_h := h\<rparr>)"
| renews: "Renew ops env (h_leas (sc_h S)) (sc_s S) = (e, l, s) \<Longrightarrow>
    life_step ops S (S\<lparr>sc_h := (sc_h S)\<lparr>h_leas := l\<rparr>, sc_s := s\<rparr>)"
| returns: "call_end ops (sc_now S) err (sc_h S) = (e, h) \<Longrightarrow> life_step ops S (S\<lparr>sc_h := h\<rparr>)"
| loses: "life_step ops S (S\<lparr>sc_h := markLost (sc_h S)\<rparr>)"
| stops: "stop (sc_h S) w = (h, w') \<Longrightarrow> life_step ops S (S\<lparr>sc_h := h\<rparr>)"
| releases: "h_lost (sc_h S) \<Longrightarrow> Release ops tr (h_leas (sc_h S)) (sc_s S) = (e, l, s) \<Longrightarrow>
    life_step ops S (S\<lparr>sc_h := (sc_h S)\<lparr>h_leas := l, h_releaseDone := b\<rparr>, sc_s := s\<rparr>)"

inductive alive :: "('l, 's) lease_ops \<Rightarrow> ('l, 's, 'w) scene \<Rightarrow> bool" for ops where
  renewing: "alive ops \<lparr>sc_now = now, sc_h = startRenewal ops i now (newHandle r p m t l), sc_s = s\<rparr>"
| watching: "alive ops \<lparr>sc_now = now, sc_h = startWatchdog ops i now (newHandle r p m t l), sc_s = s\<rparr>"
| later: "alive ops S \<Longrightarrow> life_step ops S S' \<Longrightarrow> alive ops S'"

text \<open>While the context is not cancelled, the timer is set no later than the lease's expiry.\<close>

definition watched :: "('l, 's) lease_ops \<Rightarrow> ('l, 'w) handle \<Rightarrow> bool" where
  "watched ops h = (h_lost h \<or> (\<exists>d e. h_timer h = Some d \<and> ExpiresAt ops (h_leas h) = Some e \<and> d \<le> e))"

lemma watched_lost [simp]: "h_lost h \<Longrightarrow> watched ops h"
  by (simp add: watched_def)

lemma watched_check: "watched ops (checkDeadline ops now h)"
  by (auto simp: watched_def checkDeadline_def split: option.splits)

lemma watched_begin: "watched ops h \<Longrightarrow> call_begin ops now h = (e, h') \<Longrightarrow> watched ops h'"
  by (auto simp: call_begin_def split: if_splits)

lemma watched_end: "watched ops h \<Longrightarrow> call_end ops now err h = (e, h') \<Longrightarrow> watched ops h'"
  by (auto simp: call_end_def split: if_splits)

context lease_api
begin

lemma watched_renew:
  assumes "watched ops h" and "Renew ops env (h_leas h) s = (e, l, s')"
  shows "watched ops (h\<lparr>h_leas := l\<rparr>)"
proof (cases e)
  case None
  then obtain d0 d where "ExpiresAt ops (h_leas h) = Some d0" "ExpiresAt ops l = Some d" "d0 \<le> d"
    using renewed assms(2) by blast
  then show ?thesis using assms(1) by (auto simp: watched_def)
next
  case (Some x)
  then have "l = h_leas h" using not_renewed assms(2) by blast
  then show ?thesis using assms(1) by simp
qed

lemma watched_step: "life_step ops S S' \<Longrightarrow> watched ops (sc_h S) \<Longrightarrow> watched ops (sc_h S')"
proof (induction rule: life_step.induct)
  case (begins S e h)
  then show ?case using watched_begin by auto
next
  case (renews env S e l s)
  then show ?case using watched_renew by auto
next
  case (returns S err e h)
  then show ?case using watched_end by auto
next
  case (stops S w h w')
  then show ?case using stop_simps(1) [of "sc_h S" w] by simp
qed (simp_all add: watched_check)

lemma alive_watched: "alive ops S \<Longrightarrow> watched ops (sc_h S)"
proof (induction rule: alive.induct)
  case (later S S')
  then show ?case using watched_step by blast
qed (simp_all add: startRenewal_def startWatchdog_def watched_check)

end

lemma lost_stays: "life_step ops S S' \<Longrightarrow> h_lost (sc_h S) \<Longrightarrow> h_lost (sc_h S')"
proof (induction rule: life_step.induct)
  case (stops S w h w')
  then show ?case using stop_simps(1) [of "sc_h S" w] by simp
qed (auto simp: checkDeadline_def call_begin_def call_end_def split: if_splits)

text \<open>
  C7: The context of a guard that is renewed or watched follows its lease, in every interleaving
  of timer, background loop, manual renewals and release. As long as the context is not
  cancelled, the deadline timer is set, and no later than the local expiry of the lease; when
  it runs at or after that expiry the context is cancelled; and a cancelled context stays so.
\<close>

theorem context_follows_lease:
  assumes api: "lease_api ops" and S: "alive ops S"
  shows "(h_lost (sc_h S) \<or> (\<exists>d e. h_timer (sc_h S) = Some d \<and> ExpiresAt ops (h_leas (sc_h S)) = Some e \<and> d \<le> e)) \<and>
    (\<not> After (ExpiresAt ops (h_leas (sc_h S))) (sc_now S) \<longrightarrow> h_lost (checkDeadline ops (sc_now S) (sc_h S))) \<and>
    (h_lost (sc_h S) \<and> life_step ops S S' \<longrightarrow> h_lost (sc_h S'))"
  using lease_api.alive_watched [OF api S] lost_stays [of ops S S']
  by (auto simp: watched_def checkDeadline_def After_def split: option.splits)

section \<open>Witnesses\<close>

text \<open>An exclusive lease that expires at 900, acquired at 100.\<close>

definition wit_held :: single_owner where
  "wit_held = (NewSingleOwner ''a'' ''k'' ''f'' Second True)\<lparr>so_expiresAt := Some 900\<rparr>"

definition wit_handle :: "(single_owner, unit) handle" where
  "wit_handle = startRenewal (SingleOwner_ops mem_redis) 300 100 (newHandle ''k'' ''mutex'' noopMetrics noopTracer wit_held)"

lemma wit_api: "lease_api (SingleOwner_ops mem_redis)"
  by (rule so.lease_api_axioms)

lemma wit_handle_simps:
  "wit_handle = \<lparr>h_resource = ''k'', h_primitive = ''mutex'', h_metrics = noopMetrics, h_tracer = noopTracer,
     h_leas = wit_held, h_renewer = Some (Heartbeat 300), h_released = False, h_releaseDone = False,
     h_lost = False, h_stopped = False, h_timer = Some 900\<rparr>"
  by (simp add: wit_handle_def startRenewal_def newHandle_def checkDeadline_def SingleOwner_ops_def wit_held_def)

theorem context_follows_lease_witness:
  "h_timer wit_handle = Some 900 \<and> h_lost (checkDeadline (SingleOwner_ops mem_redis) 900 wit_handle)"
proof -
  let ?S = "\<lparr>sc_now = 100, sc_h = wit_handle, sc_s = empty_mem\<rparr>"
  have S: "alive (SingleOwner_ops mem_redis) ?S" unfolding wit_handle_def by (rule alive.renewing)
  then have S': "alive (SingleOwner_ops mem_redis) (?S\<lparr>sc_now := 900\<rparr>)"
    by (rule alive.later) (rule life_step.passes, simp)
  show ?thesis
    using context_follows_lease [OF wit_api S'] by (simp add: wit_handle_simps SingleOwner_ops_def wit_held_def)
qed

text \<open>Its renewal at 400 on a server that has the lock, and its release on one that has lost it.\<close>

definition wit_call :: call_env where
  "wit_call = \<lparr>ce_before = 400, ce_meanwhile = False, ce_after = 420\<rparr>"

definition wit_ren :: renew_env where
  "wit_ren = \<lparr>ren_started = 400, ren_net = Reply [] 1, ren_replied = 410, ren_checked = 411\<rparr>"

definition wit_owned :: mem where
  "wit_owned = \<lparr>mclock = 0, mdata = [''k'' \<mapsto> (VStr (Text ''a''), Some 5000)]\<rparr>"

lemma wit_renewed:
  "\<exists>s. Renew (SingleOwner_ops mem_redis) wit_ren wit_held wit_owned = (None, wit_held\<lparr>so_expiresAt := Some 989000400\<rparr>, s)"
proof -
  have d: "mem_db wit_owned = [''k'' \<mapsto> (VStr (Text ''a''), Some 5000)]"
    "mem_db (mem_elapse 1 wit_owned) = [''k'' \<mapsto> (VStr (Text ''a''), Some 5000)]"
    by (simp_all add: mem_db_elapse fun_eq_iff mem_db_def wit_owned_def)
  have wf: "lock_wf (mem_db wit_owned) ''k'' ''f''" by (simp add: d lock_wf_def ttlv_def counter_def)
  have c: "mclock wit_owned \<le> 1" by (simp add: wit_owned_def)
  have "lock_abs (mem_db (elapse mem_redis 1 wit_owned)) ''k'' ''f'' = \<lparr>holder = Some (''a'', 5000), fence = 0\<rparr>"
    by (simp add: mem_redis_def d lock_abs_def counter_def)
  then obtain s' where "Run mem_redis (Reply [] 1) (single_renew mem_redis ''k'' ''a'' 1000) wit_owned = (Inr (SInt 1), s')"
    using mem.Run_renew [OF wf c, of 1000 "''a''"] by (auto simp: lock_renew_def bool_reply_def)
  then show ?thesis
    by (simp add: SingleOwner_ops_def SingleOwner_Renew_def wit_held_def NewSingleOwner_def wit_ren_def
        Milliseconds_nonneg requestExpiry_def confirm_renewal_def After_def)
qed

lemma wit_release_lost: "\<exists>s. Release (SingleOwner_ops mem_redis) (Reply [] 1) wit_held empty_mem = (Some ErrLost, wit_held, s)"
  using mem.Run_release [OF empty_lock(1), of 1 "''a''"] empty_lock(2,3)
  by (auto simp: SingleOwner_ops_def SingleOwner_Release_def wit_held_def NewSingleOwner_def lock_release_def bool_reply_def)

theorem renew_outcome_witness:
  "\<exists>h s. handle_renew (SingleOwner_ops mem_redis) wit_call wit_ren wit_handle wit_owned () = (None, h, s, ()) \<and>
     \<not> h_lost h \<and> ExpiresAt (SingleOwner_ops mem_redis) (h_leas h) = Some 989000400"
proof -
  obtain s where "Renew (SingleOwner_ops mem_redis) wit_ren wit_held wit_owned = (None, wit_held\<lparr>so_expiresAt := Some 989000400\<rparr>, s)"
    using wit_renewed by blast
  moreover have "ExpiresAt (SingleOwner_ops mem_redis) wit_held = Some 900" by (simp add: SingleOwner_ops_def wit_held_def)
  moreover have "ExpiresAt (SingleOwner_ops mem_redis) (wit_held\<lparr>so_expiresAt := Some 989000400\<rparr>) = Some 989000400" by (simp add: SingleOwner_ops_def)
  ultimately obtain h where run: "handle_renew (SingleOwner_ops mem_redis) wit_call wit_ren wit_handle wit_owned () = (None, h, s, ())"
    by (simp add: handle_renew_def withLeaseDeadline_def call_begin_def call_end_def wit_handle_simps wit_call_def
        noopTracer_def noopMetrics_def)
  have "requestExpiry 400 Second = 989000400" by (simp add: requestExpiry_def)
  then show ?thesis using renew_outcome [OF so.timed_lease_axioms run] run
    by (auto simp: wit_handle_simps SingleOwner_ops_def wit_held_def NewSingleOwner_def wit_ren_def)
qed

theorem release_completes_once_witness:
  "\<exists>h s. handle_release (SingleOwner_ops mem_redis) (Reply [] 1) wit_handle empty_mem () = (Some ErrLost, h, s, ()) \<and>
     handle_release (SingleOwner_ops mem_redis) (Reply [] 2) h s () = (None, h, s, ())"
proof -
  have open_h: "\<not> h_releaseDone wit_handle" "h_leas wit_handle = wit_held" by (simp_all add: wit_handle_simps)
  obtain h s where run: "handle_release (SingleOwner_ops mem_redis) (Reply [] 1) wit_handle empty_mem () = (Some ErrLost, h, s, ())"
    using handle_release_run [OF open_h(1), of "SingleOwner_ops mem_redis" "Reply [] 1" empty_mem] wit_release_lost open_h(2) by auto
  then show ?thesis
    using release_completes_once [OF wit_api open_h(1) run, of wit_call wit_ren s "()" "Reply [] 2"] by auto
qed

end
