(* ===== verification/Acquisition.thy ===== *)
theory Acquisition
  imports Handle
begin

text \<open>
  The acquisition loop that \<^verbatim>\<open>Mutex.Lock\<close>, \<^verbatim>\<open>RWMutex.Lock\<close>, \<^verbatim>\<open>RWMutex.RLock\<close>,
  \<^verbatim>\<open>Semaphore.Acquire\<close> and \<^verbatim>\<open>Leader.Run\<close> share, and the guard each builds from a grant. One
  \<open>turn\<close> is what the loop observes in one round; a list of turns that ends while the lock
  is busy is a loop that is still running.
\<close>

section \<open>The loop\<close>

text \<open>
  A turn: the request, the context after a busy reply, the branch \<^verbatim>\<open>select\<close> takes (\<open>None\<close>: the
  backoff timer fired; \<open>Some e\<close>: the context was done, with error \<open>e\<close>), the random number of
  the backoff, the time since the start when a result is reported, and the network of the
  two commands that leave the queue of a read/write lock.
\<close>

record turn =
  tn_env :: acq_env
  tn_ctx :: "goerr option"
  tn_select :: "goerr option"
  tn_rand :: rat
  tn_since :: duration
  tn_dequeue :: "transport \<times> transport"

datatype 'a outcome = Waiting | Failed goerr turn | GaveUp goerr turn | Granted 'a turn

text \<open>
  \<open>Failed\<close> is an error other than busy, \<open>GaveUp\<close> a context that ended. The last component is
  what the loop slept through.
\<close>

fun acquire_loop ::
  "(acq_env \<Rightarrow> 'l \<Rightarrow> 's \<Rightarrow> (goerr + 'a) \<times> 'l \<times> 's) \<Rightarrow> (f64 \<Rightarrow> int) \<Rightarrow> retryPolicy \<Rightarrow> nat \<Rightarrow> turn list \<Rightarrow> 'l \<Rightarrow> 's \<Rightarrow>
     'a outcome \<times> 'l \<times> 's \<times> duration list" where
  "acquire_loop try impl rp n [] l s = (Waiting, l, s, [])"
| "acquire_loop try impl rp n (a # as) l s =
     (case try (tn_env a) l s of
        (Inr x, l', s') \<Rightarrow> (Granted x a, l', s', [])
      | (Inl e, l', s') \<Rightarrow>
          if \<not> errors_Is e ErrBusy then (Failed e a, l', s', [])
          else (case tn_ctx a of
              Some c \<Rightarrow> (GaveUp c a, l', s', [])
            | None \<Rightarrow> (case tn_select a of
                Some c \<Rightarrow> (GaveUp c a, l', s', [])
              | None \<Rightarrow> (case acquire_loop try impl rp (Suc n) as l' s' of
                  (out, l'', s'', ds) \<Rightarrow> (out, l'', s'', delay impl (tn_rand a) rp n # ds)))))"

text \<open>A lease without a fence in the shape the loop expects.\<close>

definition plain_try ::
  "(acq_env \<Rightarrow> 'l \<Rightarrow> 's \<Rightarrow> goerr option \<times> 'l \<times> 's) \<Rightarrow> acq_env \<Rightarrow> 'l \<Rightarrow> 's \<Rightarrow> (goerr + unit) \<times> 'l \<times> 's" where
  "plain_try f env l s = (case f env l s of (None, l', s') \<Rightarrow> (Inr (), l', s') | (Some e, l', s') \<Rightarrow> (Inl e, l', s'))"

text \<open>
  The error values \<^verbatim>\<open>fmt.Errorf\<close> builds around a cause; the text, which no caller inspects, is
  the verb and the quoted name.
\<close>

definition errorf :: "string \<Rightarrow> string \<Rightarrow> goerr \<Rightarrow> goerr" where
  "errorf verb name e = Wrap (''distsync: '' @ verb @ '' '' @ name) e"

text \<open>
  Every blocking entry point of the library calls \<^verbatim>\<open>ctxNonNil\<close> first, which panics on a nil context.
  The operations of the primitives are what follows a context that is not nil.
\<close>

definition ctxNonNil :: "'c option \<Rightarrow> string + 'c" where
  "ctxNonNil ctx = (case ctx of None \<Rightarrow> Inl ''distsync: nil context'' | Some c \<Rightarrow> Inr c)"

section \<open>Guards and their store\<close>

text \<open>
  A guard is shared: the caller and the primitive's \<^verbatim>\<open>holder\<close> field point to the same one. The
  store lists the guards of a primitive; a pointer is a position in it.
\<close>

type_synonym ('l, 'w) store = "('l, 'w) guard list"

text \<open>What \<^verbatim>\<open>guard\<close> and \<^verbatim>\<open>permit\<close> do with a new handle: renew it, watch it, or neither.\<close>

definition start_background ::
  "('l, 's) lease_ops \<Rightarrow> (f64 \<Rightarrow> int) \<Rightarrow> rat \<Rightarrow> instant \<Rightarrow> config \<Rightarrow> ('l, 'w) handle \<Rightarrow> ('l, 'w) handle" where
  "start_background ops impl r now cfg h =
     (if autoRenew cfg then startRenewal ops (renewalInterval impl r (ttl cfg)) now h
      else if watchdog cfg then startWatchdog ops (renewalInterval impl r (ttl cfg)) now h
      else h)"

text \<open>Unlocking through a pointer updates the guard in the store.\<close>

definition unlock_at ::
  "('l, 's) lease_ops \<Rightarrow> transport \<Rightarrow> nat \<Rightarrow> ('l, 'w) store \<Rightarrow> 's \<Rightarrow> 'w \<Rightarrow> goerr option \<times> ('l, 'w) store \<times> 's \<times> 'w" where
  "unlock_at ops tr p st s w =
     (case Guard_Unlock ops tr (st ! p) s w of (e, g, s', w') \<Rightarrow> (e, st[p := g], s', w'))"

text \<open>
  \<^verbatim>\<open>Unlock\<close> of a primitive: through its holder, if it has one, which is then cleared unless it has
  changed. \<open>meanwhile\<close> is what another goroutine has set the holder to during the release, if any.
\<close>

definition unlock_holder ::
  "('l, 's) lease_ops \<Rightarrow> transport \<Rightarrow> nat option option \<Rightarrow> nat option \<Rightarrow> ('l, 'w) store \<Rightarrow> 's \<Rightarrow> 'w \<Rightarrow>
     goerr option \<times> nat option \<times> ('l, 'w) store \<times> 's \<times> 'w" where
  "unlock_holder ops tr meanwhile hp st s w =
     (case hp of
        None \<Rightarrow> (None, hp, st, s, w)
      | Some p \<Rightarrow>
          (case unlock_at ops tr p st s w of (err, st', s', w') \<Rightarrow>
             let now_held = (case meanwhile of None \<Rightarrow> hp | Some q \<Rightarrow> q)
             in (err, if (err = None \<or> err_Is err ErrLost) \<and> now_held = Some p then None else now_held, st', s', w')))"

section \<open>Lemmas\<close>

lemma start_background_simps [simp]:
  "h_leas (start_background ops impl r now cfg h) = h_leas h"
  "h_releaseDone (start_background ops impl r now cfg h) = h_releaseDone h"
  "h_released (start_background ops impl r now cfg h) = h_released h"
  by (auto simp: start_background_def startRenewal_def startWatchdog_def checkDeadline_def split: option.splits)

text \<open>What a loop ends with, in terms of the request of its last turn.\<close>

lemma acquire_loop_granted:
  "acquire_loop try impl rp n as l s = (Granted x a, l', s', ds) \<Longrightarrow>
    a \<in> set as \<and> (\<exists>l0 s0. try (tn_env a) l0 s0 = (Inr x, l', s'))"
proof (induction as arbitrary: n l s ds)
  case (Cons b as)
  from Cons.prems show ?case by (auto split: prod.splits sum.splits if_splits option.splits dest!: Cons.IH)
qed simp

lemma acquire_loop_failed:
  "acquire_loop try impl rp n as l s = (Failed e a, l', s', ds) \<Longrightarrow>
    a \<in> set as \<and> (\<exists>l0 s0. try (tn_env a) l0 s0 = (Inl e, l', s')) \<and> \<not> errors_Is e ErrBusy"
proof (induction as arbitrary: n l s ds)
  case (Cons b as)
  from Cons.prems show ?case by (auto split: prod.splits sum.splits if_splits option.splits dest!: Cons.IH)
qed simp

text \<open>A loop that goes on after some refused attempts.\<close>

lemma acquire_loop_append:
  "acquire_loop try impl rp n as l s = (Waiting, l1, s1, ds) \<Longrightarrow>
    acquire_loop try impl rp n (as @ bs) l s =
      (case acquire_loop try impl rp (n + length as) bs l1 s1 of (out, l', s', ds') \<Rightarrow> (out, l', s', ds @ ds'))"
proof (induction as arbitrary: n l s ds)
  case (Cons a as)
  from Cons.prems show ?case
    by (auto split: prod.splits sum.splits if_splits option.splits dest!: Cons.IH)
qed (simp split: prod.splits)

text \<open>An invariant of every request holds of the loop.\<close>

lemma acquire_loop_invariant:
  assumes "acquire_loop try impl rp n as l s = (out, l', s', ds)" and "P l s"
    and "\<And>a l s r l' s'. a \<in> set as \<Longrightarrow> P l s \<Longrightarrow> try (tn_env a) l s = (r, l', s') \<Longrightarrow> P l' s'"
  shows "P l' s'"
  using assms
proof (induction as arbitrary: n l s ds)
  case (Cons b as)
  obtain r l1 s1 where t: "try (tn_env b) l s = (r, l1, s1)" by (metis prod_cases3)
  have P: "P l1 s1" using Cons.prems(3) [of b l s r l1 s1] Cons.prems(2) t by simp
  show ?case
  proof (cases "\<exists>e. r = Inl e \<and> errors_Is e ErrBusy \<and> tn_ctx b = None \<and> tn_select b = None")
    case True
    then obtain ds' where "acquire_loop try impl rp (Suc n) as l1 s1 = (out, l', s', ds')"
      using Cons.prems(1) t by (auto split: prod.splits)
    then show ?thesis using Cons.IH P Cons.prems(3) by (meson list.set_intros(2))
  next
    case False
    then have "l' = l1" "s' = s1" using Cons.prems(1) t by (auto split: sum.splits if_splits option.splits)
    then show ?thesis using P by simp
  qed
qed simp

text \<open>The loop sleeps once for each further attempt.\<close>

lemma acquire_loop_sleeps:
  "acquire_loop try impl rp n as l s = (out, l', s', ds) \<Longrightarrow> length ds \<le> length as \<and>
    (\<forall>i < length ds. ds ! i = delay impl (tn_rand (as ! i)) rp (n + i))"
proof (induction as arbitrary: n l s ds)
  case (Cons a as)
  obtain r l1 s1 where t: "try (tn_env a) l s = (r, l1, s1)" by (metis prod_cases3)
  show ?case
  proof (cases "\<exists>e. r = Inl e \<and> errors_Is e ErrBusy \<and> tn_ctx a = None \<and> tn_select a = None")
    case True
    then obtain ds' where ds: "acquire_loop try impl rp (Suc n) as l1 s1 = (out, l', s', ds')"
        "ds = delay impl (tn_rand a) rp n # ds'"
      using Cons.prems t by (auto split: prod.splits)
    then show ?thesis using Cons.IH [OF ds(1)] by (auto simp: nth_Cons split: nat.splits)
  next
    case False
    then have "ds = []" using Cons.prems t by (auto split: sum.splits if_splits option.splits)
    then show ?thesis by simp
  qed
qed simp

end
