(* ===== verification/Mutex.thy ===== *)
theory Mutex
  imports Acquisition
begin

text \<open>
  \<^verbatim>\<open>mutex.go\<close> and \<^verbatim>\<open>once.go\<close>: the mutex over the exclusive lease. A call takes what it observes
  of its environment as arguments: the random token of the new lease, the turns of the
  acquisition loop, and what starting the background loop reads (a random number, the
  clock). An operation returns its result with the mutex, the store of guards, the server and
  the state of the metrics and tracing.
\<close>

record ('s, 'w) mutex =
  mu_client :: "('s, 'w) client"
  mu_name :: string
  mu_cfg :: config
  mu_key :: string
  mu_fkey :: string
  mu_holder :: "nat option"

definition Client_Mutex :: "('s, 'w) client \<Rightarrow> string \<Rightarrow> config_option list \<Rightarrow> ('s, 'w) mutex" where
  "Client_Mutex c name opts =
     (let cfg = resolved c opts; key = Key name
      in \<lparr>mu_client = c, mu_name = name, mu_cfg = cfg, mu_key = key, mu_fkey = Derived key ''fencing'', mu_holder = None\<rparr>)"

definition Mutex_Name :: "('s, 'w) mutex \<Rightarrow> string" where "Mutex_Name m = mu_name m"

text \<open>What starting the background loop of a guard reads, beside the conversion \<open>impl\<close>.\<close>

record guard_env =
  ge_impl :: "f64 \<Rightarrow> int"
  ge_rand :: rat
  ge_now :: instant

definition Mutex_newLease :: "string \<Rightarrow> ('s, 'w) mutex \<Rightarrow> single_owner" where
  "Mutex_newLease token m = NewSingleOwner token (mu_key m) (mu_fkey m) (ttl (mu_cfg m)) True"

definition Mutex_guard :: "guard_env \<Rightarrow> ('s, 'w) mutex \<Rightarrow> single_owner \<Rightarrow> 64 word \<Rightarrow> (single_owner, 'w) guard" where
  "Mutex_guard ge m l f =
     \<lparr>g_handle = start_background (SingleOwner_ops (rdb (mu_client m))) (ge_impl ge) (ge_rand ge) (ge_now ge) (mu_cfg m)
        (newHandle (mu_name m) ''mutex'' (metrics (mu_client m)) (tracer (mu_client m)) l),
      g_fencing = f\<rparr>"

definition Mutex_setHolder :: "nat \<Rightarrow> ('s, 'w) mutex \<Rightarrow> ('s, 'w) mutex" where
  "Mutex_setHolder p m = m\<lparr>mu_holder := Some p\<rparr>"

text \<open>\<^term>\<open>None\<close> is a call of \<^verbatim>\<open>Lock\<close> that is still retrying.\<close>

definition Mutex_Lock ::
  "guard_env \<Rightarrow> string \<Rightarrow> turn list \<Rightarrow> ('s, 'w) mutex \<Rightarrow> (single_owner, 'w) store \<Rightarrow> 's \<Rightarrow> 'w \<Rightarrow>
     (goerr + nat) option \<times> ('s, 'w) mutex \<times> (single_owner, 'w) store \<times> 's \<times> 'w" where
  "Mutex_Lock ge token turns m st s w =
     (let c = mu_client m; (finish, w1) = t_Start (tracer c) ''distsync.mutex.lock'' w in
      case acquire_loop (SingleOwner_TryAcquire (rdb c)) (ge_impl ge) (retry (mu_cfg m)) 0 turns (Mutex_newLease token m) s of
        (Waiting, l, s', _) \<Rightarrow> (None, m, st, s', w1)
      | (Granted f a, l, s', _) \<Rightarrow>
          (Some (Inr (length st)), Mutex_setHolder (length st) m, st @ [Mutex_guard ge m l f], s',
           finish None (m_Acquire (metrics c) ''mutex'' (mu_name m) True (tn_since a) w1))
      | (Failed e a, l, s', _) \<Rightarrow>
          let err = errorf ''lock'' (mu_name m) e
          in (Some (Inl err), m, st, s', finish (Some err) (m_Acquire (metrics c) ''mutex'' (mu_name m) False (tn_since a) w1))
      | (GaveUp e a, l, s', _) \<Rightarrow>
          let err = errorf ''lock'' (mu_name m) e
          in (Some (Inl err), m, st, s', finish (Some err) (m_Acquire (metrics c) ''mutex'' (mu_name m) False (tn_since a) w1)))"

definition Mutex_TryLock ::
  "guard_env \<Rightarrow> string \<Rightarrow> acq_env \<Rightarrow> ('s, 'w) mutex \<Rightarrow> (single_owner, 'w) store \<Rightarrow> 's \<Rightarrow> 'w \<Rightarrow>
     (goerr + nat) \<times> ('s, 'w) mutex \<times> (single_owner, 'w) store \<times> 's \<times> 'w" where
  "Mutex_TryLock ge token env m st s w =
     (let c = mu_client m in
      case SingleOwner_TryAcquire (rdb c) env (Mutex_newLease token m) s of
        (Inl e, l, s') \<Rightarrow>
          if errors_Is e ErrBusy
          then (Inl ErrNotAcquired, m, st, s', m_Acquire (metrics c) ''mutex'' (mu_name m) False 0 w)
          else (Inl e, m, st, s', w)
      | (Inr f, l, s') \<Rightarrow>
          (Inr (length st), Mutex_setHolder (length st) m, st @ [Mutex_guard ge m l f], s',
           m_Acquire (metrics c) ''mutex'' (mu_name m) True 0 w))"

definition Mutex_Unlock ::
  "transport \<Rightarrow> nat option option \<Rightarrow> ('s, 'w) mutex \<Rightarrow> (single_owner, 'w) store \<Rightarrow> 's \<Rightarrow> 'w \<Rightarrow>
     goerr option \<times> ('s, 'w) mutex \<times> (single_owner, 'w) store \<times> 's \<times> 'w" where
  "Mutex_Unlock tr meanwhile m st s w =
     (case unlock_holder (SingleOwner_ops (rdb (mu_client m))) tr meanwhile (mu_holder m) st s w of
        (err, hp, st', s', w') \<Rightarrow> (err, m\<lparr>mu_holder := hp\<rparr>, st', s', w'))"

section \<open>Once\<close>

text \<open>
  \<^verbatim>\<open>Once\<close> runs \<open>fn\<close>, whose result may be a value, an error or a panic, and unlocks on the way
  out with the context freed of its cancellation. While \<open>fn\<close> runs anything may happen to the
  mutex, its guards (renewals, a loss, an \<^verbatim>\<open>Unlock\<close> by \<open>fn\<close> itself), the server and the metrics.
\<close>

definition Once ::
  "guard_env \<Rightarrow> string \<Rightarrow> turn list \<Rightarrow> transport \<Rightarrow>
     (('s, 'w) mutex \<Rightarrow> (single_owner, 'w) store \<Rightarrow> 's \<Rightarrow> 'w \<Rightarrow> 'r \<times> ('s, 'w) mutex \<times> (single_owner, 'w) store \<times> 's \<times> 'w) \<Rightarrow>
     ('s, 'w) mutex \<Rightarrow> (single_owner, 'w) store \<Rightarrow> 's \<Rightarrow> 'w \<Rightarrow>
     (goerr + 'r) option \<times> ('s, 'w) mutex \<times> (single_owner, 'w) store \<times> 's \<times> 'w" where
  "Once ge token turns tr fn m st s w =
     (case Mutex_Lock ge token turns m st s w of
        (None, m', st', s', w') \<Rightarrow> (None, m', st', s', w')
      | (Some (Inl e), m', st', s', w') \<Rightarrow> (Some (Inl e), m', st', s', w')
      | (Some (Inr p), m', st', s', w') \<Rightarrow>
          (case fn m' st' s' w' of (r, m1, st1, s1, w1) \<Rightarrow>
             (case unlock_at (SingleOwner_ops (rdb (mu_client m))) tr p st1 s1 w1 of
                (_, st2, s2, w2) \<Rightarrow> (Some (Inr r), m1, st2, s2, w2))))"

section \<open>Locking\<close>

lemma Mutex_guard_simps [simp]:
  "h_leas (g_handle (Mutex_guard ge m l f)) = l" "\<not> h_releaseDone (g_handle (Mutex_guard ge m l f))"
  "g_fencing (Mutex_guard ge m l f) = f"
  by (simp_all add: Mutex_guard_def newHandle_def)

lemma Mutex_setHolder_simps [simp]:
  "mu_client (Mutex_setHolder p m) = mu_client m" "mu_holder (Mutex_setHolder p m) = Some p"
  by (simp_all add: Mutex_setHolder_def)

text \<open>A granted request leaves the lease with a deadline that was ahead when the reply came.\<close>

lemma TryAcquire_expiry:
  assumes "SingleOwner_TryAcquire R env l s = (Inr f, l', s')"
  shows "l' = l\<lparr>so_expiresAt := Some (requestExpiry (acq_started env) (so_ttl l))\<rparr>"
    and "acq_replied env < requestExpiry (acq_started env) (so_ttl l)"
  using assms by (auto simp: SingleOwner_TryAcquire_def Let_def split: prod.splits sum.splits option.splits if_splits)

lemma TryAcquire_fields:
  "SingleOwner_TryAcquire R env l s = (r, l', s') \<Longrightarrow> so_id l' = so_id l \<and> so_key l' = so_key l \<and> so_fkey l' = so_fkey l \<and> so_ttl l' = so_ttl l"
  by (auto simp: SingleOwner_TryAcquire_def SingleOwner_Release_def discardLateGrant_def Let_def
      split: prod.splits sum.splits option.splits if_splits)

text \<open>The contexts of the turns report what contexts report.\<close>

definition ctx_errors :: "turn list \<Rightarrow> bool" where
  "ctx_errors as = (\<forall>a \<in> set as. tn_ctx a \<in> {None, Some Canceled, Some DeadlineExceeded} \<and>
     tn_select a \<in> {None, Some Canceled, Some DeadlineExceeded})"

lemma acquire_loop_gave_up:
  "acquire_loop try impl rp n as l s = (GaveUp e a, l', s', ds) \<Longrightarrow> ctx_errors as \<Longrightarrow> e = Canceled \<or> e = DeadlineExceeded"
proof (induction as arbitrary: n l s ds)
  case (Cons b as)
  have "ctx_errors as" using Cons.prems(2) by (simp add: ctx_errors_def)
  with Cons.prems show ?case
    by (auto simp: ctx_errors_def split: prod.splits sum.splits if_splits option.splits dest!: Cons.IH)
qed simp

lemma errors_Is_errorf [simp]: "errors_Is (errorf v n e) ErrBusy = errors_Is e ErrBusy"
  "errors_Is e t \<Longrightarrow> errors_Is (errorf v n e) t"
  by (simp_all add: errorf_def)

text \<open>
  C20: What \<^verbatim>\<open>Mutex.Lock\<close> returns when it returns. An error leaves the mutex without a new guard
  and is never \<^verbatim>\<open>ErrBusy\<close>: it wraps the error of the context or an error of some request other
  than busy. Success adds one guard, which the mutex holds. It wraps the lease that the request
  of some turn was granted, in the state of the server that request left: the fence of the guard
  is the one the request returned, its token is that of this call, and its deadline is the local
  deadline of that request, which was still ahead when the reply was read.
\<close>

theorem lock_outcome:
  assumes run: "Mutex_Lock ge token turns m st s w = (Some r, m', st', s', w')" and ctx: "ctx_errors turns"
  shows "case r of
      Inl err \<Rightarrow> m' = m \<and> st' = st \<and> \<not> errors_Is err ErrBusy \<and>
        (errors_Is err Canceled \<or> errors_Is err DeadlineExceeded \<or>
         (\<exists>a l s0 e l0 s1. a \<in> set turns \<and> SingleOwner_TryAcquire (rdb (mu_client m)) (tn_env a) l s0 = (Inl e, l0, s1) \<and>
            errors_Is err e))
    | Inr p \<Rightarrow> p = length st \<and> mu_holder m' = Some p \<and> (\<exists>g a d l s0 f. st' = st @ [g] \<and> a \<in> set turns \<and>
        SingleOwner_TryAcquire (rdb (mu_client m)) (tn_env a) l s0 = (Inr f, h_leas (g_handle g), s') \<and>
        Guard_FencingToken g = f \<and> Guard_Token (SingleOwner_ops (rdb (mu_client m))) g = token \<and>
        Guard_ExpiresAt (SingleOwner_ops (rdb (mu_client m))) g = Some d \<and>
        d = requestExpiry (acq_started (tn_env a)) (ttl (mu_cfg m)) \<and> acq_replied (tn_env a) < d)"
proof -
  let ?acq = "SingleOwner_TryAcquire (rdb (mu_client m))"
  obtain out l s1 ds where loop: "acquire_loop ?acq (ge_impl ge) (retry (mu_cfg m)) 0 turns (Mutex_newLease token m) s = (out, l, s1, ds)"
    by (metis prod_cases4)
  obtain finish w1 where tr: "t_Start (tracer (mu_client m)) ''distsync.mutex.lock'' w = (finish, w1)" by fastforce
  have id: "so_id l = token \<and> so_ttl l = ttl (mu_cfg m)"
    by (rule acquire_loop_invariant [OF loop]) (auto simp: Mutex_newLease_def NewSingleOwner_def dest: TryAcquire_fields)
  show ?thesis
  proof (cases out)
    case Waiting
    then show ?thesis using run loop tr by (simp add: Mutex_Lock_def)
  next
    case (Failed e a)
    have f: "a \<in> set turns" "\<exists>l0 s0. ?acq (tn_env a) l0 s0 = (Inl e, l, s1)" "\<not> errors_Is e ErrBusy"
      using acquire_loop_failed [OF loop [unfolded Failed]] by blast+
    have r: "r = Inl (errorf ''lock'' (mu_name m) e)" "m' = m" "st' = st"
      using run loop tr Failed by (auto simp: Mutex_Lock_def Let_def)
    have "errors_Is (errorf ''lock'' (mu_name m) e) e" by (rule errors_Is_errorf(2)) simp
    then show ?thesis using r f by (simp only: sum.case errors_Is_errorf(1)) blast
  next
    case (GaveUp e a)
    have "e = Canceled \<or> e = DeadlineExceeded" using acquire_loop_gave_up [OF loop [unfolded GaveUp] ctx] .
    then show ?thesis using run loop tr GaveUp by (auto simp: Mutex_Lock_def Let_def errorf_def)
  next
    case (Granted f a)
    obtain l0 s0 where g: "a \<in> set turns" "?acq (tn_env a) l0 s0 = (Inr f, l, s1)"
      using acquire_loop_granted [OF loop [unfolded Granted]] by blast
    have r: "r = Inr (length st)" "m' = Mutex_setHolder (length st) m" "st' = st @ [Mutex_guard ge m l f]" "s' = s1"
      using run loop tr Granted by (auto simp: Mutex_Lock_def)
    have "so_ttl l0 = ttl (mu_cfg m)" using id TryAcquire_fields [OF g(2)] by simp
    then have "Guard_ExpiresAt (SingleOwner_ops (rdb (mu_client m))) (Mutex_guard ge m l f) =
        Some (requestExpiry (acq_started (tn_env a)) (ttl (mu_cfg m)))"
      "acq_replied (tn_env a) < requestExpiry (acq_started (tn_env a)) (ttl (mu_cfg m))"
      using TryAcquire_expiry [OF g(2)] by (simp_all add: Guard_ExpiresAt_def SingleOwner_ops_def)
    then show ?thesis
      unfolding r sum.case using g id
      by (intro conjI exI [of _ "Mutex_guard ge m l f"] exI [of _ a] exI [of _ l0] exI [of _ s0])
        (auto simp: Guard_Token_def Guard_FencingToken_def SingleOwner_ops_def)
  qed
qed

section \<open>The mutex on a server\<close>

context redis_server
begin

lemma TryAcquire_free:
  assumes wf: "lock_wf (db s) (so_key l) (so_fkey l)" and T: "clock s \<le> T" and ttl: "0 < Milliseconds (so_ttl l)"
    and net: "acq_net env = Reply [] T" and prompt: "acq_replied env < requestExpiry (acq_started env) (so_ttl l)"
    and free: "lock_abs (db (elapse R T s)) (so_key l) (so_fkey l) = \<lparr>holder = None, fence = n\<rparr>" and n: "n + 1 < 2 ^ 53"
  shows "\<exists>s'. SingleOwner_TryAcquire R env l s =
      (Inr (word_of_int (if so_fencing l then n + 1 else 0)), l\<lparr>so_expiresAt := Some (requestExpiry (acq_started env) (so_ttl l))\<rparr>, s') \<and>
    lock_abs (db s') (so_key l) (so_fkey l) =
      \<lparr>holder = Some (so_id l, T + Milliseconds (so_ttl l)), fence = if so_fencing l then n + 1 else n\<rparr> \<and>
    clock s' = T \<and> lock_wf (db s') (so_key l) (so_fkey l)"
proof -
  obtain s' where run: "Run R (Reply [] T) (single_request R l) s = (Inr (fence_reply (Some (if so_fencing l then n + 1 else 0))), s')"
    "lock_abs (db s') (so_key l) (so_fkey l) =
      \<lparr>holder = Some (so_id l, T + Milliseconds (so_ttl l)), fence = if so_fencing l then n + 1 else n\<rparr>"
    "clock s' = T" "lock_wf (db s') (so_key l) (so_fkey l)"
    using Run_request [OF wf T ttl] n
    by (cases "so_fencing l") (simp only: free lock_acquire_def lock_state.simps option.case if_True if_False Let_def fst_conv snd_conv, blast)+
  then show ?thesis using Int64_fence_reply [OF run(1)] prompt by (simp add: SingleOwner_TryAcquire_def net)
qed

lemma TryAcquire_again:
  assumes wf: "lock_wf (db s) (so_key l) (so_fkey l)" and T: "clock s \<le> T" "T < e" and ttl: "0 < Milliseconds (so_ttl l)"
    and net: "acq_net env = Reply [] T" and prompt: "acq_replied env < requestExpiry (acq_started env) (so_ttl l)"
    and held: "lock_abs (db s) (so_key l) (so_fkey l) = \<lparr>holder = Some (so_id l, e), fence = n\<rparr>" and n: "0 < n \<or> \<not> so_fencing l" "n + 1 < 2 ^ 53"
  shows "\<exists>f s'. SingleOwner_TryAcquire R env l s =
      (Inr f, l\<lparr>so_expiresAt := Some (requestExpiry (acq_started env) (so_ttl l))\<rparr>, s') \<and>
    lock_abs (db s') (so_key l) (so_fkey l) = \<lparr>holder = Some (so_id l, e), fence = n\<rparr> \<and>
    clock s' = T \<and> lock_wf (db s') (so_key l) (so_fkey l)"
proof -
  let ?f = "if so_fencing l then n else 0"
  have at: "lock_abs (db (elapse R T s)) (so_key l) (so_fkey l) = \<lparr>holder = Some (so_id l, e), fence = n\<rparr>"
    using lock_elapse_refines [OF wf T(1)] held T(2) by (auto simp: lock_elapse_def)
  obtain s' where run: "Run R (Reply [] T) (single_request R l) s = (Inr (fence_reply (Some ?f)), s')"
    "lock_abs (db s') (so_key l) (so_fkey l) = \<lparr>holder = Some (so_id l, e), fence = n\<rparr>"
    "clock s' = T" "lock_wf (db s') (so_key l) (so_fkey l)"
    using Run_request [OF wf T(1) ttl] n by (auto simp: at lock_acquire_def)
  then show ?thesis using Int64_fence_reply [OF run(1)] prompt by (simp add: SingleOwner_TryAcquire_def net)
qed

lemma TryAcquire_busy:
  assumes wf: "lock_wf (db s) (so_key l) (so_fkey l)" and T: "clock s \<le> T" and ttl: "0 < Milliseconds (so_ttl l)"
    and net: "acq_net env = Reply [] T"
    and held: "holder (lock_abs (db (elapse R T s)) (so_key l) (so_fkey l)) = Some (t, e)" "t \<noteq> so_id l"
  shows "\<exists>s'. SingleOwner_TryAcquire R env l s = (Inl ErrBusy, l, s') \<and>
    lock_abs (db s') (so_key l) (so_fkey l) = lock_abs (db (elapse R T s)) (so_key l) (so_fkey l)"
proof -
  obtain s' where run: "Run R (Reply [] T) (single_request R l) s = (Inr (fence_reply None), s')"
    "lock_abs (db s') (so_key l) (so_fkey l) = lock_abs (db (elapse R T s)) (so_key l) (so_fkey l)"
    using Run_request [OF wf T ttl] held
    by (simp only: lock_acquire_def option.case prod.case if_True fst_conv snd_conv not_False_eq_True simp_thms) blast
  then show ?thesis using Int64_fence_reply [OF run(1)] by (simp add: SingleOwner_TryAcquire_def net)
qed

lemma Release_held:
  assumes wf: "lock_wf (db s) (so_key l) (so_fkey l)" and T: "clock s \<le> T" "T < e"
    and held: "lock_abs (db s) (so_key l) (so_fkey l) = \<lparr>holder = Some (so_id l, e), fence = n\<rparr>"
  shows "\<exists>s'. SingleOwner_Release R (Reply [] T) l s = (None, l\<lparr>so_expiresAt := None\<rparr>, s') \<and>
    lock_abs (db s') (so_key l) (so_fkey l) = \<lparr>holder = None, fence = n\<rparr> \<and> clock s' = T \<and> lock_wf (db s') (so_key l) (so_fkey l)"
proof -
  have at: "lock_abs (db (elapse R T s)) (so_key l) (so_fkey l) = lock_abs (db s) (so_key l) (so_fkey l)"
    using lock_elapse_refines [OF wf T(1)] held T(2) by (auto simp: lock_elapse_def)
  obtain s' where run: "Run R (Reply [] T) (single_release R (so_key l) (so_id l)) s = (Inr (bool_reply True), s')"
    "lock_abs (db s') (so_key l) (so_fkey l) = \<lparr>holder = None, fence = n\<rparr>" "clock s' = T" "lock_wf (db s') (so_key l) (so_fkey l)"
    using Run_release [OF wf T(1), of "so_id l"]
    by (simp only: at held lock_release_def lock_state.simps option.case prod.case if_True fst_conv snd_conv simp_thms) blast
  then show ?thesis using Int64_bool_reply [OF run(1)] by (simp add: SingleOwner_Release_def)
qed

text \<open>
  What the assumption excludes that no request is executed after its attempt has returned. All
  turns of \<^verbatim>\<open>Lock\<close> use one lease with one token. Let an earlier turn have returned busy to a retry of
  go-redis, and its original request, delayed in the network, be executed at \<open>T0\<close>, when the lock is
  free. The next turn then finds its own token and is granted without an extension of the lease,
  but takes its local deadline from its own start. So the lease ends on the server while the
  deadline is still ahead, and another client is granted the lock at \<open>T2\<close>: both hold it, with
  clocks that agree with the server's.
\<close>

lemma delayed_request_two_holders:
  assumes l: "so_key l' = so_key l" "so_fkey l' = so_fkey l" "so_ttl l' = so_ttl l" "so_fencing l' = so_fencing l" "so_id l' \<noteq> so_id l"
    and wf: "lock_wf (db s) (so_key l) (so_fkey l)" and ttl: "0 < Milliseconds (so_ttl l)"
    and free: "lock_abs (db (elapse R T0 s)) (so_key l) (so_fkey l) = \<lparr>holder = None, fence = n\<rparr>" and n: "0 \<le> n" "n + 2 < 2 ^ 53"
    and T: "clock s \<le> T0" "T0 \<le> T1" "T1 < T0 + Milliseconds (so_ttl l)" "T0 + Milliseconds (so_ttl l) < T2"
    and late: "T2 * Millisecond < requestExpiry (T1 * Millisecond) (so_ttl l)"
    and env: "acq_net env = Reply [] T1" "acq_started env = T1 * Millisecond" "acq_replied env = T1 * Millisecond"
      "acq_net env' = Reply [] T2" "acq_started env' = T2 * Millisecond" "acq_replied env' = T2 * Millisecond"
  shows "\<exists>r s0 f l1 s1 f' l2 s2 d d'. Run R (Reply [] T0) (single_request R l) s = (Inr r, s0) \<and>
    SingleOwner_TryAcquire R env l s0 = (Inr f, l1, s1) \<and> SingleOwner_TryAcquire R env' l' s1 = (Inr f', l2, s2) \<and>
    so_expiresAt l1 = Some d \<and> T2 * Millisecond < d \<and> so_expiresAt l2 = Some d' \<and> T2 * Millisecond < d'"
proof -
  let ?k = "so_key l" and ?f = "so_fkey l" and ?ms = "Milliseconds (so_ttl l)" and ?n = "if so_fencing l then n + 1 else n"
  obtain s0 where s0: "Run R (Reply [] T0) (single_request R l) s = (Inr (fence_reply (Some (if so_fencing l then n + 1 else 0))), s0)"
    "lock_abs (db s0) ?k ?f = \<lparr>holder = Some (so_id l, T0 + ?ms), fence = ?n\<rparr>" "clock s0 = T0" "lock_wf (db s0) ?k ?f"
    using Run_request [OF wf T(1) ttl] n by (auto simp: free lock_acquire_def Let_def split: if_splits)
  have "T1 * Millisecond \<le> T2 * Millisecond" using T(3,4) by simp
  then have prompt: "acq_replied env < requestExpiry (acq_started env) (so_ttl l)" using late env by simp
  have fresh: "0 < ?n \<or> \<not> so_fencing l" "?n + 1 < 2 ^ 53" using n by auto
  obtain f s1 where s1: "SingleOwner_TryAcquire R env l s0 =
      (Inr f, l\<lparr>so_expiresAt := Some (requestExpiry (acq_started env) (so_ttl l))\<rparr>, s1)"
    "lock_abs (db s1) ?k ?f = \<lparr>holder = Some (so_id l, T0 + ?ms), fence = ?n\<rparr>" "clock s1 = T1" "lock_wf (db s1) ?k ?f"
    using TryAcquire_again [OF s0(4) _ T(3) ttl env(1) prompt s0(2) fresh] s0(3) T(2) by auto
  have "db s1 ?k = Some (VStr (Text (so_id l)), Some (T0 + ?ms))"
    using lock_abs_held [OF s1(4)] s1(2) by simp
  then have "db (elapse R T2 s1) ?k = None" using elapse_expired [of s1 T2 ?k] s1(3) T by simp
  then have free': "lock_abs (db (elapse R T2 s1)) ?k ?f = \<lparr>holder = None, fence = ?n\<rparr>"
    using lock_elapse_refines [OF s1(4), of T2] s1(2,3) T by (auto simp: lock_elapse_def lock_abs_def)
  have shift: "requestExpiry a (so_ttl l) = a - b + requestExpiry b (so_ttl l)" for a b by (simp add: requestExpiry_def)
  have late': "T2 * Millisecond < requestExpiry (T2 * Millisecond) (so_ttl l)"
    using late T(3,4) shift [of "T2 * Millisecond" "T1 * Millisecond"] by simp
  obtain s2 where "SingleOwner_TryAcquire R env' l' s1 = (Inr (word_of_int (if so_fencing l' then ?n + 1 else 0)),
      l'\<lparr>so_expiresAt := Some (requestExpiry (acq_started env') (so_ttl l'))\<rparr>, s2)"
    using TryAcquire_free [of s1 l' T2 env' ?n] s1(3,4) l ttl env late' free' fresh(2) T by auto
  then show ?thesis using s0(1) s1(1) late late' env l by auto
qed

end

lemma Guard_Unlock_run:
  assumes "\<not> h_releaseDone (g_handle g)" and "Release ops tr (h_leas (g_handle g)) s = (e, l, s')"
  shows "\<exists>g' w'. Guard_Unlock ops tr g s w = (e, g', s', w') \<and> h_lost (g_handle g') \<and> h_leas (g_handle g') = l \<and>
    h_releaseDone (g_handle g') = (e = None \<or> err_Is e ErrLost)"
  using handle_release_run [OF assms, of w] by (auto simp: Guard_Unlock_def)


text \<open>The keys of a mutex differ, so that a fresh server is well-formed for it.\<close>

lemma newLease_simps [simp]:
  "so_id (Mutex_newLease token m) = token" "so_key (Mutex_newLease token m) = mu_key m"
  "so_fkey (Mutex_newLease token m) = mu_fkey m" "so_ttl (Mutex_newLease token m) = ttl (mu_cfg m)"
  "so_fencing (Mutex_newLease token m)"
  by (simp_all add: Mutex_newLease_def NewSingleOwner_def)

text \<open>
  C21: Locking and unlocking a free mutex, from \<^verbatim>\<open>TryLock\<close> through the lease and the scripts to
  the server and back. \<^verbatim>\<open>TryLock\<close> returns a guard with the next fence while the server records
  its token; \<^verbatim>\<open>Unlock\<close> while the grant lives returns nil, frees the lock, keeps the fence, and
  clears the holder; unlocking again, through the mutex or the guard, returns nil and changes
  nothing.
\<close>

theorem mutex_roundtrip:
  assumes server: "redis_server R clock db" and R: "rdb (mu_client m) = R"
    and wf: "lock_wf (db s) (mu_key m) (mu_fkey m)" and T: "clock s \<le> T" "T \<le> T'" "T' < T + Milliseconds (ttl (mu_cfg m))"
    and ttl: "0 < Milliseconds (ttl (mu_cfg m))"
    and net: "acq_net env = Reply [] T" and prompt: "acq_replied env < requestExpiry (acq_started env) (ttl (mu_cfg m))"
    and free: "lock_abs (db (elapse R T s)) (mu_key m) (mu_fkey m) = \<lparr>holder = None, fence = n\<rparr>" and n: "n + 1 < 2 ^ 53"
  shows "\<exists>m1 st1 s1 w1 m2 st2 s2 w2.
    Mutex_TryLock ge token env m st s w = (Inr (length st), m1, st1, s1, w1) \<and>
    Guard_FencingToken (st1 ! length st) = word_of_int (n + 1) \<and>
    lock_abs (db s1) (mu_key m) (mu_fkey m) = \<lparr>holder = Some (token, T + Milliseconds (ttl (mu_cfg m))), fence = n + 1\<rparr> \<and>
    Mutex_Unlock (Reply [] T') None m1 st1 s1 w1 = (None, m2, st2, s2, w2) \<and> mu_holder m2 = None \<and>
    lock_abs (db s2) (mu_key m) (mu_fkey m) = \<lparr>holder = None, fence = n + 1\<rparr> \<and>
    Mutex_Unlock tr None m2 st2 s3 w3 = (None, m2, st2, s3, w3) \<and>
    unlock_at (SingleOwner_ops R) tr (length st) st2 s3 w3 = (None, st2, s3, w3)"
proof -
  let ?l = "Mutex_newLease token m" and ?k = "mu_key m" and ?f = "mu_fkey m"
  let ?l1 = "?l\<lparr>so_expiresAt := Some (requestExpiry (acq_started env) (ttl (mu_cfg m)))\<rparr>"
  obtain s1 where acq: "SingleOwner_TryAcquire R env ?l s = (Inr (word_of_int (n + 1)), ?l1, s1)"
    "lock_abs (db s1) ?k ?f = \<lparr>holder = Some (token, T + Milliseconds (ttl (mu_cfg m))), fence = n + 1\<rparr>"
    "clock s1 = T" "lock_wf (db s1) ?k ?f"
    using redis_server.TryAcquire_free [OF server, of s ?l T env n] wf T(1) ttl net prompt free n by auto
  define g where "g = Mutex_guard ge m ?l1 (word_of_int (n + 1))"
  obtain w1 where lock: "Mutex_TryLock ge token env m st s w = (Inr (length st), Mutex_setHolder (length st) m, st @ [g], s1, w1)"
    using acq(1) R by (simp add: Mutex_TryLock_def Let_def g_def)
  obtain s2 where rel: "SingleOwner_Release R (Reply [] T') ?l1 s1 = (None, ?l1\<lparr>so_expiresAt := None\<rparr>, s2)"
    "lock_abs (db s2) ?k ?f = \<lparr>holder = None, fence = n + 1\<rparr>"
    using redis_server.Release_held [OF server, of s1 ?l1 T' "T + Milliseconds (ttl (mu_cfg m))" "n + 1"] acq T by auto
  obtain g2 w2 where unl: "Guard_Unlock (SingleOwner_ops R) (Reply [] T') g s1 w1 = (None, g2, s2, w2)" "h_releaseDone (g_handle g2)"
    using Guard_Unlock_run [of g "SingleOwner_ops R" "Reply [] T'" s1 None "?l1\<lparr>so_expiresAt := None\<rparr>" s2 w1] rel(1)
    by (auto simp: g_def SingleOwner_ops_def)
  let ?m1 = "Mutex_setHolder (length st) m"
  have u1: "Mutex_Unlock (Reply [] T') None ?m1 (st @ [g]) s1 w1 = (None, ?m1\<lparr>mu_holder := None\<rparr>, st @ [g2], s2, w2)"
    using unl(1) R by (simp add: Mutex_Unlock_def unlock_holder_def unlock_at_def)
  have u2: "Mutex_Unlock tr None (?m1\<lparr>mu_holder := None\<rparr>) (st @ [g2]) s3 w3 = (None, ?m1\<lparr>mu_holder := None\<rparr>, st @ [g2], s3, w3)"
    by (simp add: Mutex_Unlock_def unlock_holder_def)
  have u3: "unlock_at (SingleOwner_ops R) tr (length st) (st @ [g2]) s3 w3 = (None, st @ [g2], s3, w3)"
    using unl(2) by (simp add: unlock_at_def Guard_Unlock_def handle_release_def)
  have "Guard_FencingToken ((st @ [g]) ! length st) = word_of_int (n + 1)" by (simp add: Guard_FencingToken_def g_def)
  with lock acq(2) u1 rel(2) u2 u3 show ?thesis
    by (intro exI [of _ ?m1] exI [of _ "st @ [g]"] exI [of _ s1] exI [of _ w1] exI [of _ "?m1\<lparr>mu_holder := None\<rparr>"]
        exI [of _ "st @ [g2]"] exI [of _ s2] exI [of _ w2]) simp
qed

text \<open>
  \<^verbatim>\<open>TryLock\<close> on a mutex that another token holds returns \<^verbatim>\<open>ErrNotAcquired\<close>, makes no guard,
  and leaves the lock with its holder, deadline and fence as it was.
\<close>

theorem trylock_busy:
  assumes server: "redis_server R clock db" and R: "rdb (mu_client m) = R"
    and wf: "lock_wf (db s) (mu_key m) (mu_fkey m)" and T: "clock s \<le> T" and ttl: "0 < Milliseconds (ttl (mu_cfg m))"
    and net: "acq_net env = Reply [] T"
    and held: "holder (lock_abs (db (elapse R T s)) (mu_key m) (mu_fkey m)) = Some (t, e)" "t \<noteq> token"
  shows "\<exists>s' w'. Mutex_TryLock ge token env m st s w = (Inl ErrNotAcquired, m, st, s', w') \<and>
    lock_abs (db s') (mu_key m) (mu_fkey m) = lock_abs (db (elapse R T s)) (mu_key m) (mu_fkey m)"
proof -
  obtain s' where "SingleOwner_TryAcquire R env (Mutex_newLease token m) s = (Inl ErrBusy, Mutex_newLease token m, s')"
    "lock_abs (db s') (mu_key m) (mu_fkey m) = lock_abs (db (elapse R T s)) (mu_key m) (mu_fkey m)"
    using redis_server.TryAcquire_busy [OF server, of s "Mutex_newLease token m" T env t e] wf T ttl net held by auto
  then show ?thesis using R by (simp add: Mutex_TryLock_def)
qed

text \<open>
  C29: \<^verbatim>\<open>Once\<close> gives the lock back on every path. When \<open>fn\<close> has run, its result is returned
  whatever it is (a value, an error or a panic), and the guard of the call has been released:
  its context is cancelled and the release request was made, whatever came of it, unless \<open>fn\<close>
  has completed the release itself. When the lock was not acquired, \<open>fn\<close> did not run.
\<close>

theorem once_unlocks:
  assumes run: "Once ge token turns tr fn m st s w = (Some r, m', st', s', w')"
    and grows: "\<And>m1 st1 s1 w1. length st1 \<le> length (fst (snd (snd (fn m1 st1 s1 w1))))"
  shows "case r of
      Inl e \<Rightarrow> fst (Mutex_Lock ge token turns m st s w) = Some (Inl e) \<and> st' = st
    | Inr x \<Rightarrow> \<exists>m1 st1 s1 w1 st2 s2 w2 g. Mutex_Lock ge token turns m st s w = (Some (Inr (length st)), m1, st1, s1, w1) \<and>
        fn m1 st1 s1 w1 = (x, m', st2, s2, w2) \<and> g = g_handle (st2 ! length st) \<and>
        (if h_releaseDone g then st' = st2 \<and> s' = s2
         else h_lost (g_handle (st' ! length st)) \<and>
           (\<exists>e. SingleOwner_Release (rdb (mu_client m)) tr (h_leas g) s2 = (e, h_leas (g_handle (st' ! length st)), s')))"
proof -
  obtain q m1 st1 s1 w1 where lock: "Mutex_Lock ge token turns m st s w = (q, m1, st1, s1, w1)" by (metis prod_cases5)
  obtain out l sl ds where loop: "acquire_loop (SingleOwner_TryAcquire (rdb (mu_client m))) (ge_impl ge) (retry (mu_cfg m)) 0 turns
      (Mutex_newLease token m) s = (out, l, sl, ds)" by (metis prod_cases4)
  obtain finish w0 where tr: "t_Start (tracer (mu_client m)) ''distsync.mutex.lock'' w = (finish, w0)" by fastforce
  show ?thesis
  proof (cases out)
    case (Granted f a)
    let ?p = "length st" and ?ops = "SingleOwner_ops (rdb (mu_client m))"
    have L: "q = Some (Inr ?p)" "length st1 = Suc ?p"
      using lock loop tr Granted by (auto simp: Mutex_Lock_def)
    obtain x m2 st2 s2 w2 where fn: "fn m1 st1 s1 w1 = (x, m2, st2, s2, w2)" by (metis prod_cases5)
    have p: "?p < length st2" using grows [of st1 m1 s1 w1] fn L by simp
    obtain e l2 s3 where rel: "SingleOwner_Release (rdb (mu_client m)) tr (h_leas (g_handle (st2 ! ?p))) s2 = (e, l2, s3)" by (metis prod_cases3)
    show ?thesis
    proof (cases "h_releaseDone (g_handle (st2 ! ?p))")
      case True
      then have "r = Inr x" "st' = st2" "s' = s2" "m' = m2" using run lock L fn
        by (auto simp: Once_def unlock_at_def Guard_Unlock_def handle_release_def)
      then show ?thesis using lock L fn True by auto
    next
      case False
      obtain g2 w3 where unl: "Guard_Unlock ?ops tr (st2 ! ?p) s2 w2 = (e, g2, s3, w3)" "h_lost (g_handle g2)" "h_leas (g_handle g2) = l2"
        using Guard_Unlock_run [OF False, of ?ops tr s2 e l2 s3 w2] rel by (auto simp: SingleOwner_ops_def)
      have "r = Inr x" "st' = st2[?p := g2]" "s' = s3" "m' = m2"
        using run lock L fn unl(1) by (auto simp: Once_def unlock_at_def)
      then show ?thesis using lock L fn rel unl p False by auto
    qed
  qed (use run lock loop tr in \<open>auto simp: Once_def Mutex_Lock_def Let_def\<close>)
qed

section \<open>Witnesses\<close>

lemma fresh_lock:
  assumes "k \<noteq> f"
  shows "lock_wf (mem_db empty_mem) k f" "lock_abs (mem_db (elapse mem_redis T empty_mem)) k f = \<lparr>holder = None, fence = 0\<rparr>"
  using assms by (simp_all add: empty_mem_db mem_redis_def lock_wf_def lock_abs_def ttlv_def counter_def)

definition wit_mutex :: "(mem, unit) mutex" where
  "wit_mutex = Client_Mutex (New mem_redis []) ''order'' []"

lemma wit_mutex_simps [simp]:
  "rdb (mu_client wit_mutex) = mem_redis" "mu_key wit_mutex = Key ''order''" "mu_fkey wit_mutex = Derived (Key ''order'') ''fencing''"
  "ttl (mu_cfg wit_mutex) = 10000000000" "mu_name wit_mutex = ''order''" "tracer (mu_client wit_mutex) = noopTracer"
  by (simp_all add: wit_mutex_def Client_Mutex_def Let_def New_def resolved_def)

definition wit_genv :: guard_env where
  "wit_genv = \<lparr>ge_impl = \<lambda>_. 0, ge_rand = 1 / 2, ge_now = 6 * Millisecond\<rparr>"

theorem mutex_roundtrip_witness:
  "\<exists>m1 st1 s1 m2 st2 s2. Mutex_TryLock wit_genv ''a'' wit_env wit_mutex [] empty_mem () = (Inr 0, m1, st1, s1, ()) \<and>
     Mutex_Unlock (Reply [] 500) None m1 st1 s1 () = (None, m2, st2, s2, ()) \<and>
     lock_abs (mem_db s2) (Key ''order'') (Derived (Key ''order'') ''fencing'') = \<lparr>holder = None, fence = 1\<rparr>"
proof -
  have "acq_net wit_env = Reply [] 3" "acq_replied wit_env < requestExpiry (acq_started wit_env) 10000000000"
    by (simp_all add: wit_env_def requestExpiry_def)
  then show ?thesis
    using mutex_roundtrip [OF mem_server, of wit_mutex empty_mem 3 500 wit_env 0 wit_genv "''a''" "[]" "()" "Reply [] 600" empty_mem "()"]
      fresh_lock [of "Key ''order''" "Derived (Key ''order'') ''fencing''"]
    by (simp add: empty_lock(3) Milliseconds_nonneg) blast
qed

definition wit_taken :: mem where
  "wit_taken = \<lparr>mclock = 0, mdata = [Key ''order'' \<mapsto> (VStr (Text ''b''), Some 5000)]\<rparr>"

lemma wit_taken_db: "mem_db wit_taken = [Key ''order'' \<mapsto> (VStr (Text ''b''), Some 5000)]"
  "mem_db (mem_elapse 3 wit_taken) = [Key ''order'' \<mapsto> (VStr (Text ''b''), Some 5000)]"
  by (simp_all add: mem_db_elapse fun_eq_iff mem_db_def wit_taken_def)

theorem trylock_busy_witness:
  "\<exists>s'. Mutex_TryLock wit_genv ''a'' wit_env wit_mutex [] wit_taken () = (Inl ErrNotAcquired, wit_mutex, [], s', ())"
proof -
  have wf: "lock_wf (mem_db wit_taken) (Key ''order'') (Derived (Key ''order'') ''fencing'')"
    by (simp add: wit_taken_db lock_wf_def ttlv_def counter_def)
  have held: "holder (lock_abs (mem_db (elapse mem_redis 3 wit_taken)) (Key ''order'') (Derived (Key ''order'') ''fencing'')) = Some (''b'', 5000)"
    by (simp add: mem_redis_def wit_taken_db lock_abs_def)
  show ?thesis
    using trylock_busy [OF mem_server, of wit_mutex wit_taken 3 wit_env "''b''" 5000 "''a''" wit_genv "[]" "()"] wf held
    by (auto simp: wit_env_def Milliseconds_nonneg wit_taken_def)
qed

text \<open>A turn that takes the free lock.\<close>

definition wit_turn :: turn where
  "wit_turn = \<lparr>tn_env = wit_env, tn_ctx = None, tn_select = None, tn_rand = 0, tn_since = 0, tn_dequeue = (Fail [] Canceled, Fail [] Canceled)\<rparr>"

lemma wit_lock:
  "\<exists>m' st' s'. Mutex_Lock wit_genv ''a'' [wit_turn] wit_mutex [] empty_mem () = (Some (Inr 0), m', st', s', ())"
proof -
  let ?l = "Mutex_newLease ''a'' wit_mutex"
  obtain s' l' where "SingleOwner_TryAcquire mem_redis wit_env ?l empty_mem = (Inr (word_of_int (0 + 1)), l', s')"
    using mem.TryAcquire_free [of empty_mem ?l 3 wit_env 0] fresh_lock [of "Key ''order''" "Derived (Key ''order'') ''fencing''"]
    by (auto simp: empty_lock(3) Milliseconds_nonneg wit_env_def requestExpiry_def)
  then show ?thesis by (simp add: Mutex_Lock_def noopTracer_def wit_turn_def)
qed

theorem lock_outcome_witness:
  "\<exists>m' g s'. Mutex_Lock wit_genv ''a'' [wit_turn] wit_mutex [] empty_mem () = (Some (Inr 0), m', [g], s', ()) \<and>
     mu_holder m' = Some 0 \<and> Guard_Token (SingleOwner_ops mem_redis) g = ''a'' \<and>
     (\<exists>l s0 l'. SingleOwner_TryAcquire mem_redis wit_env l s0 = (Inr (Guard_FencingToken g), l', s'))"
proof -
  obtain m' st' s' where run: "Mutex_Lock wit_genv ''a'' [wit_turn] wit_mutex [] empty_mem () = (Some (Inr 0), m', st', s', ())"
    using wit_lock by blast
  have "ctx_errors [wit_turn]" by (simp add: ctx_errors_def wit_turn_def)
  from lock_outcome [OF run this] run show ?thesis by (auto simp: wit_turn_def)
qed

text \<open>A callback that panics, with a release that fails.\<close>

theorem once_unlocks_witness:
  "\<exists>m' st' s'. Once wit_genv ''a'' [wit_turn] (Fail [] Canceled) (\<lambda>m st s w. (''panic'', m, st, s, w)) wit_mutex [] empty_mem () =
     (Some (Inr ''panic''), m', st', s', ()) \<and> h_lost (g_handle (st' ! 0))"
proof -
  obtain m1 st1 s1 where lock: "Mutex_Lock wit_genv ''a'' [wit_turn] wit_mutex [] empty_mem () = (Some (Inr 0), m1, st1, s1, ())"
    and fresh: "\<not> h_releaseDone (g_handle (st1 ! 0))"
    using wit_lock by (auto simp: Mutex_Lock_def Let_def split: prod.splits outcome.splits)
  obtain e st2 s2 w2 where "unlock_at (SingleOwner_ops mem_redis) (Fail [] Canceled) 0 st1 s1 () = (e, st2, s2, w2)"
    by (metis prod_cases4)
  then obtain r m' st' s' where run: "Once wit_genv ''a'' [wit_turn] (Fail [] Canceled) (\<lambda>m st s w. (''panic'', m, st, s, w)) wit_mutex [] empty_mem () =
      (Some (Inr r), m', st', s', ())"
    using lock by (simp add: Once_def)
  from once_unlocks [OF run] run lock fresh show ?thesis by auto
qed

end
