(* ===== verification/Rwmutex.thy ===== *)
theory Rwmutex
  imports Mutex Rwprops
begin

text \<open>
  \<^verbatim>\<open>rwmutex.go\<close>: the read/write mutex over the writer and the reader lease. A caller that stops
  waiting leaves the queue with the two commands of \<^verbatim>\<open>Dequeue\<close>, whose network is part of the
  turn. \<open>fuel\<close> bounds the purge loop of the scripts.
\<close>

record ('s, 'w) rwmutex =
  rm_client :: "('s, 'w) client"
  rm_name :: string
  rm_cfg :: config
  rm_keys :: rw_keys
  rm_writeHolder :: "nat option"
  rm_readHolder :: "nat option"

definition Client_RWMutex :: "('s, 'w) client \<Rightarrow> string \<Rightarrow> config_option list \<Rightarrow> ('s, 'w) rwmutex" where
  "Client_RWMutex c name opts =
     (let cfg = resolved c opts; key = Key name
      in \<lparr>rm_client = c, rm_name = name, rm_cfg = cfg,
          rm_keys = \<lparr>Writer = Derived key ''writer'', Readers = Derived key ''readers'', Fencing = Derived key ''fencing'',
            Waiters = Derived key ''waiters'', WaiterTS = Derived key ''waiter-ts'', Seq = Derived key ''seq''\<rparr>,
          rm_writeHolder = None, rm_readHolder = None\<rparr>)"

definition RWMutex_Name :: "('s, 'w) rwmutex \<Rightarrow> string" where "RWMutex_Name m = rm_name m"

text \<open>\<open>ops\<close> is the method table of the lease the guard is for.\<close>

definition RWMutex_guard ::
  "(rw_lease, 's) lease_ops \<Rightarrow> guard_env \<Rightarrow> ('s, 'w) rwmutex \<Rightarrow> rw_lease \<Rightarrow> 64 word \<Rightarrow> (rw_lease, 'w) guard" where
  "RWMutex_guard ops ge m l f =
     \<lparr>g_handle = start_background ops (ge_impl ge) (ge_rand ge) (ge_now ge) (rm_cfg m)
        (newHandle (rm_name m) ''rwmutex'' (metrics (rm_client m)) (tracer (rm_client m)) l),
      g_fencing = f\<rparr>"

definition RWMutex_setWriteHolder :: "nat \<Rightarrow> ('s, 'w) rwmutex \<Rightarrow> ('s, 'w) rwmutex" where
  "RWMutex_setWriteHolder p m = m\<lparr>rm_writeHolder := Some p\<rparr>"

definition RWMutex_setReadHolder :: "nat \<Rightarrow> ('s, 'w) rwmutex \<Rightarrow> ('s, 'w) rwmutex" where
  "RWMutex_setReadHolder p m = m\<lparr>rm_readHolder := Some p\<rparr>"

section \<open>The write side\<close>

definition RWMutex_Lock ::
  "nat \<Rightarrow> guard_env \<Rightarrow> string \<Rightarrow> turn list \<Rightarrow> ('s, 'w) rwmutex \<Rightarrow> (rw_lease, 'w) store \<Rightarrow> 's \<Rightarrow> 'w \<Rightarrow>
     (goerr + nat) option \<times> ('s, 'w) rwmutex \<times> (rw_lease, 'w) store \<times> 's \<times> 'w" where
  "RWMutex_Lock fuel ge token turns m st s w =
     (let c = rm_client m; (finish, w1) = t_Start (tracer c) ''distsync.rwmutex.lock'' w in
      case acquire_loop (RWWriter_TryAcquire (rdb c) fuel) (ge_impl ge) (retry (rm_cfg m)) 0 turns
             (NewRWWriter token (rm_keys m) (ttl (rm_cfg m))) s of
        (Waiting, l, s', _) \<Rightarrow> (None, m, st, s', w1)
      | (Granted f a, l, s', _) \<Rightarrow>
          (Some (Inr (length st)), RWMutex_setWriteHolder (length st) m,
           st @ [RWMutex_guard (RWWriter_ops (rdb c) fuel) ge m l f], s',
           finish None (m_Acquire (metrics c) ''rwmutex'' (rm_name m) True (tn_since a) w1))
      | (Failed e a, l, s', _) \<Rightarrow>
          let err = errorf ''write lock'' (rm_name m) e
          in (Some (Inl err), m, st, s', finish (Some err) (m_Acquire (metrics c) ''rwmutex'' (rm_name m) False (tn_since a) w1))
      | (GaveUp e a, l, s', _) \<Rightarrow>
          let s'' = RWWriter_Dequeue (rdb c) (fst (tn_dequeue a)) (snd (tn_dequeue a)) l s';
              err = errorf ''write lock'' (rm_name m) e
          in (Some (Inl err), m, st, s'', finish (Some err) (m_Acquire (metrics c) ''rwmutex'' (rm_name m) False (tn_since a) w1)))"

definition RWMutex_TryLock ::
  "nat \<Rightarrow> guard_env \<Rightarrow> string \<Rightarrow> acq_env \<Rightarrow> transport \<times> transport \<Rightarrow> ('s, 'w) rwmutex \<Rightarrow> (rw_lease, 'w) store \<Rightarrow> 's \<Rightarrow> 'w \<Rightarrow>
     (goerr + nat) \<times> ('s, 'w) rwmutex \<times> (rw_lease, 'w) store \<times> 's \<times> 'w" where
  "RWMutex_TryLock fuel ge token env deq m st s w =
     (let c = rm_client m in
      case RWWriter_TryAcquire (rdb c) fuel env (NewRWWriter token (rm_keys m) (ttl (rm_cfg m))) s of
        (Inl e, l, s') \<Rightarrow>
          if errors_Is e ErrBusy
          then (Inl ErrNotAcquired, m, st, RWWriter_Dequeue (rdb c) (fst deq) (snd deq) l s',
                m_Acquire (metrics c) ''rwmutex'' (rm_name m) False 0 w)
          else (Inl e, m, st, s', w)
      | (Inr f, l, s') \<Rightarrow>
          (Inr (length st), RWMutex_setWriteHolder (length st) m,
           st @ [RWMutex_guard (RWWriter_ops (rdb c) fuel) ge m l f], s',
           m_Acquire (metrics c) ''rwmutex'' (rm_name m) True 0 w))"

definition RWMutex_Unlock ::
  "nat \<Rightarrow> transport \<Rightarrow> nat option option \<Rightarrow> ('s, 'w) rwmutex \<Rightarrow> (rw_lease, 'w) store \<Rightarrow> 's \<Rightarrow> 'w \<Rightarrow>
     goerr option \<times> ('s, 'w) rwmutex \<times> (rw_lease, 'w) store \<times> 's \<times> 'w" where
  "RWMutex_Unlock fuel tr meanwhile m st s w =
     (case unlock_holder (RWWriter_ops (rdb (rm_client m)) fuel) tr meanwhile (rm_writeHolder m) st s w of
        (err, hp, st', s', w') \<Rightarrow> (err, m\<lparr>rm_writeHolder := hp\<rparr>, st', s', w'))"

section \<open>The read side\<close>

definition RWMutex_RLock ::
  "nat \<Rightarrow> guard_env \<Rightarrow> string \<Rightarrow> turn list \<Rightarrow> ('s, 'w) rwmutex \<Rightarrow> (rw_lease, 'w) store \<Rightarrow> 's \<Rightarrow> 'w \<Rightarrow>
     (goerr + nat) option \<times> ('s, 'w) rwmutex \<times> (rw_lease, 'w) store \<times> 's \<times> 'w" where
  "RWMutex_RLock fuel ge token turns m st s w =
     (let c = rm_client m; (finish, w1) = t_Start (tracer c) ''distsync.rwmutex.rlock'' w in
      case acquire_loop (plain_try (RWReader_Acquire (rdb c) fuel)) (ge_impl ge) (retry (rm_cfg m)) 0 turns
             (NewRWReader token (rm_keys m) (ttl (rm_cfg m))) s of
        (Waiting, l, s', _) \<Rightarrow> (None, m, st, s', w1)
      | (Granted _ a, l, s', _) \<Rightarrow>
          (Some (Inr (length st)), RWMutex_setReadHolder (length st) m,
           st @ [RWMutex_guard (RWReader_ops (rdb c) fuel) ge m l 0], s',
           finish None (m_Acquire (metrics c) ''rwmutex-read'' (rm_name m) True (tn_since a) w1))
      | (Failed e a, l, s', _) \<Rightarrow>
          let err = errorf ''read lock'' (rm_name m) e
          in (Some (Inl err), m, st, s', finish (Some err) (m_Acquire (metrics c) ''rwmutex-read'' (rm_name m) False (tn_since a) w1))
      | (GaveUp e a, l, s', _) \<Rightarrow>
          let s'' = RWReader_Dequeue (rdb c) (fst (tn_dequeue a)) (snd (tn_dequeue a)) l s';
              err = errorf ''read lock'' (rm_name m) e
          in (Some (Inl err), m, st, s'', finish (Some err) (m_Acquire (metrics c) ''rwmutex-read'' (rm_name m) False (tn_since a) w1)))"

definition RWMutex_TryRLock ::
  "nat \<Rightarrow> guard_env \<Rightarrow> string \<Rightarrow> acq_env \<Rightarrow> transport \<times> transport \<Rightarrow> ('s, 'w) rwmutex \<Rightarrow> (rw_lease, 'w) store \<Rightarrow> 's \<Rightarrow> 'w \<Rightarrow>
     (goerr + nat) \<times> ('s, 'w) rwmutex \<times> (rw_lease, 'w) store \<times> 's \<times> 'w" where
  "RWMutex_TryRLock fuel ge token env deq m st s w =
     (let c = rm_client m in
      case RWReader_Acquire (rdb c) fuel env (NewRWReader token (rm_keys m) (ttl (rm_cfg m))) s of
        (Some e, l, s') \<Rightarrow>
          if errors_Is e ErrBusy
          then (Inl ErrNotAcquired, m, st, RWReader_Dequeue (rdb c) (fst deq) (snd deq) l s',
                m_Acquire (metrics c) ''rwmutex-read'' (rm_name m) False 0 w)
          else (Inl e, m, st, s', w)
      | (None, l, s') \<Rightarrow>
          (Inr (length st), RWMutex_setReadHolder (length st) m,
           st @ [RWMutex_guard (RWReader_ops (rdb c) fuel) ge m l 0], s',
           m_Acquire (metrics c) ''rwmutex-read'' (rm_name m) True 0 w))"

definition RWMutex_RUnlock ::
  "nat \<Rightarrow> transport \<Rightarrow> nat option option \<Rightarrow> ('s, 'w) rwmutex \<Rightarrow> (rw_lease, 'w) store \<Rightarrow> 's \<Rightarrow> 'w \<Rightarrow>
     goerr option \<times> ('s, 'w) rwmutex \<times> (rw_lease, 'w) store \<times> 's \<times> 'w" where
  "RWMutex_RUnlock fuel tr meanwhile m st s w =
     (case unlock_holder (RWReader_ops (rdb (rm_client m)) fuel) tr meanwhile (rm_readHolder m) st s w of
        (err, hp, st', s', w') \<Rightarrow> (err, m\<lparr>rm_readHolder := hp\<rparr>, st', s', w'))"

section \<open>Leaving the queue\<close>

lemma Client_RWMutex_distinct: "rw_distinct (rm_keys (Client_RWMutex c name opts))"
  by (simp add: rw_distinct_def Client_RWMutex_def Let_def)

context redis_server
begin

text \<open>
  \<^verbatim>\<open>Dequeue\<close> with both commands delivered: the member is gone from queue and heartbeats. While the
  queue does not expire in between, that is all that changes in it.
\<close>

lemma dequeue_exec:
  assumes K: "rw_distinct K" and st: "shows_rw (db s) K st" and T: "clock s \<le> T1" "T1 \<le> T2"
  shows "\<exists>st'. shows_rw (db (dequeue R K m (Reply [] T1) (Reply [] T2) s)) K st' \<and> wfence st' = wfence st \<and>
    map_of (queue st') m = None \<and> map_of (beats st') m = None \<and>
    (\<forall>e. qexp st = Some e \<and> T2 < e \<longrightarrow> queue st' = zrem m (queue st) \<and> beats st' = AList.delete m (beats st) \<and> seqn st' = seqn st)"
proof -
  obtain st1 where st1: "shows_rw (db (elapse R T1 s)) K st1" "rw_elapsed T1 st st1"
    using rw_elapse_refines [OF st T(1)] by blast
  let ?s2 = "after R (ZREM (Waiters K) m) (elapse R T1 s)" and ?st2 = "st1\<lparr>queue := zrem m (queue st1)\<rparr>"
  obtain r1 where z: "redis_call R (ZREM (Waiters K) m) (elapse R T1 s) = (Inr r1, ?s2)" "shows_rw (db ?s2) K ?st2"
    using zrem_waiter_exec [OF K st1(1)] by blast
  have c: "clock ?s2 = T1" using clock_elapse [OF T(1)] by (simp add: clock_after)
  then obtain st3 where st3: "shows_rw (db (elapse R T2 ?s2)) K st3" "rw_elapsed T2 ?st2 st3"
    using rw_elapse_refines [OF z(2), of T2] T(2) by auto
  let ?s4 = "after R (HDEL (WaiterTS K) m) (elapse R T2 ?s2)" and ?st4 = "st3\<lparr>beats := AList.delete m (beats st3)\<rparr>"
  obtain r2 where h: "redis_call R (HDEL (WaiterTS K) m) (elapse R T2 ?s2) = (Inr r2, ?s4)" "shows_rw (db ?s4) K ?st4"
    using hdel_waiter_exec [OF K st3(1)] by blast
  have "dequeue R K m (Reply [] T1) (Reply [] T2) s = ?s4" using z(1) h(1) by (simp add: dequeue_def)
  moreover have "queue st3 = zrem m (queue st1) \<or> queue st3 = []" using st3(2) by (auto simp: rw_elapsed_def)
  then have "map_of (queue st3) m = None" by (auto simp: map_of_zrem)
  moreover have "wfence st3 = wfence st" using st1(2) st3(2) by (auto simp: rw_elapsed_def)
  moreover have "queue st3 = zrem m (queue st) \<and> beats st3 = beats st \<and> seqn st3 = seqn st" if "qexp st = Some e" "T2 < e" for e
    using st1(2) st3(2) that T(2) by (auto simp: rw_elapsed_def)
  ultimately show ?thesis
    using h(2) by (intro exI [of _ ?st4]) (auto simp: map_of_AList_delete)
qed

text \<open>A request of a writer that the server executes and refuses, with its reply and without.\<close>

lemma refused_request:
  assumes K: "rw_distinct K" and l: "rw_id l = token" "rw_on l = K" "rw_ttl l = lt"
    and now: "now = UnixMilli (acq_started env)" and timeout: "timeout = waiterTimeout lt"
    and T: "clock s \<le> T" and rst: "shows_rw (db (elapse R T s)) K rst" "rw_ok rst" "rw_room rst"
    and t: "0 < Milliseconds lt" "0 < timeout" and fuel: "Suc (length (queue rst)) < fuel"
    and refused: "fst (rw_write token (Milliseconds lt) now timeout T rst) = None"
  shows "\<exists>s'. clock s' = T \<and> shows_rw (db s') K (snd (rw_write token (Milliseconds lt) now timeout T rst)) \<and>
    (acq_net env = Reply [] T \<longrightarrow> RWWriter_TryAcquire R fuel env l s = (Inl ErrBusy, l, s')) \<and>
    (\<forall>e. acq_net env = Fail [T] e \<longrightarrow> RWWriter_TryAcquire R fuel env l s = (Inl e, l, s'))"
proof -
  have c: "clock (elapse R T s) = T" using clock_elapse [OF T] .
  obtain s' where "rw_write_lock R fuel K token (Milliseconds lt) now timeout (elapse R T s) = (Inr SNil, s')"
    "clock s' = T" "shows_rw (db s') K (snd (rw_write token (Milliseconds lt) now timeout T rst))"
    using rw_write_refines [OF K rst t fuel, of token now] refused c by (auto simp: fence_reply_def)
  then show ?thesis using l by (intro exI [of _ s']) (simp add: RWWriter_TryAcquire_def write_request_def now timeout)
qed

end

text \<open>The heartbeats after a purge: those of the purged heads are gone.\<close>

lemma purged_beats:
  "distinct (map fst z) \<Longrightarrow> map_of (snd (purged t z h)) x =
     (if x \<in> fst ` set (takeWhile (\<lambda>p. stale h t (fst p)) z) then None else map_of h x)"
proof (induction t z h rule: purged.induct)
  case (2 t p z h)
  have "stale (AList.delete (fst p) h) t (fst q) = stale h t (fst q)" if "q \<in> set z" for q
  proof -
    have "fst q \<noteq> fst p" using "2.prems" that by (metis distinct.simps(2) imageI list.set_map list.simps(9))
    then show ?thesis by (simp add: stale_def map_of_AList_delete)
  qed
  then have "takeWhile (\<lambda>q. stale (AList.delete (fst p) h) t (fst q)) z = takeWhile (\<lambda>q. stale h t (fst q)) z"
    by (intro takeWhile_cong) auto
  with 2 show ?case by (cases "stale h t (fst p)") (auto simp: map_of_AList_delete)
qed simp

text \<open>What a refused newcomer leaves behind when its own member is taken out again.\<close>

lemma refused_newcomer:
  assumes ok: "rw_ok st" "0 < timeout" and other: "map_option fst (wr st) \<noteq> Some token"
    and new: "map_of (queue st) (''W:'' @ token) = None"
    and refused: "fst (rw_write token lt now timeout T st) = None" and st': "st' = snd (rw_write token lt now timeout T st)"
  shows "zrem (''W:'' @ token) (queue st') = dropWhile (\<lambda>p. stale (beats st) (now - timeout) (fst p)) (queue st)"
    and "map_of (AList.delete (''W:'' @ token) (beats st')) x =
      (if x = ''W:'' @ token \<or> x \<in> fst ` set (takeWhile (\<lambda>p. stale (beats st) (now - timeout) (fst p)) (queue st)) then None
       else map_of (beats st) x)"
    and "seqn st' = seqn st + 1" "wfence st' = wfence st" "qexp st' = Some (T + timeout)"
proof -
  define m where "m = ''W:'' @ token"
  let ?j = "joined m now (T + timeout) st" and ?P = "\<lambda>p. stale (beats st) (now - timeout) (fst p)"
  let ?Q = "\<lambda>p. fst p \<noteq> m \<and> ?P p"
  have new': "p \<in> set (queue st) \<Longrightarrow> fst p \<noteq> m" for p using new by (metis m_def image_eqI map_of_eq_None_iff)
  have frame: "queue st' = queue (purge (now - timeout) ?j)" "beats st' = beats (purge (now - timeout) ?j)"
    "seqn st' = seqn ?j" "wfence st' = wfence st" "qexp st' = Some (T + timeout)"
    using other refused unfolding st' rw_write_def Let_def m_def by (auto simp: purge_def joined_def Let_def split: if_splits)
  have eq: "dropWhile ?Q (queue st) = dropWhile ?P (queue st)" "takeWhile ?Q (queue st) = takeWhile ?P (queue st)"
    using new' by (auto intro!: dropWhile_cong takeWhile_cong)
  have "queue st' = dropWhile ?Q (queue st @ [(m, seqn st + 1)])"
    using queue_attempt [OF ok, of now m "T + timeout"] new by (simp add: frame waiting_def m_def)
  also have "\<dots> = dropWhile ?P (queue st) @ [(m, seqn st + 1)]" by (simp add: dropWhile_append3 eq)
  finally show "zrem (''W:'' @ token) (queue st') = dropWhile ?P (queue st)"
    using new' by (auto simp: zrem_def m_def intro!: filter_True dest: set_dropWhileD)
  have j: "queue ?j = queue st @ [(m, seqn st + 1)]" using joined_queue [OF ok(1), of m now "T + timeout"] new by (simp add: m_def)
  have "distinct (map fst (queue ?j))" using rw_ok_joined [OF ok(1), of m now "T + timeout"] by (simp add: rw_ok_def zwf_def)
  from purged_beats [OF this, of "now - timeout" "beats ?j" x]
  have "map_of (beats st') x = (if x \<in> fst ` set (takeWhile ?Q (queue ?j)) then None else map_of (beats ?j) x)"
    unfolding frame stale_joined [OF ok(2)] by (simp add: purge_def)
  moreover have "takeWhile ?Q (queue ?j) = takeWhile ?P (queue st)" unfolding j by (simp add: takeWhile_tail eq)
  ultimately have "map_of (beats st') x = (if x \<in> fst ` set (takeWhile ?P (queue st)) then None else map_of (beats ?j) x)" by simp
  then show "map_of (AList.delete (''W:'' @ token) (beats st')) x =
      (if x = ''W:'' @ token \<or> x \<in> fst ` set (takeWhile ?P (queue st)) then None else map_of (beats st) x)"
    unfolding m_def [symmetric] map_of_AList_delete beats_joined map_of_AList_update by simp
  show "seqn st' = seqn st + 1" "wfence st' = wfence st" "qexp st' = Some (T + timeout)"
    using frame new by (simp_all add: joined_def Let_def m_def)
qed

lemma waiting_member:
  assumes "rw_ok st" "0 < timeout"
  shows "map_of (waiting m now timeout st) m = Some (arrival m st)"
proof -
  have "zwf (waiting m now timeout st)"
    using rw_ok_purge [OF rw_ok_joined [OF assms(1), of m now 0], of "now - timeout"] queue_attempt [OF assms, of now m 0]
    by (simp add: rw_ok_def)
  then show ?thesis using waiting_mem [OF assms(1), of m now timeout] by (simp add: zwf_map_of)
qed

text \<open>
  C32: \<^verbatim>\<open>TryLock\<close> never waits, so it must not stay in the queue. When the lock refuses a caller with
  a new token and the two commands of \<^verbatim>\<open>Dequeue\<close> arrive before the queue expires, \<^verbatim>\<open>TryLock\<close> returns
  \<^verbatim>\<open>ErrNotAcquired\<close> without a guard and the queue is exactly what it was, in its order and with its
  arrival numbers, but for the waiters at its head whose heartbeat had timed out, which the
  attempt has purged. The other heartbeats are unchanged. What remains of the attempt is that
  one arrival number has been used up; the fence has not.
\<close>

theorem trylock_leaves_queue:
  assumes server: "redis_server R clock db" and R: "rdb (rm_client m) = R" and K: "rw_distinct (rm_keys m)"
    and net: "acq_net env = Reply [] T" and now: "now = UnixMilli (acq_started env)" and timeout: "timeout = waiterTimeout (ttl (rm_cfg m))"
    and T: "clock s \<le> T" "T \<le> T1" "T1 \<le> T2" "T2 < T + timeout"
    and rst: "shows_rw (db (elapse R T s)) (rm_keys m) rst" "rw_ok rst" "rw_room rst"
    and t: "0 < Milliseconds (ttl (rm_cfg m))" "0 < timeout" and fuel: "Suc (length (queue rst)) < fuel"
    and new: "map_option fst (wr rst) \<noteq> Some token" "map_of (queue rst) (''W:'' @ token) = None"
    and refused: "fst (rw_write token (Milliseconds (ttl (rm_cfg m))) now timeout T rst) = None"
  shows "\<exists>s' w'. RWMutex_TryLock fuel ge token env (Reply [] T1, Reply [] T2) m st s w = (Inl ErrNotAcquired, m, st, s', w') \<and>
    zsetv (db s') (Waiters (rm_keys m)) = dropWhile (\<lambda>p. stale (beats rst) (now - timeout) (fst p)) (queue rst) \<and>
    (\<forall>x. map_of (hashv (db s') (WaiterTS (rm_keys m))) x =
      (if x = ''W:'' @ token \<or> x \<in> fst ` set (takeWhile (\<lambda>p. stale (beats rst) (now - timeout) (fst p)) (queue rst)) then None
       else map_of (beats rst) x)) \<and>
    counter (db s') (Seq (rm_keys m)) = Some (seqn rst + 1) \<and> counter (db s') (Fencing (rm_keys m)) = Some (wfence rst)"
proof -
  define mem where "mem = ''W:'' @ token"
  let ?K = "rm_keys m" and ?ttl = "ttl (rm_cfg m)"
  let ?l = "NewRWWriter token ?K ?ttl"
  let ?rst1 = "snd (rw_write token (Milliseconds ?ttl) now timeout T rst)"
  have l: "rw_id ?l = token" "rw_on ?l = ?K" "rw_ttl ?l = ?ttl" by (simp_all add: NewRWWriter_def)
  obtain s1 where acq: "RWWriter_TryAcquire R fuel env ?l s = (Inl ErrBusy, ?l, s1)" and run: "clock s1 = T" "shows_rw (db s1) ?K ?rst1"
    using redis_server.refused_request [OF server K l now timeout T(1) rst t fuel refused] net by auto
  note left = refused_newcomer [OF rst(2) t(2) new refused refl]
  let ?s2 = "dequeue R ?K mem (Reply [] T1) (Reply [] T2) s1"
  obtain st2 where deq: "shows_rw (db ?s2) ?K st2" "wfence st2 = wfence ?rst1" "queue st2 = zrem mem (queue ?rst1)"
    "beats st2 = AList.delete mem (beats ?rst1)" "seqn st2 = seqn ?rst1"
    using redis_server.dequeue_exec [OF server K run(2), of T1 T2 mem] run(1) T left(5) by auto
  have "RWMutex_TryLock fuel ge token env (Reply [] T1, Reply [] T2) m st s w =
      (Inl ErrNotAcquired, m, st, ?s2, m_Acquire (metrics (rm_client m)) ''rwmutex'' (rm_name m) False 0 w)"
    using acq R by (simp add: RWMutex_TryLock_def RWWriter_Dequeue_def RWWriter_member_def NewRWWriter_def mem_def)
  moreover have "zsetv (db ?s2) (Waiters ?K) = zrem mem (queue ?rst1)" "hashv (db ?s2) (WaiterTS ?K) = AList.delete mem (beats ?rst1)"
    "counter (db ?s2) (Seq ?K) = Some (seqn ?rst1)" "counter (db ?s2) (Fencing ?K) = Some (wfence ?rst1)"
    using deq by (simp_all add: shows_rw_def)
  ultimately show ?thesis using left unfolding mem_def by simp
qed

lemma RWWriter_TryAcquire_fields:
  "RWWriter_TryAcquire R fuel env l s = (res, l', s') \<Longrightarrow> rw_id l' = rw_id l \<and> rw_on l' = rw_on l \<and> rw_ttl l' = rw_ttl l"
  by (auto simp: RWWriter_TryAcquire_def RWWriter_Release_def discardLateGrant_def Let_def
      split: prod.splits sum.splits option.splits if_splits)

text \<open>
  C38: How an interrupted \<^verbatim>\<open>Lock\<close> leaves the queue, after any number of refused attempts and one
  more that the server executes and refuses. If that reply arrives and the context has ended,
  \<^verbatim>\<open>Lock\<close> returns the error of the context and its member is gone from queue and heartbeats, given
  that the two commands of \<^verbatim>\<open>Dequeue\<close> arrive. But if that reply is lost, \<^verbatim>\<open>Lock\<close> returns the
  error of the transport without leaving the queue: the waiter that nobody waits for stays in
  its place.
\<close>

theorem interrupted_lock:
  assumes server: "redis_server R clock db" and R: "rdb (rm_client m) = R" and K: "rw_distinct (rm_keys m)"
    and before: "acquire_loop (RWWriter_TryAcquire R fuel) (ge_impl ge) (retry (rm_cfg m)) 0 bs
        (NewRWWriter token (rm_keys m) (ttl (rm_cfg m))) s = (Waiting, l, s1, ds)"
    and now: "now = UnixMilli (acq_started (tn_env a))" and timeout: "timeout = waiterTimeout (ttl (rm_cfg m))"
    and T: "clock s1 \<le> T" and rst: "shows_rw (db (elapse R T s1)) (rm_keys m) rst" "rw_ok rst" "rw_room rst"
    and t: "0 < Milliseconds (ttl (rm_cfg m))" "0 < timeout" and fuel: "Suc (length (queue rst)) < fuel"
    and other: "map_option fst (wr rst) \<noteq> Some token"
    and refused: "fst (rw_write token (Milliseconds (ttl (rm_cfg m))) now timeout T rst) = None"
  shows "(acq_net (tn_env a) = Reply [] T \<and> (tn_ctx a = Some e \<or> tn_ctx a = None \<and> tn_select a = Some e) \<and>
      tn_dequeue a = (Reply [] T1, Reply [] T2) \<and> T \<le> T1 \<and> T1 \<le> T2 \<longrightarrow>
      (\<exists>s' w'. RWMutex_Lock fuel ge token (bs @ a # as) m st s w = (Some (Inl (errorf ''write lock'' (rm_name m) e)), m, st, s', w') \<and>
        map_of (zsetv (db s') (Waiters (rm_keys m))) (''W:'' @ token) = None \<and>
        map_of (hashv (db s') (WaiterTS (rm_keys m))) (''W:'' @ token) = None)) \<and>
    (acq_net (tn_env a) = Fail [T] e \<and> \<not> errors_Is e ErrBusy \<longrightarrow>
      (\<exists>s' w'. RWMutex_Lock fuel ge token (bs @ a # as) m st s w = (Some (Inl (errorf ''write lock'' (rm_name m) e)), m, st, s', w') \<and>
        map_of (zsetv (db s') (Waiters (rm_keys m))) (''W:'' @ token) = Some (arrival (''W:'' @ token) rst)))"
proof -
  let ?K = "rm_keys m" and ?ttl = "ttl (rm_cfg m)" and ?mem = "''W:'' @ token"
  let ?rst1 = "snd (rw_write token (Milliseconds ?ttl) now timeout T rst)"
  have "rw_id l = token \<and> rw_on l = ?K \<and> rw_ttl l = ?ttl"
    by (rule acquire_loop_invariant [OF before]) (auto simp: NewRWWriter_def dest: RWWriter_TryAcquire_fields)
  then have l: "rw_id l = token" "rw_on l = ?K" "rw_ttl l = ?ttl" by simp_all
  obtain s2 where run: "clock s2 = T" "shows_rw (db s2) ?K ?rst1"
    and acq: "acq_net (tn_env a) = Reply [] T \<longrightarrow> RWWriter_TryAcquire R fuel (tn_env a) l s1 = (Inl ErrBusy, l, s2)"
      "\<forall>e. acq_net (tn_env a) = Fail [T] e \<longrightarrow> RWWriter_TryAcquire R fuel (tn_env a) l s1 = (Inl e, l, s2)"
    using redis_server.refused_request [OF server K l now timeout T rst t fuel refused] by blast
  obtain finish w1 where tr: "t_Start (tracer (rm_client m)) ''distsync.rwmutex.lock'' w = (finish, w1)" by fastforce
  note loop = acquire_loop_append [OF before, of "a # as"]
  show ?thesis
  proof (intro conjI impI; elim conjE)
    assume net: "acq_net (tn_env a) = Reply [] T" and ended: "tn_ctx a = Some e \<or> tn_ctx a = None \<and> tn_select a = Some e"
      and deq: "tn_dequeue a = (Reply [] T1, Reply [] T2)" "T \<le> T1" "T1 \<le> T2"
    let ?s3 = "dequeue R ?K ?mem (Reply [] T1) (Reply [] T2) s2"
    obtain st3 where "shows_rw (db ?s3) ?K st3" "map_of (queue st3) ?mem = None" "map_of (beats st3) ?mem = None"
      using redis_server.dequeue_exec [OF server K run(2), of T1 T2 ?mem] run(1) deq by auto
    then have gone: "map_of (zsetv (db ?s3) (Waiters ?K)) ?mem = None" "map_of (hashv (db ?s3) (WaiterTS ?K)) ?mem = None"
      by (simp_all add: shows_rw_def)
    have deq': "RWWriter_Dequeue R (Reply [] T1) (Reply [] T2) l s2 = ?s3" using l by (simp add: RWWriter_Dequeue_def RWWriter_member_def)
    have "acquire_loop (RWWriter_TryAcquire R fuel) (ge_impl ge) (retry (rm_cfg m)) 0 (bs @ a # as) (NewRWWriter token ?K ?ttl) s =
        (GaveUp e a, l, s2, ds)"
      using loop acq(1) net ended by auto
    then show "\<exists>s' w'. RWMutex_Lock fuel ge token (bs @ a # as) m st s w = (Some (Inl (errorf ''write lock'' (rm_name m) e)), m, st, s', w') \<and>
        map_of (zsetv (db s') (Waiters ?K)) ?mem = None \<and> map_of (hashv (db s') (WaiterTS ?K)) ?mem = None"
      using gone tr R deq(1) deq' by (simp add: RWMutex_Lock_def Let_def)
  next
    assume net: "acq_net (tn_env a) = Fail [T] e" and e: "\<not> errors_Is e ErrBusy"
    have "acquire_loop (RWWriter_TryAcquire R fuel) (ge_impl ge) (retry (rm_cfg m)) 0 (bs @ a # as) (NewRWWriter token ?K ?ttl) s =
        (Failed e a, l, s2, ds)"
      using loop acq(2) net e by simp
    moreover have "map_of (queue ?rst1) ?mem = Some (arrival ?mem rst)"
      using refused_queue [OF rst(2) t(2) other refused] waiting_member [OF rst(2) t(2)] by simp
    ultimately show "\<exists>s' w'. RWMutex_Lock fuel ge token (bs @ a # as) m st s w = (Some (Inl (errorf ''write lock'' (rm_name m) e)), m, st, s', w') \<and>
        map_of (zsetv (db s') (Waiters ?K)) ?mem = Some (arrival ?mem rst)"
      using tr R run(2) by (simp add: RWMutex_Lock_def Let_def shows_rw_def)
  qed
qed

section \<open>Witnesses\<close>

text \<open>A lock that writer \<^verbatim>\<open>b\<close> holds, with \<^verbatim>\<open>x\<close>, long silent, and \<^verbatim>\<open>y\<close> in the queue.\<close>

definition wit_rwm :: "(mem, unit) rwmutex" where
  "wit_rwm = Client_RWMutex (New mem_redis []) ''c'' [Lease_ttl Second]"

definition wit_rwdata :: keyspace where
  "wit_rwdata = [Derived (Key ''c'') ''writer'' \<mapsto> (VStr (Text ''b''), Some 5000),
     Derived (Key ''c'') ''waiters'' \<mapsto> (VZset [(''W:x'', 1), (''W:y'', 2)], Some 1900),
     Derived (Key ''c'') ''waiter-ts'' \<mapsto> (VHash [(''W:x'', inum (-5000)), (''W:y'', inum 0)], Some 1900),
     Derived (Key ''c'') ''seq'' \<mapsto> (VStr (inum 2), Some 1900)]"

definition wit_rwheld :: mem where "wit_rwheld = \<lparr>mclock = 0, mdata = wit_rwdata\<rparr>"

definition wit_rst :: rw_state where
  "wit_rst = \<lparr>wr = Some (''b'', 5000), rd = [], wfence = 0, queue = [(''W:x'', 1), (''W:y'', 2)],
     beats = [(''W:x'', inum (-5000)), (''W:y'', inum 0)], seqn = 2, qexp = Some 1900\<rparr>"

lemma wit_rwm_simps [simp]:
  "rdb (rm_client wit_rwm) = mem_redis" "ttl (rm_cfg wit_rwm) = Second" "rm_name wit_rwm = ''c''"
  "rw_distinct (rm_keys wit_rwm)" "Milliseconds Second = 1000" "waiterTimeout Second = 2000"
  by (simp_all add: wit_rwm_def Client_RWMutex_distinct Milliseconds_nonneg waiterTimeout_def)
    (simp_all add: Client_RWMutex_def Let_def New_def resolved_def Lease_ttl_def)

lemma wit_rst_shows: "shows_rw (mem_db (elapse mem_redis 3 wit_rwheld)) (rm_keys wit_rwm) wit_rst" "rw_ok wit_rst" "rw_room wit_rst"
proof -
  have z: "zwf [(''W:x'', 1), (''W:y'', 2)]" by code_simp
  have "mem_db (elapse mem_redis 3 wit_rwheld) k = wit_rwdata k" for k
    by (simp add: mem_redis_def mem_db_elapse mem_db_def wit_rwheld_def wit_rwdata_def z)
  then have d: "mem_db (elapse mem_redis 3 wit_rwheld) = wit_rwdata" by (rule ext)
  show "shows_rw (mem_db (elapse mem_redis 3 wit_rwheld)) (rm_keys wit_rwm) wit_rst"
    unfolding d by (simp add: shows_rw_def wit_rst_def wit_rwdata_def wit_rwm_def Client_RWMutex_def Let_def kv_defs counter_def inum_def)
  show "rw_ok wit_rst" using z by (simp add: rw_ok_def wit_rst_def)
  show "rw_room wit_rst" by (simp add: rw_room_def wit_rst_def)
qed

lemma wit_rw_refused: "fst (rw_write ''a'' 1000 0 2000 3 wit_rst) = None"
  by code_simp

lemma wit_rst_queue:
  "dropWhile (\<lambda>p. stale (beats wit_rst) (0 - 2000) (fst p)) (queue wit_rst) = [(''W:y'', 2)]"
  "map_option fst (wr wit_rst) \<noteq> Some ''a''" "map_of (queue wit_rst) ''W:a'' = None" "length (queue wit_rst) = 2" "arrival ''W:a'' wit_rst = 3"
  by code_simp+

theorem trylock_leaves_queue_witness:
  "\<exists>s'. RWMutex_TryLock 9 wit_genv ''a'' wit_env (Reply [] 7, Reply [] 8) wit_rwm [] wit_rwheld () =
      (Inl ErrNotAcquired, wit_rwm, [], s', ()) \<and> zsetv (mem_db s') (Waiters (rm_keys wit_rwm)) = [(''W:y'', 2)]"
proof -
  have env: "acq_net wit_env = Reply [] 3" "0 = UnixMilli (acq_started wit_env)" by (simp_all add: wit_env_def UnixMilli_def)
  have c: "mclock wit_rwheld = 0" by (simp add: wit_rwheld_def)
  show ?thesis
    using trylock_leaves_queue [OF mem_server, of wit_rwm wit_env 3 0 2000 wit_rwheld 7 8 wit_rst 9 "''a''" wit_genv "[]" "()"]
      wit_rst_shows wit_rw_refused env c wit_rst_queue by auto
qed

theorem interrupted_lock_witness:
  "\<exists>s'. RWMutex_Lock 9 wit_genv ''a'' [wit_turn\<lparr>tn_env := wit_env\<lparr>acq_net := Fail [3] (TransportError ''EOF'')\<rparr>\<rparr>] wit_rwm [] wit_rwheld () =
      (Some (Inl (errorf ''write lock'' ''c'' (TransportError ''EOF''))), wit_rwm, [], s', ()) \<and>
     map_of (zsetv (mem_db s') (Waiters (rm_keys wit_rwm))) ''W:a'' = Some 3"
proof -
  let ?a = "wit_turn\<lparr>tn_env := wit_env\<lparr>acq_net := Fail [3] (TransportError ''EOF'')\<rparr>\<rparr>"
  have env: "acq_net (tn_env ?a) = Fail [3] (TransportError ''EOF'')" "0 = UnixMilli (acq_started (tn_env ?a))"
    by (simp_all add: wit_env_def UnixMilli_def)
  have c: "mclock wit_rwheld = 0" by (simp add: wit_rwheld_def)
  show ?thesis
    using interrupted_lock [OF mem_server, of wit_rwm 9 wit_genv "[]" "''a''" wit_rwheld "NewRWWriter ''a'' (rm_keys wit_rwm) Second" wit_rwheld "[]"
        0 ?a 2000 3 wit_rst "TransportError ''EOF''" 0 0 "[]" "[]" "()"]
      wit_rst_shows wit_rw_refused env c wit_rst_queue by auto
qed

end
