(* ===== verification/Semaphore.thy ===== *)
theory Semaphore
  imports Mutex
begin

text \<open>
  \<^verbatim>\<open>semaphore.go\<close>: the counting semaphore over the counting lease, and its permits.
\<close>

record ('s, 'w) semaphore =
  se_client :: "('s, 'w) client"
  se_name :: string
  se_cfg :: config
  se_key :: string
  se_capacity :: int

text \<open>\<^term>\<open>None\<close> is the panic of a capacity below one.\<close>

definition Client_Semaphore :: "('s, 'w) client \<Rightarrow> string \<Rightarrow> int \<Rightarrow> config_option list \<Rightarrow> ('s, 'w) semaphore option" where
  "Client_Semaphore c name capacity opts =
     (if capacity < 1 then None
      else Some \<lparr>se_client = c, se_name = name, se_cfg = resolved c opts, se_key = Key name, se_capacity = capacity\<rparr>)"

definition Semaphore_Name :: "('s, 'w) semaphore \<Rightarrow> string" where "Semaphore_Name se = se_name se"
definition Semaphore_Capacity :: "('s, 'w) semaphore \<Rightarrow> int" where "Semaphore_Capacity se = se_capacity se"

record 'w permit =
  p_handle :: "(permit_set, 'w) handle"
  p_n :: int

definition Semaphore_permit :: "guard_env \<Rightarrow> ('s, 'w) semaphore \<Rightarrow> permit_set \<Rightarrow> int \<Rightarrow> 'w permit" where
  "Semaphore_permit ge se l n =
     \<lparr>p_handle = start_background (PermitSet_ops (rdb (se_client se))) (ge_impl ge) (ge_rand ge) (ge_now ge) (se_cfg se)
        (newHandle (se_name se) ''semaphore'' (metrics (se_client se)) (tracer (se_client se)) l),
      p_n = n\<rparr>"

definition Semaphore_newLease :: "string \<Rightarrow> ('s, 'w) semaphore \<Rightarrow> permit_set" where
  "Semaphore_newLease token se = NewPermitSet token (se_key se) (ttl (se_cfg se)) (se_capacity se)"

definition bad_count :: "('s, 'w) semaphore \<Rightarrow> goerr" where
  "bad_count se = Message (''distsync: semaphore '' @ se_name se @ '': permits must be >= 1'')"

definition Semaphore_Acquire ::
  "guard_env \<Rightarrow> string \<Rightarrow> turn list \<Rightarrow> int \<Rightarrow> ('s, 'w) semaphore \<Rightarrow> 's \<Rightarrow> 'w \<Rightarrow> (goerr + 'w permit) option \<times> 's \<times> 'w" where
  "Semaphore_Acquire ge token turns n se s w =
     (if n < 1 then (Some (Inl (bad_count se)), s, w)
      else
        let c = se_client se; (finish, w1) = t_Start (tracer c) ''distsync.semaphore.acquire'' w in
        case acquire_loop (plain_try (\<lambda>env. PermitSet_TryAcquire (rdb c) env n)) (ge_impl ge) (retry (se_cfg se)) 0 turns
               (Semaphore_newLease token se) s of
          (Waiting, l, s', _) \<Rightarrow> (None, s', w1)
        | (Granted _ a, l, s', _) \<Rightarrow>
            (Some (Inr (Semaphore_permit ge se l n)), s',
             finish None (m_Acquire (metrics c) ''semaphore'' (se_name se) True (tn_since a) w1))
        | (Failed e a, l, s', _) \<Rightarrow>
            let err = errorf ''semaphore'' (se_name se) e
            in (Some (Inl err), s', finish (Some err) (m_Acquire (metrics c) ''semaphore'' (se_name se) False (tn_since a) w1))
        | (GaveUp e a, l, s', _) \<Rightarrow>
            let err = errorf ''semaphore'' (se_name se) e
            in (Some (Inl err), s', finish (Some err) (m_Acquire (metrics c) ''semaphore'' (se_name se) False (tn_since a) w1)))"

definition Semaphore_TryAcquire ::
  "guard_env \<Rightarrow> string \<Rightarrow> acq_env \<Rightarrow> int \<Rightarrow> ('s, 'w) semaphore \<Rightarrow> 's \<Rightarrow> 'w \<Rightarrow> (goerr + 'w permit) \<times> 's \<times> 'w" where
  "Semaphore_TryAcquire ge token env n se s w =
     (if n < 1 then (Inl (bad_count se), s, w)
      else
        let c = se_client se in
        case PermitSet_TryAcquire (rdb c) env n (Semaphore_newLease token se) s of
          (Some e, l, s') \<Rightarrow>
            if errors_Is e ErrBusy
            then (Inl ErrNotAcquired, s', m_Acquire (metrics c) ''semaphore'' (se_name se) False 0 w)
            else (Inl e, s', w)
        | (None, l, s') \<Rightarrow>
            (Inr (Semaphore_permit ge se l n), s', m_Acquire (metrics c) ''semaphore'' (se_name se) True 0 w))"

definition Semaphore_Available :: "transport \<Rightarrow> ('s, 'w) semaphore \<Rightarrow> 's \<Rightarrow> (goerr + int) \<times> 's" where
  "Semaphore_Available tr se s =
     (case Run (rdb (se_client se)) tr (redis_call (rdb (se_client se)) (ZCARD (se_key se))) s of
        (Inl e, s') \<Rightarrow> (Inl e, s')
      | (Inr used, s') \<Rightarrow>
          let free = se_capacity se - lua_int used in (Inr (if free < 0 then 0 else free), s'))"

definition Permit_Acquired :: "'w permit \<Rightarrow> int" where "Permit_Acquired p = p_n p"
definition Permit_ExpiresAt :: "'s redis \<Rightarrow> 'w permit \<Rightarrow> instant option" where
  "Permit_ExpiresAt R p = ExpiresAt (PermitSet_ops R) (h_leas (p_handle p))"
definition Permit_Lost :: "'w permit \<Rightarrow> bool" where "Permit_Lost p = h_lost (p_handle p)"

definition Permit_Renew ::
  "'s redis \<Rightarrow> call_env \<Rightarrow> renew_env \<Rightarrow> 'w permit \<Rightarrow> 's \<Rightarrow> 'w \<Rightarrow> goerr option \<times> 'w permit \<times> 's \<times> 'w" where
  "Permit_Renew R cenv renv p s w =
     (case handle_renew (PermitSet_ops R) cenv renv (p_handle p) s w of (e, h, s', w') \<Rightarrow> (e, p\<lparr>p_handle := h\<rparr>, s', w'))"

definition Permit_Release ::
  "'s redis \<Rightarrow> transport \<Rightarrow> 'w permit \<Rightarrow> 's \<Rightarrow> 'w \<Rightarrow> goerr option \<times> 'w permit \<times> 's \<times> 'w" where
  "Permit_Release R tr p s w =
     (case handle_release (PermitSet_ops R) tr (p_handle p) s w of (e, h, s', w') \<Rightarrow> (e, p\<lparr>p_handle := h\<rparr>, s', w'))"

section \<open>Requests beyond the capacity\<close>

lemma owned_le_length:
  assumes "distinct ms"
  shows "owned_of z ms \<le> int (length z)"
proof -
  have "length (filter (\<lambda>m. map_of z m \<noteq> None) ms) = card (set (filter (\<lambda>m. map_of z m \<noteq> None) ms))"
    by (rule distinct_card [symmetric]) (rule distinct_filter [OF assms])
  also have "\<dots> \<le> card (fst ` set z)" by (rule card_mono) (auto simp: map_of_eq_None_iff)
  also have "\<dots> \<le> card (set z)" by (rule card_image_le) simp
  also have "\<dots> \<le> length z" by (rule card_length)
  finally show ?thesis by (simp add: owned_of_def)
qed

lemma pool_acquire_oversized:
  assumes "distinct ms" "int (length z) \<le> capacity" "capacity < int (length ms)"
  shows "pool_acquire now lt capacity ms z = (None, reclaim now z)"
  using assms owned_le_length [OF assms(1), of "reclaim now z"] length_reclaim [of now z]
  by (auto simp: pool_acquire_def Let_def)

text \<open>When a transport lets the server run the request.\<close>

fun net_times :: "transport \<Rightarrow> int list" where
  "net_times (Reply ts t) = ts @ [t]"
| "net_times (Fail ts e) = ts"

lemma times_from_append: "times_from t (xs @ ys) \<longleftrightarrow> times_from t xs \<and> times_from (last (t # xs)) ys"
  by (induction xs arbitrary: t) auto

context redis_server
begin

lemma lost_oversized:
  assumes "pool_at (db s) key z" "int (length z) \<le> capacity" "distinct ms" "capacity < int (length ms)" "times_from (clock s) ts"
  shows "\<exists>z'. pool_at (db (run_lost R (sem_acquire R key now lt capacity ms) ts s)) key z' \<and> int (length z') \<le> capacity \<and>
    clock (run_lost R (sem_acquire R key now lt capacity ms) ts s) = last (clock s # ts)"
  using assms(1,2,5)
proof (induction ts arbitrary: s z)
  case (Cons t ts)
  have T: "clock s \<le> t" using Cons.prems(3) by simp
  have el: "pool_at (db (elapse R t s)) key z" using pool_elapse [OF Cons.prems(1) T] .
  obtain s' where s': "sem_acquire R key now lt capacity ms (elapse R t s) = (Inr SNil, s')" "clock s' = t"
      "pool_at (db s') key (reclaim now z)"
    using Run_sem_acquire [OF Cons.prems(1) T pool_acquire_oversized [OF assms(3) Cons.prems(2) assms(4)], where now = now and ttl = lt]
    by (auto simp: fence_reply_def split: prod.splits sum.splits)
  have "int (length (reclaim now z)) \<le> capacity" using Cons.prems(2) length_reclaim [of now z] by linarith
  then show ?case using Cons.IH [OF s'(3)] s'(1,2) Cons.prems(3) by simp
qed auto

text \<open>So no request beyond the capacity is granted, and each leaves the pool within it.\<close>

lemma request_oversized:
  assumes pool: "pool_at (db s) (ps_key p) z" "int (length z) \<le> ps_capacity p" and n: "ps_capacity p < n" "1 \<le> n"
    and times: "times_from (clock s) (net_times (acq_net env))"
  shows "\<exists>e s' z'. PermitSet_TryAcquire R env n p s = (Some e, p, s') \<and> pool_at (db s') (ps_key p) z' \<and>
    int (length z') \<le> ps_capacity p \<and> clock s' = last (clock s # net_times (acq_net env))"
proof -
  let ?ms = "permit_tokens (ps_id p) n"
  let ?q = "sem_acquire R (ps_key p) (UnixMilli (acq_started env)) (Milliseconds (ps_ttl p)) (ps_capacity p) ?ms"
  have ms: "distinct ?ms" "ps_capacity p < int (length ?ms)" using n by (simp_all add: distinct_permit_tokens length_permit_tokens)
  show ?thesis
  proof (cases "acq_net env")
    case (Fail ts e)
    then obtain z' where "pool_at (db (run_lost R ?q ts s)) (ps_key p) z'" "int (length z') \<le> ps_capacity p"
        "clock (run_lost R ?q ts s) = last (clock s # ts)"
      using lost_oversized [OF pool ms, of ts] times by auto
    then show ?thesis using Fail n(2) by (auto simp: PermitSet_TryAcquire_def Let_def)
  next
    case (Reply ts t)
    then have ts: "times_from (clock s) ts" "last (clock s # ts) \<le> t" using times by (auto simp: times_from_append)
    define s1 where "s1 = run_lost R ?q ts s"
    obtain z1 where z1: "pool_at (db s1) (ps_key p) z1" "int (length z1) \<le> ps_capacity p" "clock s1 \<le> t"
      using lost_oversized [OF pool ms ts(1), of "UnixMilli (acq_started env)" "Milliseconds (ps_ttl p)"] ts(2) by (auto simp: s1_def)
    obtain s' where s': "Run R (Reply [] t) ?q s1 = (Inr SNil, s')" "clock s' = t"
        "pool_at (db s') (ps_key p) (reclaim (UnixMilli (acq_started env)) z1)"
      using Run_sem_acquire [OF z1(1,3) pool_acquire_oversized [OF ms(1) z1(2) ms(2)]] by (auto simp: fence_reply_def)
    have "Run R (Reply ts t) ?q s = (Inr SNil, s')" using s'(1) by (simp add: s1_def)
    moreover have "int (length (reclaim (UnixMilli (acq_started env)) z1)) \<le> ps_capacity p"
      using z1(2) length_reclaim [of "UnixMilli (acq_started env)" z1] by linarith
    ultimately show ?thesis using Reply s' n(2) by (auto simp: PermitSet_TryAcquire_def Let_def)
  qed
qed

lemma loop_oversized:
  assumes "pool_at (db s) (ps_key p) z" "int (length z) \<le> ps_capacity p" "ps_capacity p < n" "1 \<le> n"
    and "times_from (clock s) (concat (map (\<lambda>a. net_times (acq_net (tn_env a))) turns))"
  shows "fst (acquire_loop (plain_try (\<lambda>env. PermitSet_TryAcquire R env n)) impl rp k turns p s) \<noteq> Granted x a"
  using assms(1,2,5)
proof (induction turns arbitrary: s z k)
  case (Cons b turns)
  have t: "times_from (clock s) (net_times (acq_net (tn_env b)))"
    "times_from (last (clock s # net_times (acq_net (tn_env b)))) (concat (map (\<lambda>a. net_times (acq_net (tn_env a))) turns))"
    using Cons.prems(3) by (simp_all add: times_from_append)
  obtain e s' z' where r: "PermitSet_TryAcquire R (tn_env b) n p s = (Some e, p, s')" "pool_at (db s') (ps_key p) z'"
    "int (length z') \<le> ps_capacity p" "clock s' = last (clock s # net_times (acq_net (tn_env b)))"
    using request_oversized [OF Cons.prems(1,2) assms(3,4) t(1)] by blast
  have "fst (acquire_loop (plain_try (\<lambda>env. PermitSet_TryAcquire R env n)) impl rp (Suc k) turns p s') \<noteq> Granted x a"
    using Cons.IH [OF r(2,3)] t(2) r(4) by simp
  moreover have "plain_try (\<lambda>env. PermitSet_TryAcquire R env n) (tn_env b) p s = (Inl e, p, s')"
    using r(1) by (simp add: plain_try_def)
  ultimately show ?case by (auto split: prod.splits option.splits)
qed simp

end

lemma Semaphore_newLease_simps [simp]:
  "ps_key (Semaphore_newLease token se) = se_key se" "ps_capacity (Semaphore_newLease token se) = se_capacity se"
  "ps_id (Semaphore_newLease token se) = token" "ps_ttl (Semaphore_newLease token se) = ttl (se_cfg se)"
  by (simp_all add: Semaphore_newLease_def NewPermitSet_def)

text \<open>
  A request for more permits than the capacity is never granted. \<^verbatim>\<open>Acquire\<close> does not reject
  it: through any number of attempts, over any network, it keeps waiting or ends with an error.
\<close>

theorem oversized_never_granted:
  assumes server: "redis_server R clock db" and R: "rdb (se_client se) = R"
    and pool: "pool_at (db s) (se_key se) z" "int (length z) \<le> se_capacity se" and n: "se_capacity se < n" "1 \<le> n"
    and times: "times_from (clock s) (concat (map (\<lambda>a. net_times (acq_net (tn_env a))) turns))"
  shows "fst (Semaphore_Acquire ge token turns n se s w) \<noteq> Some (Inr p)"
proof -
  let ?l = "Semaphore_newLease token se"
  obtain out l s' ds where loop: "acquire_loop (plain_try (\<lambda>env. PermitSet_TryAcquire R env n)) (ge_impl ge)
      (retry (se_cfg se)) 0 turns ?l s = (out, l, s', ds)" by (metis prod_cases4)
  have "out \<noteq> Granted x a" for x a
    using redis_server.loop_oversized [OF server, of s ?l z n turns "ge_impl ge" "retry (se_cfg se)" 0 x a] pool n times loop by simp
  moreover obtain finish w1 where "t_Start (tracer (se_client se)) ''distsync.semaphore.acquire'' w = (finish, w1)" by fastforce
  ultimately show ?thesis using loop R n(2)
    by (cases out) (auto simp: Semaphore_Acquire_def Let_def)
qed

text \<open>
  C33: \<^verbatim>\<open>Available\<close> does not overstate. It returns the capacity minus the permits in the set,
  expired ones included, and at least zero; and as long as nobody else takes permits, a
  request for that many, whose reply arrives in time, is granted in full.
\<close>

theorem available_is_grantable:
  assumes server: "redis_server R clock db" and R: "rdb (se_client se) = R"
    and pool: "pool_at (db s) (se_key se) z" and T: "clock s \<le> T" "T \<le> T'"
    and net: "acq_net env = Reply [] T'" and prompt: "acq_replied env < requestExpiry (acq_started env) (ttl (se_cfg se))"
  shows "\<exists>s1. Semaphore_Available (Reply [] T) se s = (Inr (max 0 (se_capacity se - int (length z))), s1) \<and>
    (1 \<le> n \<and> n \<le> max 0 (se_capacity se - int (length z)) \<longrightarrow>
      (\<exists>p s2 w2. Semaphore_TryAcquire ge token env n se s1 w = (Inr p, s2, w2) \<and> Permit_Acquired p = n))"
proof -
  let ?l = "Semaphore_newLease token se"
  have el: "pool_at (db (elapse R T s)) (se_key se) z" using redis_server.pool_elapse [OF server pool T(1)] .
  then have zs: "is_zset (db (elapse R T s)) (se_key se)" "zsetv (db (elapse R T s)) (se_key se) = z" by (simp_all add: pool_at_def)
  define s1 where "s1 = after R (ZCARD (se_key se)) (elapse R T s)"
  have card: "redis_call R (ZCARD (se_key se)) (elapse R T s) = (Inr (RInt (int (length z))), s1)"
    using redis_server.zcard_law [OF server zs(1)] zs(2)
    by (cases "call R (ZCARD (se_key se)) (elapse R T s)") (auto simp: redis_call_def view_def after_def s1_def)
  have s1: "pool_at (db s1) (se_key se) z" "clock s1 \<le> T'"
    using el zs redis_server.read_after(4) [OF server zs(1)] redis_server.clock_after [OF server]
      redis_server.clock_elapse [OF server T(1)] T(2) by (simp_all add: s1_def)
  have avail: "Semaphore_Available (Reply [] T) se s = (Inr (max 0 (se_capacity se - int (length z))), s1)"
    using card R by (simp add: Semaphore_Available_def Let_def max_def)
  have "\<exists>p s2 w2. Semaphore_TryAcquire ge token env n se s1 w = (Inr p, s2, w2) \<and> Permit_Acquired p = n"
    if n: "1 \<le> n" "n \<le> max 0 (se_capacity se - int (length z))"
  proof -
    let ?ms = "permit_tokens token n" and ?now = "UnixMilli (acq_started env)"
    have "\<exists>f. fst (pool_acquire ?now (Milliseconds (ttl (se_cfg se))) (se_capacity se) ?ms z) = Some f"
      using n length_reclaim [of ?now z] by (auto simp: pool_acquire_def Let_def length_permit_tokens max_def split: if_splits)
    then obtain f z' where pa: "pool_acquire ?now (Milliseconds (ttl (se_cfg se))) (se_capacity se) ?ms z = (Some f, z')"
      by (metis prod.collapse)
    obtain s2 where "Run R (Reply [] T') (sem_acquire R (se_key se) ?now (Milliseconds (ttl (se_cfg se))) (se_capacity se) ?ms) s1 =
        (Inr (fence_reply (Some f)), s2)" using redis_server.Run_sem_acquire [OF server s1 pa] by blast
    note i = Int64_fence_reply [OF this]
    have "\<exists>l s2. PermitSet_TryAcquire R env n ?l s1 = (None, l, s2)"
      using i net prompt n(1) by (simp add: PermitSet_TryAcquire_def Let_def)
    then show ?thesis using R n(1) by (auto simp: Semaphore_TryAcquire_def Let_def Permit_Acquired_def Semaphore_permit_def)
  qed
  then show ?thesis using avail by blast
qed

section \<open>Witnesses\<close>

definition wit_sem :: "(mem, unit) semaphore" where
  "wit_sem = (let c = New mem_redis [] in
     \<lparr>se_client = c, se_name = ''z'', se_cfg = resolved c [], se_key = ''z'', se_capacity = 3\<rparr>)"

lemma wit_sem_simps [simp]:
  "rdb (se_client wit_sem) = mem_redis" "se_key wit_sem = ''z''" "se_capacity wit_sem = 3" "ttl (se_cfg wit_sem) = 10000000000"
  "metrics (se_client wit_sem) = noopMetrics" "tracer (se_client wit_sem) = noopTracer"
  by (simp_all add: wit_sem_def New_def resolved_def Let_def)

theorem oversized_never_granted_witness:
  "\<nexists>p. fst (Semaphore_Acquire wit_genv ''a'' [wit_turn, wit_turn] 4 wit_sem wit_pool ()) = Some (Inr p)"
  using oversized_never_granted [OF mem_server, of wit_sem wit_pool "[(''old#0'', 40), (''b#0'', 9000)]" 4 "[wit_turn, wit_turn]" wit_genv "''a''" "()"]
    wit_pool_at by (simp add: wit_turn_def wit_env_def)

theorem available_is_grantable_witness:
  "\<exists>s1 p s2. Semaphore_Available (Reply [] 55) wit_sem wit_pool = (Inr 1, s1) \<and>
     Semaphore_TryAcquire wit_genv ''a'' wit_permit_env 1 wit_sem s1 () = (Inr p, s2, ())"
  using available_is_grantable [OF mem_server, of wit_sem wit_pool "[(''old#0'', 40), (''b#0'', 9000)]" 55 60 wit_permit_env 1 wit_genv "''a''" "()"]
    wit_pool_at by (auto simp: wit_permit_env_def requestExpiry_def)


end
