(* ===== verification/Leader.thy ===== *)
theory Leader
  imports Mutex
begin

text \<open>
  \<^verbatim>\<open>leader.go\<close>: leader election over the exclusive lease. The handles of a \<^verbatim>\<open>Leader\<close> are in a
  store, \<^verbatim>\<open>active\<close> is a position in it. The callback is an argument: it gets the position of the
  handle of its leadership, whose context its own derives from, and it returns with everything
  that happened while it ran, to the handles (renewals, losses, other calls of \<^verbatim>\<open>Run\<close> on the same
  \<^verbatim>\<open>Leader\<close>), to the server and to the metrics.
\<close>

type_synonym 'w handles = "(single_owner, 'w) handle list"

record ('s, 'w) leader =
  ld_client :: "('s, 'w) client"
  ld_name :: string
  ld_cfg :: config
  ld_key :: string
  ld_fkey :: string
  ld_fencing :: bool
  ld_active :: "nat option"
  ld_fence :: "64 word"

definition Client_Leader :: "('s, 'w) client \<Rightarrow> string \<Rightarrow> config_option list \<Rightarrow> ('s, 'w) leader" where
  "Client_Leader c name opts =
     (let cfg = resolved c opts; key = Key name
      in \<lparr>ld_client = c, ld_name = name, ld_cfg = cfg, ld_key = key, ld_fkey = Derived key ''fencing'',
          ld_fencing = fencing cfg, ld_active = None, ld_fence = 0\<rparr>)"

definition Leader_Name :: "('s, 'w) leader \<Rightarrow> string" where "Leader_Name L = ld_name L"

text \<open>A call of the callback, and of \<^verbatim>\<open>Run\<close>, returns an error or nil, or panics.\<close>

datatype ended = Returned "goerr option" | Panicked

type_synonym ('s, 'w) callback =
  "nat \<Rightarrow> ('s, 'w) leader \<Rightarrow> 'w handles \<Rightarrow> 's \<Rightarrow> 'w \<Rightarrow> ended \<times> ('s, 'w) leader \<times> 'w handles \<times> 's \<times> 'w"

definition Leader_newLease :: "string \<Rightarrow> ('s, 'w) leader \<Rightarrow> single_owner" where
  "Leader_newLease token L = NewSingleOwner token (ld_key L) (ld_fkey L) (ttl (ld_cfg L)) (ld_fencing L)"

definition IsLeader :: "('s, 'w) leader \<Rightarrow> 'w handles \<Rightarrow> bool" where
  "IsLeader L st = (case ld_active L of None \<Rightarrow> False | Some p \<Rightarrow> \<not> h_lost (st ! p))"

definition Leader_FencingToken :: "('s, 'w) leader \<Rightarrow> 'w handles \<Rightarrow> 64 word" where
  "Leader_FencingToken L st =
     (case ld_active L of None \<Rightarrow> 0 | Some p \<Rightarrow> if h_lost (st ! p) then 0 else ld_fence L)"

text \<open>
  \<^verbatim>\<open>runHeld\<close>. Its deferred functions run on a panic as well, which then goes on; the error of the
  release is joined to the error of the callback. The last deferred function clears \<^verbatim>\<open>active\<close>
  unless another call has taken it over.
\<close>

definition lead_handle :: "guard_env \<Rightarrow> ('s, 'w) leader \<Rightarrow> single_owner \<Rightarrow> (single_owner, 'w) handle" where
  "lead_handle ge L le =
     start_background (SingleOwner_ops (rdb (ld_client L))) (ge_impl ge) (ge_rand ge) (ge_now ge) (ld_cfg L)
       (newHandle (ld_name L) ''leader'' (metrics (ld_client L)) (tracer (ld_client L)) le)"

definition clear_active :: "nat \<Rightarrow> ('s, 'w) leader \<Rightarrow> ('s, 'w) leader" where
  "clear_active p L = (if ld_active L = Some p then L\<lparr>ld_active := None, ld_fence := 0\<rparr> else L)"

definition runHeld ::
  "guard_env \<Rightarrow> transport \<Rightarrow> single_owner \<Rightarrow> 64 word \<Rightarrow> ('s, 'w) callback \<Rightarrow> ('s, 'w) leader \<Rightarrow> 'w handles \<Rightarrow> 's \<Rightarrow> 'w \<Rightarrow>
     ended \<times> ('s, 'w) leader \<times> 'w handles \<times> 's \<times> 'w" where
  "runHeld ge tr le f fn L st s w =
     (let p = length st; st1 = st @ [lead_handle ge L le] in
      case fn p (L\<lparr>ld_active := Some p, ld_fence := f\<rparr>) st1 s w of
        (r, L2, st2, s2, w2) \<Rightarrow>
          let r1 = (case r of
                Panicked \<Rightarrow> Panicked
              | Returned err \<Rightarrow> Returned (if h_lost (st2 ! p) then errors_Join err (Some ErrLeadershipLost) else err));
              (h, w3) = stop (st2 ! p) w2
          in case handle_release (SingleOwner_ops (rdb (ld_client L))) tr h s2 w3 of
               (rel, h', s3, w4) \<Rightarrow>
                 let r2 = (case r1 of
                       Panicked \<Rightarrow> Panicked
                     | Returned err \<Rightarrow> Returned (if rel = None then err else errors_Join err rel))
                 in (r2, clear_active p L2, st2[p := h'], s3, w4))"

definition nil_callback :: "('s, 'w) leader \<Rightarrow> goerr" where
  "nil_callback L = Message (''distsync: leader '' @ ld_name L @ '': nil callback'')"

text \<open>What \<^verbatim>\<open>finish\<close> is called with: nothing has been assigned to the named result on a panic.\<close>

definition named_result :: "ended \<Rightarrow> goerr option" where
  "named_result r = (case r of Returned e \<Rightarrow> e | Panicked \<Rightarrow> None)"

definition Leader_Run ::
  "guard_env \<Rightarrow> string \<Rightarrow> turn list \<Rightarrow> transport \<Rightarrow> ('s, 'w) callback option \<Rightarrow> ('s, 'w) leader \<Rightarrow> 'w handles \<Rightarrow> 's \<Rightarrow> 'w \<Rightarrow>
     ended option \<times> ('s, 'w) leader \<times> 'w handles \<times> 's \<times> 'w" where
  "Leader_Run ge token turns tr fn L st s w =
     (let c = ld_client L; (finish, w1) = t_Start (tracer c) ''distsync.leader.run'' w in
      case fn of
        None \<Rightarrow> (Some (Returned (Some (nil_callback L))), L, st, s, finish (Some (nil_callback L)) w1)
      | Some g \<Rightarrow>
          (case acquire_loop (SingleOwner_TryAcquire (rdb c)) (ge_impl ge) (retry (ld_cfg L)) 0 turns (Leader_newLease token L) s of
             (Waiting, l, s', _) \<Rightarrow> (None, L, st, s', w1)
           | (Failed e a, l, s', _) \<Rightarrow>
               let err = Some (errorf ''leader'' (ld_name L) e) in (Some (Returned err), L, st, s', finish err w1)
           | (GaveUp e a, l, s', _) \<Rightarrow>
               let err = Some (errorf ''leader'' (ld_name L) e) in (Some (Returned err), L, st, s', finish err w1)
           | (Granted f a, l, s', _) \<Rightarrow>
               (case runHeld ge tr l f g L st s' (m_Acquire (metrics c) ''leader'' (ld_name L) True (tn_since a) w1) of
                  (r, L', st', s'', w2) \<Rightarrow> (Some r, L', st', s'', finish (named_result r) w2))))"

definition Leader_TryRun ::
  "guard_env \<Rightarrow> string \<Rightarrow> acq_env \<Rightarrow> transport \<Rightarrow> ('s, 'w) callback option \<Rightarrow> ('s, 'w) leader \<Rightarrow> 'w handles \<Rightarrow> 's \<Rightarrow> 'w \<Rightarrow>
     ended \<times> ('s, 'w) leader \<times> 'w handles \<times> 's \<times> 'w" where
  "Leader_TryRun ge token env tr fn L st s w =
     (let c = ld_client L; (finish, w1) = t_Start (tracer c) ''distsync.leader.tryrun'' w in
      case fn of
        None \<Rightarrow> (Returned (Some (nil_callback L)), L, st, s, finish (Some (nil_callback L)) w1)
      | Some g \<Rightarrow>
          (case SingleOwner_TryAcquire (rdb c) env (Leader_newLease token L) s of
             (Inl e, l, s') \<Rightarrow>
               let err = Some (if errors_Is e ErrBusy then ErrNotAcquired else e) in (Returned err, L, st, s', finish err w1)
           | (Inr f, l, s') \<Rightarrow>
               (case runHeld ge tr l f g L st s' (m_Acquire (metrics c) ''leader'' (ld_name L) True 0 w1) of
                  (r, L', st', s'', w2) \<Rightarrow> (r, L', st', s'', finish (named_result r) w2))))"

section \<open>Holding the lease\<close>

lemma lead_handle_simps [simp]:
  "h_leas (lead_handle ge L le) = le" "\<not> h_releaseDone (lead_handle ge L le)"
  by (simp_all add: lead_handle_def newHandle_def)

lemma clear_active_simps [simp]: "ld_active (clear_active p L) \<noteq> Some p" "ld_client (clear_active p L) = ld_client L"
  by (simp_all add: clear_active_def)

text \<open>The error of a callback that returned \<open>err\<close>, with what the loss and the release add to it.\<close>

definition end_error :: "bool \<Rightarrow> goerr option \<Rightarrow> goerr option \<Rightarrow> goerr option" where
  "end_error lost rel err =
     (let err1 = (if lost then errors_Join err (Some ErrLeadershipLost) else err)
      in if rel = None then err1 else errors_Join err1 rel)"

lemma err_Is_end_error:
  assumes "\<nexists>es. t = Join es"
  shows "err_Is (end_error lost rel err) t \<longleftrightarrow> err_Is err t \<or> lost \<and> t = ErrLeadershipLost \<or> err_Is rel t"
  using assms by (auto simp: end_error_def Let_def err_Is_Join)

lemma stop_release_run:
  assumes "\<not> h_releaseDone h" and "Release ops tr (h_leas h) s = (e, l, s')"
  shows "\<exists>h' w'. (case stop h w of (h1, w1) \<Rightarrow> handle_release ops tr h1 s w1) = (e, h', s', w') \<and> h_lost h' \<and> h_leas h' = l \<and>
    h_releaseDone h' = (e = None \<or> err_Is e ErrLost)"
proof -
  obtain h1 w1 where st: "stop h w = (h1, w1)" by fastforce
  have "\<not> h_releaseDone h1" "h_leas h1 = h_leas h" using st assms(1) stop_simps [of h w] by auto
  then show ?thesis using handle_release_run [of h1 ops tr s e l s' w1] assms(2) st by auto
qed

text \<open>\<^verbatim>\<open>runHeld\<close> in one step: the callback, one release of its lease, and the error of both.\<close>

lemma runHeld_eq:
  assumes fn: "fn (length st) (L\<lparr>ld_active := Some (length st), ld_fence := f\<rparr>) (st @ [lead_handle ge L le]) s w = (r, L2, st2, s2, w2)"
    and own: "length st < length st2" "\<not> h_releaseDone (st2 ! length st)"
    and rel: "SingleOwner_Release (rdb (ld_client L)) tr (h_leas (st2 ! length st)) s2 = (e, l, s3)"
  shows "\<exists>h' w'. runHeld ge tr le f fn L st s w =
      (case r of Panicked \<Rightarrow> Panicked
       | Returned err \<Rightarrow> Returned (end_error (h_lost (st2 ! length st)) e err),
       clear_active (length st) L2, st2[length st := h'], s3, w') \<and>
    h_lost h' \<and> h_leas h' = l \<and> h_releaseDone h' = (e = None \<or> err_Is e ErrLost)"
proof -
  have "Release (SingleOwner_ops (rdb (ld_client L))) tr (h_leas (st2 ! length st)) s2 = (e, l, s3)"
    using rel by (simp add: SingleOwner_ops_def)
  then obtain h' w' where "(case stop (st2 ! length st) w2 of (h1, w1) \<Rightarrow>
      handle_release (SingleOwner_ops (rdb (ld_client L))) tr h1 s2 w1) = (e, h', s3, w')"
    "h_lost h'" "h_leas h' = l" "h_releaseDone h' = (e = None \<or> err_Is e ErrLost)"
    using stop_release_run [OF own(2), of _ tr s2 e l s3 w2] by blast
  then show ?thesis using fn
    by (cases r; cases e)
      (auto simp: runHeld_def Let_def end_error_def split: prod.splits)
qed

text \<open>
  C23: How a leadership ends. Whatever the callback does, the lease is released once through
  its own handle and no \<^verbatim>\<open>Leader\<close> keeps that handle active. A panic goes on. The error of a
  callback that returns matches what the callback's own error matches, \<^verbatim>\<open>ErrLeadershipLost\<close>
  when the lease was lost before the callback returned, what the error of the release
  matches, and nothing else.
\<close>

theorem leadership_ends:
  assumes fn: "fn (length st) (L\<lparr>ld_active := Some (length st), ld_fence := f\<rparr>) (st @ [lead_handle ge L le]) s w = (r, L2, st2, s2, w2)"
    and own: "length st < length st2" "\<not> h_releaseDone (st2 ! length st)"
    and rel: "SingleOwner_Release (rdb (ld_client L)) tr (h_leas (st2 ! length st)) s2 = (e, l, s3)"
    and t: "\<nexists>es. t = Join es"
  shows "\<exists>r' L' st' w'. runHeld ge tr le f fn L st s w = (r', L', st', s3, w') \<and>
    ld_active L' \<noteq> Some (length st) \<and> h_lost (st' ! length st) \<and> h_leas (st' ! length st) = l \<and>
    (\<forall>err. r = Returned err \<longrightarrow> (\<exists>err'. r' = Returned err' \<and>
      (err_Is err' t \<longleftrightarrow> err_Is err t \<or> h_lost (st2 ! length st) \<and> t = ErrLeadershipLost \<or> err_Is e t))) \<and>
    (r = Panicked \<longrightarrow> r' = Panicked)"
proof -
  obtain h' w' where "runHeld ge tr le f fn L st s w =
      (case r of Panicked \<Rightarrow> Panicked
       | Returned err \<Rightarrow> Returned (end_error (h_lost (st2 ! length st)) e err),
       clear_active (length st) L2, st2[length st := h'], s3, w')" "h_lost h'" "h_leas h' = l"
    using runHeld_eq [where fn = fn, OF fn own rel] by blast
  then show ?thesis using own(1) err_Is_end_error [OF t] by (cases r) auto
qed

section \<open>Leadership on a server\<close>

lemma Leader_newLease_simps [simp]:
  "so_id (Leader_newLease token L) = token" "so_key (Leader_newLease token L) = ld_key L"
  "so_fkey (Leader_newLease token L) = ld_fkey L" "so_ttl (Leader_newLease token L) = ttl (ld_cfg L)"
  "so_fencing (Leader_newLease token L) = ld_fencing L"
  by (simp_all add: Leader_newLease_def NewSingleOwner_def)

lemma lead_handle_live:
  assumes "so_expiresAt le = Some d" and "ge_now ge < d"
  shows "\<not> h_lost (lead_handle ge L le)"
  using assms by (simp add: lead_handle_def start_background_def startRenewal_def startWatchdog_def checkDeadline_def
      newHandle_def SingleOwner_ops_def)

text \<open>
  C22: A tenure, from \<^verbatim>\<open>TryRun\<close> on a free role to the end of its callback. The callback starts
  as the leader: the server records its token, \<^verbatim>\<open>IsLeader\<close> is true and \<^verbatim>\<open>FencingToken\<close> is the
  fence minted for it, one more than the counter, or 0 for a leader without fencing (the
  default), which leaves the counter alone. When the callback ends, by a return or a panic, with
  its lease neither lost nor released and the grant still alive on the server, \<^verbatim>\<open>TryRun\<close> ends in
  the same way with the callback's result as it is, the role is free for the next leader, and
  the fence counter is kept.
\<close>

theorem tenure:
  assumes server: "redis_server R clock db" and R: "rdb (ld_client L) = R"
    and wf: "lock_wf (db s) (ld_key L) (ld_fkey L)" and T: "clock s \<le> T" and lt: "0 < Milliseconds (ttl (ld_cfg L))"
    and net: "acq_net env = Reply [] T" and prompt: "acq_replied env < requestExpiry (acq_started env) (ttl (ld_cfg L))"
      "ge_now ge < requestExpiry (acq_started env) (ttl (ld_cfg L))"
    and free: "lock_abs (db (elapse R T s)) (ld_key L) (ld_fkey L) = \<lparr>holder = None, fence = n\<rparr>" and n: "n + 1 < 2 ^ 53"
    and f: "f = (if ld_fencing L then n + 1 else 0)"
    and L1: "L1 = L\<lparr>ld_active := Some (length st), ld_fence := word_of_int f\<rparr>"
    and st1: "st1 = st @ [lead_handle ge L ((Leader_newLease token L)\<lparr>so_expiresAt := Some (requestExpiry (acq_started env) (ttl (ld_cfg L)))\<rparr>)]"
    and callback: "\<And>s1 w1. clock s1 = T \<Longrightarrow> lock_wf (db s1) (ld_key L) (ld_fkey L) \<Longrightarrow>
      lock_abs (db s1) (ld_key L) (ld_fkey L) =
        \<lparr>holder = Some (token, T + Milliseconds (ttl (ld_cfg L))), fence = if ld_fencing L then n + 1 else n\<rparr> \<Longrightarrow>
      \<exists>L2 st2 s2 w2 e. fn (length st) L1 st1 s1 w1 = (r, L2, st2, s2, w2) \<and>
        length st < length st2 \<and> \<not> h_releaseDone (st2 ! length st) \<and> \<not> h_lost (st2 ! length st) \<and>
        so_id (h_leas (st2 ! length st)) = token \<and> so_key (h_leas (st2 ! length st)) = ld_key L \<and>
        so_fkey (h_leas (st2 ! length st)) = ld_fkey L \<and> lock_wf (db s2) (ld_key L) (ld_fkey L) \<and>
        lock_abs (db s2) (ld_key L) (ld_fkey L) = \<lparr>holder = Some (token, e), fence = n'\<rparr> \<and> clock s2 \<le> T' \<and> T' < e"
  shows "IsLeader L1 st1 \<and> Leader_FencingToken L1 st1 = word_of_int f \<and>
    (\<exists>L' st' s' w'. Leader_TryRun ge token env (Reply [] T') (Some fn) L st s w = (r, L', st', s', w') \<and>
      ld_active L' \<noteq> Some (length st) \<and> h_releaseDone (st' ! length st) \<and>
      lock_abs (db s') (ld_key L) (ld_fkey L) = \<lparr>holder = None, fence = n'\<rparr>)"
proof -
  let ?l = "Leader_newLease token L" and ?p = "length st" and ?d = "requestExpiry (acq_started env) (ttl (ld_cfg L))"
  let ?l1 = "?l\<lparr>so_expiresAt := Some ?d\<rparr>"
  obtain s1 where acq: "SingleOwner_TryAcquire R env ?l s = (Inr (word_of_int f), ?l1, s1)"
    and held: "lock_abs (db s1) (ld_key L) (ld_fkey L) =
      \<lparr>holder = Some (token, T + Milliseconds (ttl (ld_cfg L))), fence = if ld_fencing L then n + 1 else n\<rparr>" "clock s1 = T" "lock_wf (db s1) (ld_key L) (ld_fkey L)"
    using redis_server.TryAcquire_free [OF server, of s ?l T env n] wf T lt net prompt(1) free n f by auto
  obtain finish w0 where tr: "t_Start (tracer (ld_client L)) ''distsync.leader.tryrun'' w = (finish, w0)" by fastforce
  define w1 where "w1 = m_Acquire (metrics (ld_client L)) ''leader'' (ld_name L) True 0 w0"
  have live: "\<not> h_lost (lead_handle ge L ?l1)" using lead_handle_live [of ?l1 ?d] prompt(2) by simp
  obtain L2 st2 s2 w2 e where fn: "fn ?p L1 st1 s1 w1 = (r, L2, st2, s2, w2)"
    and own: "?p < length st2" "\<not> h_releaseDone (st2 ! ?p)" "\<not> h_lost (st2 ! ?p)"
    and lease: "so_id (h_leas (st2 ! ?p)) = token" "so_key (h_leas (st2 ! ?p)) = ld_key L" "so_fkey (h_leas (st2 ! ?p)) = ld_fkey L"
    and lock: "lock_wf (db s2) (ld_key L) (ld_fkey L)" "lock_abs (db s2) (ld_key L) (ld_fkey L) = \<lparr>holder = Some (token, e), fence = n'\<rparr>"
      "clock s2 \<le> T'" "T' < e"
    using callback [OF held(2,3,1)] by blast
  obtain s3 where rel: "SingleOwner_Release R (Reply [] T') (h_leas (st2 ! ?p)) s2 = (None, (h_leas (st2 ! ?p))\<lparr>so_expiresAt := None\<rparr>, s3)"
    "lock_abs (db s3) (ld_key L) (ld_fkey L) = \<lparr>holder = None, fence = n'\<rparr>"
    using redis_server.Release_held [OF server, of s2 "h_leas (st2 ! ?p)" T' e n'] lease lock by auto
  note fn' = fn [unfolded L1 st1]
  obtain h' w' where "runHeld ge (Reply [] T') ?l1 (word_of_int f) fn L st s1 w1 =
      (case r of Panicked \<Rightarrow> Panicked | Returned err \<Rightarrow> Returned err, clear_active ?p L2, st2[?p := h'], s3, w')" "h_releaseDone h'"
    using runHeld_eq [where fn = fn, OF fn' own(1,2) rel(1) [folded R]] own(3) by (auto simp: end_error_def split: ended.splits)
  moreover have "(case r of Panicked \<Rightarrow> Panicked | Returned err \<Rightarrow> Returned err) = r" by (cases r) simp_all
  moreover have "IsLeader L1 st1" "Leader_FencingToken L1 st1 = word_of_int f"
    using live by (simp_all add: IsLeader_def Leader_FencingToken_def L1 st1)
  ultimately show ?thesis using acq R tr rel(2) own(1) by (simp add: Leader_TryRun_def w1_def)
qed

section \<open>Witnesses\<close>

definition wit_leader :: "(mem, unit) leader" where
  "wit_leader = Client_Leader (New mem_redis []) ''order'' [Fencing_on]"

lemma wit_leader_simps [simp]:
  "rdb (ld_client wit_leader) = mem_redis" "ld_key wit_leader = Key ''order''" "ld_fkey wit_leader = Derived (Key ''order'') ''fencing''"
  "ttl (ld_cfg wit_leader) = 10000000000" "ld_fencing wit_leader"
  by (simp_all add: wit_leader_def Client_Leader_def Let_def New_def resolved_def Fencing_on_def)

text \<open>A callback that fails, and one that fails after its lease was lost.\<close>

definition wit_work :: "(mem, unit) callback" where "wit_work p L st s w = (Returned (Some Canceled), L, st, s, w)"
definition wit_fenced_off :: "(mem, unit) callback" where
  "wit_fenced_off p L st s w = (Returned (Some Canceled), L, st[p := markLost (st ! p)], s, w)"

theorem leadership_ends_witness:
  "\<exists>err L' st' s'. runHeld wit_genv (Fail [] DeadlineExceeded) (Leader_newLease ''a'' wit_leader) 1 wit_fenced_off wit_leader [] empty_mem () =
     (Returned err, L', st', s', ()) \<and> err_Is err ErrLeadershipLost \<and> ld_active L' \<noteq> Some 0"
proof -
  let ?h = "lead_handle wit_genv wit_leader (Leader_newLease ''a'' wit_leader)"
  obtain e l s3 where rel: "SingleOwner_Release mem_redis (Fail [] DeadlineExceeded) (h_leas (markLost ?h)) empty_mem = (e, l, s3)"
    by (metis prod_cases3)
  show ?thesis
    using leadership_ends [of wit_fenced_off "[]" 1 wit_leader wit_genv "Leader_newLease ''a'' wit_leader" empty_mem "()" "Returned (Some Canceled)"
        "wit_leader\<lparr>ld_active := Some 0, ld_fence := 1\<rparr>" "[markLost ?h]" empty_mem "()" "Fail [] DeadlineExceeded" e l s3 ErrLeadershipLost] rel
    by (auto simp: wit_fenced_off_def)
qed

theorem tenure_witness:
  "\<exists>L' st' s'. Leader_TryRun wit_genv ''a'' wit_env (Reply [] 500) (Some wit_work) wit_leader [] empty_mem () =
     (Returned (Some Canceled), L', st', s', ()) \<and> ld_active L' \<noteq> Some 0"
proof -
  let ?d = "requestExpiry (acq_started wit_env) 10000000000"
  let ?h = "lead_handle wit_genv wit_leader ((Leader_newLease ''a'' wit_leader)\<lparr>so_expiresAt := Some ?d\<rparr>)"
  let ?L = "wit_leader\<lparr>ld_active := Some 0, ld_fence := word_of_int 1\<rparr>"
  have env: "acq_net wit_env = Reply [] 3" "acq_replied wit_env < ?d" "ge_now wit_genv < ?d"
    by (simp_all add: wit_env_def wit_genv_def requestExpiry_def)
  have live: "\<not> h_lost ?h" by (rule lead_handle_live) (use env(3) in simp_all)
  show ?thesis
    using tenure [OF mem_server, of wit_leader empty_mem 3 wit_env wit_genv 0 1 ?L "[]" "[?h]" "''a''" wit_work "Returned (Some Canceled)" 1 500 "()"]
      env live fresh_lock [of "Key ''order''" "Derived (Key ''order'') ''fencing''"]
    by (auto simp: empty_lock(3) Milliseconds_nonneg wit_work_def)
qed

end
