(* ===== verification/Rounding.thy ===== *)
theory Rounding
  imports Options
begin

text \<open>
  Laws of binary64 rounding the rate limiters need: what is representable is not moved,
  rounding does not pass a representable value, and relative errors of sums and products.
\<close>

section \<open>Representable values\<close>

lemma round_even_le: "q \<le> of_int n \<Longrightarrow> round_even q \<le> n"
proof -
  assume q: "q \<le> of_int n"
  have "of_int (round_even q) \<le> q + 1 / 2" using round_even_error [of q] by linarith
  then have "of_int (round_even q) < (of_int (n + 1) :: rat)" using q by simp
  then show "round_even q \<le> n" by (simp only: of_int_less_iff)
qed

lemma round_even_ge: "of_int n \<le> q \<Longrightarrow> n \<le> round_even q"
proof -
  assume q: "of_int n \<le> q"
  have "q - 1 / 2 \<le> of_int (round_even q)" using round_even_error [of q] by linarith
  then have "of_int (n - 1) < (of_int (round_even q) :: rat)" using q by simp
  then show "n \<le> round_even q" by (simp only: of_int_less_iff)
qed

lemma power_int_2_less: "(2 :: rat) powi a < 2 powi b \<Longrightarrow> a < b"
  using power_int_increasing [of b a "2 :: rat"] by (meson linorder_not_less one_le_numeral)

text \<open>A multiple of a larger power of two is one of a smaller.\<close>

lemma power_int_2_multiple:
  assumes "b \<le> a"
  obtains m :: int where "(2 :: rat) powi a = of_int m * 2 powi b"
proof -
  obtain k where k: "a = int k + b" using assms by (metis diff_add_cancel diff_ge_0_iff_ge nonneg_int_cases)
  have "(2 :: rat) powi a = of_int (2 ^ k) * 2 powi b" unfolding k by (simp add: power_int_add)
  then show thesis by (rule that)
qed

lemma nearest_multiple:
  assumes "x = of_int n * ulp x"
  shows "nearest x = x"
proof (cases "x = 0")
  case False
  have "x / ulp x = of_int n" using assms ulp_pos [of x] by (metis less_irrefl nonzero_mult_div_cancel_right)
  then show ?thesis using False assms by (simp add: nearest_def)
qed simp

lemma nearest_grid:
  assumes "\<bar>n\<bar> \<le> 2 ^ 53" and "- 1074 \<le> E"
  shows "nearest (of_int n * 2 powi E) = of_int n * 2 powi E"
proof (cases "n = 0")
  case False
  let ?y = "of_int n * 2 powi E :: rat"
  have y: "?y \<noteq> 0" "\<bar>?y\<bar> = of_int \<bar>n\<bar> * 2 powi E" using False by (simp_all add: abs_mult less_imp_le)
  define F where "F = max (lead ?y - 52) (- 1074)"
  have u: "ulp ?y = 2 powi F" by (simp add: ulp_def F_def)
  show ?thesis
  proof (cases "\<bar>n\<bar> = 2 ^ 53")
    case True
    have "(of_int \<bar>n\<bar> :: rat) = 2 powi 53" by (simp only: True) simp
    then have a: "\<bar>?y\<bar> = 2 powi (E + 53)" using y(2) by (simp add: power_int_add)
    have "lead ?y < E + 53 + 1" using lead_bounds(1) [OF y(1)] unfolding a
      by (intro power_int_2_less) (erule le_less_trans, simp add: power_int_strict_increasing)
    then have "F \<le> E + 1" using assms(2) by (simp add: F_def)
    moreover have "E + 53 < lead ?y + 1" using lead_bounds(2) [OF y(1)] unfolding a by (rule power_int_2_less)
    ultimately have F: "F = E + 1" using assms(2) by (simp add: F_def)
    obtain k where k: "n = 2 * k" using True by (metis abs_eq_iff' dvd_def dvd_minus_iff even_power even_numeral zero_less_numeral)
    have "?y = of_int k * ulp ?y" unfolding u F by (simp add: k power_int_add)
    then show ?thesis by (rule nearest_multiple)
  next
    case False
    then have "(of_int \<bar>n\<bar> :: rat) < of_int (2 ^ 53)" using assms(1) by (simp only: of_int_less_iff)
    then have "\<bar>?y\<bar> < of_int (2 ^ 53) * 2 powi E" unfolding y(2) by (rule mult_strict_right_mono) simp
    also have "of_int (2 ^ 53) * 2 powi E = (2 :: rat) powi (E + 53)" by (simp add: power_int_add)
    finally have "2 powi lead ?y < (2 :: rat) powi (E + 53)" using lead_bounds(1) [OF y(1)] by linarith
    then have "lead ?y < E + 53" by (rule power_int_2_less)
    then have "F \<le> E" using assms(2) by (simp add: F_def)
    then obtain m where "(2 :: rat) powi E = of_int m * 2 powi F" by (rule power_int_2_multiple)
    then have "?y = of_int (n * m) * ulp ?y" unfolding u by simp
    then show ?thesis by (rule nearest_multiple)
  qed
qed simp

lemma nearest_shape:
  obtains n E where "nearest x = of_int n * 2 powi E" "\<bar>n\<bar> \<le> 2 ^ 53" "- 1074 \<le> E"
proof (cases "x = 0")
  case True
  then show ?thesis using that [of 0 0] by simp
next
  case False
  define E where "E = max (lead x - 52) (- 1074)"
  have u: "ulp x = 2 powi E" by (simp add: ulp_def E_def)
  let ?n = "round_even (x / ulp x)"
  have "\<bar>x\<bar> < 2 powi (E + 53)"
  proof (rule less_le_trans [OF lead_bounds(2) [OF False]])
    show "(2 :: rat) powi (lead x + 1) \<le> 2 powi (E + 53)" by (rule power_int_increasing) (simp_all add: E_def)
  qed
  also have "(2 :: rat) powi (E + 53) = of_int (2 ^ 53) * 2 powi E" by (simp add: power_int_add)
  finally have "\<bar>x / ulp x\<bar> \<le> of_int (2 ^ 53)"
    by (simp add: u abs_divide divide_le_eq less_imp_le)
  then have "x / ulp x \<le> of_int (2 ^ 53)" "- of_int (2 ^ 53) \<le> x / ulp x" by (simp_all only: abs_le_iff) linarith
  then have "x / ulp x \<le> of_int (2 ^ 53)" "of_int (- (2 ^ 53)) \<le> x / ulp x" by (simp_all only: of_int_minus)
  then have "\<bar>?n\<bar> \<le> 2 ^ 53" using round_even_le round_even_ge by (metis abs_le_iff minus_le_iff)
  moreover have "nearest x = of_int ?n * 2 powi E" using False by (simp add: nearest_def u)
  ultimately show ?thesis using that by (simp add: E_def)
qed

lemma nearest_idem [simp]: "nearest (nearest x) = nearest x"
proof -
  obtain n E where "nearest x = of_int n * 2 powi E" "\<bar>n\<bar> \<le> 2 ^ 53" "- 1074 \<le> E" by (rule nearest_shape)
  then show ?thesis using nearest_grid [of n E] by simp
qed

text \<open>Rounding does not pass a representable value.\<close>

lemma lead_mono: "0 < x \<Longrightarrow> x \<le> y \<Longrightarrow> lead x \<le> lead y"
proof -
  assume "0 < x" "x \<le> y"
  then have "2 powi lead x < (2 :: rat) powi (lead y + 1)" using lead_bounds(1) [of x] lead_bounds(2) [of y] by simp
  then show "lead x \<le> lead y" using power_int_2_less by fastforce
qed

lemma nearest_le:
  assumes "x \<le> y" and "0 \<le> y" and "nearest y = y"
  shows "nearest x \<le> y"
proof (cases "0 < x")
  case True
  have "max (lead x - 52) (- 1074) \<le> max (lead y - 52) (- 1074)" using lead_mono [OF True assms(1)] by (simp add: max_def)
  then obtain m where m: "ulp y = of_int m * ulp x" unfolding ulp_def by (rule power_int_2_multiple)
  have "y = of_int (round_even (y / ulp y)) * ulp y" using assms(3) True assms(1) by (simp add: nearest_def split: if_splits)
  then obtain N where N: "y = of_int N * ulp x" by (metis m mult.assoc of_int_mult)
  have "x / ulp x \<le> of_int N" using assms(1) N by (simp add: divide_le_eq)
  then have "round_even (x / ulp x) \<le> N" by (rule round_even_le)
  then have "of_int (round_even (x / ulp x)) * ulp x \<le> of_int N * ulp x" by (intro mult_right_mono) (simp_all add: less_imp_le)
  then show ?thesis using True N by (simp add: nearest_def)
next
  case False
  then show ?thesis using nearest_nonpos [of x] assms(2) by simp
qed

lemma nearest_ge:
  assumes "y \<le> x" and "0 \<le> y" and "nearest y = y"
  shows "y \<le> nearest x"
proof (cases "y = 0")
  case False
  then have y: "0 < y" "x \<noteq> 0" using assms by simp_all
  have "y / ulp x \<le> of_int (round_even (x / ulp x))"
  proof (cases "ulp y = ulp x")
    case True
    have "y = of_int (round_even (y / ulp y)) * ulp y" using assms(3) y by (simp add: nearest_def)
    then have N: "y / ulp x = of_int (round_even (y / ulp y))" using True ulp_pos [of x] by (metis less_irrefl nonzero_mult_div_cancel_right)
    have "of_int (round_even (y / ulp y)) \<le> x / ulp x" unfolding N [symmetric] using assms(1) by (simp add: divide_right_mono less_imp_le)
    then show ?thesis unfolding N using round_even_ge by simp
  next
    case False
    have l: "lead y < lead x" "- 1074 < lead x - 52"
      using lead_mono [OF y(1) assms(1)] False by (cases "lead y = lead x"; auto simp: ulp_def max_def split: if_splits)+
    have "ulp x = 2 powi (lead x - 52)" using l(2) by (simp add: ulp_def)
    then have u: "2 powi lead x = of_int (2 ^ 52) * ulp x" by (simp add: power_int_diff)
    have "y < 2 powi (lead y + 1)" using lead_bounds(2) [of y] y(1) by simp
    also have "\<dots> \<le> 2 powi lead x" using l(1) by (intro power_int_increasing) simp_all
    finally have "y / ulp x \<le> of_int (2 ^ 52)" unfolding u by (simp add: divide_le_eq)
    moreover have "of_int (2 ^ 52) * ulp x \<le> x" using lead_bounds(1) [of x] y assms(1) unfolding u by simp
    then have "of_int (2 ^ 52) \<le> x / ulp x" by (simp add: le_divide_eq)
    then have "2 ^ 52 \<le> round_even (x / ulp x)" by (rule round_even_ge)
    ultimately show ?thesis by (metis of_int_le_iff order_trans)
  qed
  then have "y \<le> of_int (round_even (x / ulp x)) * ulp x" by (simp add: divide_le_eq)
  then show ?thesis using y by (simp add: nearest_def)
qed (use assms nearest_nonneg in auto)

section \<open>Errors\<close>

text \<open>One rounding moves a value by a relative \<open>eps\<close>, up to underflow that a scale \<open>c\<close> hides.\<close>

lemma nearest_err:
  assumes "1 / 2 ^ 400 \<le> c"
  shows "\<bar>nearest y - y\<bar> \<le> eps * (\<bar>y\<bar> + c)"
proof -
  define h :: rat where "h = 1 / 2 ^ 400"
  have h: "0 < h" "1 / 2 ^ 1000 = h / 2 ^ 600" by (simp_all add: h_def flip: power_add)
  have "tiny \<le> h / 2 ^ 600" using tiny_small(2) unfolding h(2) .
  also have "\<dots> \<le> h / 2 ^ 53" using h(1) by (intro divide_left_mono power_increasing) simp_all
  also have "\<dots> = eps * h" by (simp add: eps_def)
  also have "\<dots> \<le> eps * c" using assms eps_small(1) by (simp add: h_def)
  finally have "tiny \<le> eps * c" .
  moreover have "0 \<le> eps * \<bar>y\<bar>" "0 \<le> eps * c" using eps_small(1) tiny_small(1) calculation by simp_all
  ultimately show ?thesis using nearest_error [of y] unfolding distrib_left by linarith
qed

lemma nearest_rel:
  assumes "1 / 2 ^ 900 \<le> x"
  shows "\<bar>nearest x - x\<bar> \<le> eps * x"
  using nearest_between [OF assms] by (simp add: algebra_simps abs_le_iff)

text \<open>Two roundings in a row, of factors that are near.\<close>

lemma nearest_mult_rel:
  assumes a: "0 < x" "\<bar>a - x\<bar> \<le> eps * x" and "0 < y" and big: "1 / 2 ^ 900 \<le> a * y"
  shows "\<bar>nearest (a * y) - x * y\<bar> \<le> 3 * eps * (x * y)"
proof -
  have p: "0 < x * y" using assms by simp
  have "a \<le> x + eps * x" using a(2) by linarith
  then have "a * y \<le> (x + eps * x) * y" using assms(3) by (simp add: mult_right_mono)
  then have "eps * (a * y) \<le> eps * ((1 + eps) * (x * y))" using eps_small(1) by (intro mult_left_mono) (simp_all add: algebra_simps)
  moreover have "eps * ((1 + eps) * (x * y)) \<le> 2 * eps * (x * y)" using p by (simp add: eps_def)
  moreover have "\<bar>nearest (a * y) - a * y\<bar> \<le> eps * (a * y)" by (rule nearest_rel [OF big])
  moreover have "\<bar>a * y - x * y\<bar> \<le> eps * (x * y)"
  proof -
    have "a * y - x * y = (a - x) * y" by (simp add: algebra_simps)
    then have "\<bar>a * y - x * y\<bar> = \<bar>a - x\<bar> * y" using assms(3) by (simp add: abs_mult)
    also have "\<dots> \<le> (eps * x) * y" using a(2) assms(3) by (intro mult_right_mono) simp_all
    finally show ?thesis by (simp add: mult.assoc)
  qed
  ultimately show ?thesis by (simp add: algebra_simps)
qed

end
