(* ===== verification/Buckets.thy ===== *)
theory Buckets
  imports Rounding
begin

text \<open>
  The bucket algorithms of the rate limiter: \<^verbatim>\<open>ratelimit.lua\<close> (token bucket) and
  \<^verbatim>\<open>ratelimit_leaky.lua\<close> (leaky bucket), in the binary64 arithmetic the scripts compute with.
\<close>

section \<open>Numbers of a script\<close>

text \<open>
  \<^verbatim>\<open>tonumber\<close> of a reply. A number that a script passes to a command is written with enough
  digits to be read back as it was.
\<close>

fun lua_tonumber :: "reply \<Rightarrow> f64 option" where
  "lua_tonumber (RBulk (Num q)) = Some (Fin q)"
| "lua_tonumber (RBulk (Text t)) = (if t = ''inf'' then Some PInf else if t = ''-inf'' then Some NInf
     else if t = ''nan'' \<or> t = ''-nan'' then Some NaN else None)"
| "lua_tonumber (RInt n) = Some (f64_of_int n)"
| "lua_tonumber _ = None"

fun number_bulk :: "f64 \<Rightarrow> bulk" where
  "number_bulk (Fin q) = Num q"
| "number_bulk PInf = Text ''inf''"
| "number_bulk NInf = Text ''-inf''"
| "number_bulk NaN = Text ''nan''"

text \<open>
  A number where a command expects an integer: from \<open>10\<^sup>1\<^sup>7\<close> on it is written with an exponent,
  which the command refuses.
\<close>

definition integer_arg :: "f64 \<Rightarrow> int option" where
  "integer_arg x = (case x of Fin q \<Rightarrow> if of_int \<lfloor>q\<rfloor> = q \<and> \<bar>q\<bar> < 10 ^ 17 then Some \<lfloor>q\<rfloor> else None | _ \<Rightarrow> None)"

definition pexpire :: "'s redis \<Rightarrow> string \<Rightarrow> f64 \<Rightarrow> ('s, 'a) lua \<Rightarrow> ('s, 'a) lua" where
  "pexpire R key x m = (case integer_arg x of
       None \<Rightarrow> (\<lambda>s. (Inl ''ERR value is not an integer or out of range'', s))
     | Some t \<Rightarrow> invoke R (PEXPIRE key t) (\<lambda>_. m))"

text \<open>The table of three numbers every limiter script returns, cut to integers by the server.\<close>

definition table3 :: "(f64 \<Rightarrow> int) \<Rightarrow> f64 \<times> f64 \<times> f64 \<Rightarrow> sreply" where
  "table3 impl r = (case r of (allowed, remaining, retryMs) \<Rightarrow> SInts (map (f64_to_int64 impl) [allowed, remaining, retryMs]))"

section \<open>Token bucket\<close>

definition refill :: "f64 \<Rightarrow> f64 \<Rightarrow> f64 \<Rightarrow> f64 \<Rightarrow> f64 \<Rightarrow> f64" where
  "refill capacity rate tokens ts now =
     (let refilled = f64_add tokens (f64_mul (f64_div (f64_sub now ts) (Fin 1000)) rate)
      in if f64_less capacity refilled then capacity else refilled)"

definition bucket_life :: "f64 \<Rightarrow> f64 \<Rightarrow> f64" where
  "bucket_life capacity rate = f64_add (f64_ceil (f64_mul (f64_div capacity rate) (Fin 1000))) (Fin 1000)"

definition ratelimit :: "'s redis \<Rightarrow> (f64 \<Rightarrow> int) \<Rightarrow> string \<Rightarrow> f64 \<Rightarrow> f64 \<Rightarrow> f64 \<Rightarrow> f64 \<Rightarrow> ('s, sreply) lua" where
  "ratelimit R impl key capacity rate now requested =
     invoke R (HGET key ''tokens'') (\<lambda>tok. invoke R (HGET key ''ts'') (\<lambda>last.
       let tokens = (case lua_tonumber tok of None \<Rightarrow> capacity | Some x \<Rightarrow> x);
           ts = (case lua_tonumber last of None \<Rightarrow> now | Some x \<Rightarrow> x);
           refilled = refill capacity rate tokens ts now;
           (allowed, remaining, retryAfterMs) =
             (if f64_le requested refilled then (Fin 1, f64_sub refilled requested, Fin 0)
              else (Fin 0, refilled, f64_ceil (f64_mul (f64_div (f64_sub requested refilled) rate) (Fin 1000))))
       in invoke R (HSET key [(''tokens'', number_bulk remaining), (''ts'', number_bulk now)]) (\<lambda>_.
            pexpire R key (bucket_life capacity rate)
              (lua_return (table3 impl (allowed, remaining, retryAfterMs))))))"

section \<open>Leaky bucket\<close>

definition drain :: "f64 \<Rightarrow> f64 \<Rightarrow> f64 \<Rightarrow> f64 \<Rightarrow> f64" where
  "drain rate level ts now =
     (let drained = f64_sub level (f64_mul (f64_div (f64_sub now ts) (Fin 1000)) rate)
      in if f64_less drained (Fin 0) then Fin 0 else drained)"

definition ratelimit_leaky :: "'s redis \<Rightarrow> (f64 \<Rightarrow> int) \<Rightarrow> string \<Rightarrow> f64 \<Rightarrow> f64 \<Rightarrow> f64 \<Rightarrow> f64 \<Rightarrow> ('s, sreply) lua" where
  "ratelimit_leaky R impl key capacity rate now requested =
     invoke R (HGET key ''level'') (\<lambda>lev. invoke R (HGET key ''ts'') (\<lambda>last.
       let level = (case lua_tonumber lev of None \<Rightarrow> Fin 0 | Some x \<Rightarrow> x);
           ts = (case lua_tonumber last of None \<Rightarrow> now | Some x \<Rightarrow> x);
           drained = drain rate level ts now;
           newLevel = f64_add drained requested;
           (level', allowed, retryMs) =
             (if f64_le newLevel capacity then (newLevel, Fin 1, Fin 0)
              else (drained, Fin 0, f64_ceil (f64_mul (f64_div (f64_sub newLevel capacity) rate) (Fin 1000))))
       in invoke R (HSET key [(''level'', number_bulk level'), (''ts'', number_bulk now)]) (\<lambda>_.
            pexpire R key (bucket_life capacity rate)
              (lua_return (table3 impl (allowed, Fin 0, retryMs))))))"

section \<open>Rounding in a bucket\<close>

text \<open>
  The sizes the analysis covers: capacity and rate far from overflow and underflow, and a
  bucket that fills within 500 years, as the constructor demands. One step of a bucket is off
  by at most \<open>slack\<close>.
\<close>

definition bucket_sizes :: "rat \<Rightarrow> rat \<Rightarrow> bool" where
  "bucket_sizes c r = (1 / 2 ^ 400 \<le> c \<and> c \<le> 2 ^ 400 \<and> 1 / 2 ^ 400 \<le> r \<and> r \<le> 2 ^ 400 \<and> c * 1000 \<le> r * 2 ^ 44 \<and> nearest c = c)"

definition slack :: "rat \<Rightarrow> rat" where "slack c = c / 2 ^ 49"

lemma bucket_sizesD:
  assumes "bucket_sizes c r"
  shows "0 < c" "0 < r" "1 / 2 ^ 400 \<le> c" "c \<le> 2 ^ 400" "1 / 2 ^ 400 \<le> r" "r \<le> 2 ^ 400" "c * 1000 \<le> r * 2 ^ 44" "nearest c = c"
proof -
  have "0 < (1 :: rat) / 2 ^ 400" by simp
  then show "0 < c" "0 < r" using assms by (auto simp only: bucket_sizes_def intro: less_le_trans)
qed (use assms in \<open>simp_all only: bucket_sizes_def\<close>)

text \<open>What flows in the milliseconds between two readings of the clock.\<close>

definition flow :: "rat \<Rightarrow> int \<Rightarrow> int \<Rightarrow> rat" where "flow r ts now = of_int (now - ts) / 1000 * r"

abbreviation Ms :: "int \<Rightarrow> f64" where "Ms t \<equiv> Fin (of_int t)"

lemma f64_sub_ms:
  assumes "\<bar>now - ts\<bar> < 2 ^ 53"
  shows "f64_sub (Ms now) (Ms ts) = Ms (now - ts)"
proof -
  have "(of_int \<bar>now - ts\<bar> :: rat) \<le> of_int (2 ^ 53)" using assms by (simp only: of_int_le_iff)
  also have "\<dots> \<le> 2 ^ 1023" by (simp only: of_int_power of_int_numeral) (rule power_increasing, simp_all)
  finally have "\<bar>of_int now + - of_int ts :: rat\<bar> \<le> 2 ^ 1023" by (simp only: of_int_abs of_int_diff diff_conv_add_uminus)
  then have "f64_sub (Ms now) (Ms ts) = Fin (nearest (of_int (now - ts)))"
    by (simp only: f64_sub_def f64_neg.simps f64_add.simps f64_round_Fin of_int_add of_int_minus diff_conv_add_uminus)
  then show ?thesis by (simp only: nearest_of_int [OF assms])
qed

lemma tiny_product:
  assumes "1 / 2 ^ 400 \<le> r" and "1 / 2000 \<le> a"
  shows "(1 :: rat) / 2 ^ 900 \<le> a * r"
proof -
  define h :: rat where "h = 1 / 2 ^ 400"
  have h: "0 < h" "1 / 2 ^ 900 = h / 2 ^ 500" by (simp_all add: h_def flip: power_add)
  have "(2 :: rat) ^ 11 \<le> 2 ^ 500" by (rule power_increasing) simp_all
  then have "h / 2 ^ 500 \<le> h / 2 ^ 11" using h(1) by (intro divide_left_mono) simp_all
  also have "\<dots> \<le> 1 / 2000 * h" using h(1) by simp
  also have "\<dots> \<le> a * r" using assms h(1) by (intro mult_mono) (simp_all add: h_def)
  finally show ?thesis by (simp only: h(2))
qed

lemma flow_close:
  assumes r: "1 / 2 ^ 400 \<le> r" "r \<le> 2 ^ 400" and t: "ts \<le> now" "now - ts < 2 ^ 53"
  obtains p where "f64_mul (f64_div (f64_sub (Ms now) (Ms ts)) (Fin 1000)) (Fin r) = Fin p"
    "\<bar>p - flow r ts now\<bar> \<le> 3 * eps * flow r ts now" "0 \<le> p" "p \<le> 2 ^ 460" "nearest p = p"
proof (cases "now = ts")
  case True
  then show ?thesis using that [of 0] by (simp add: f64_sub_def f64_round_def flow_def)
next
  case False
  define x :: rat where "x = of_int (now - ts) / 1000"
  have d: "1 \<le> now - ts" using t False by simp
  have "(1 :: rat) \<le> of_int (now - ts)" using d by (simp only: of_int_1_le_iff)
  then have x1: "1 / 1000 \<le> x" by (simp add: x_def)
  have "(of_int (now - ts) :: rat) \<le> of_int (2 ^ 53)" using t by (simp only: of_int_le_iff)
  then have x2: "x \<le> 2 ^ 50" by (simp add: x_def)
  have "(1 :: rat) / 2 ^ 900 \<le> 1 / 2 ^ 10" by (rule divide_left_mono) (auto intro: power_increasing)
  then have "1 / 2 ^ 900 \<le> x" by (rule order_trans) (use x1 in simp)
  then have a: "\<bar>nearest x - x\<bar> \<le> eps * x" by (rule nearest_rel)
  have ex: "eps * x \<le> x / 1000" using x1 by (simp add: eps_def)
  have "nearest x \<le> x + x / 1000" "x - x / 1000 \<le> nearest x" using a ex by linarith+
  then have a1: "1 / 2000 \<le> nearest x" "nearest x \<le> 2 ^ 51" using x1 x2 by simp_all
  have r0: "0 < r" using r(1) less_le_trans [of 0 "1 / 2 ^ 400" r] by simp
  have big: "1 / 2 ^ 900 \<le> nearest x * r" by (rule tiny_product [OF r(1) a1(1)])
  have m: "nearest x * r \<le> 2 ^ 51 * 2 ^ 400" using a1 r r0 by (intro mult_mono) simp_all
  have up: "(q :: rat) \<le> 2 ^ 51 * 2 ^ 400 \<Longrightarrow> q \<le> 2 ^ 1023" for q
    by (erule order_trans) (simp only: power_add [symmetric], rule power_increasing, simp_all)
  have p0: "0 \<le> nearest x * r" using a1(1) r0 by simp
  have "f64_mul (f64_div (f64_sub (Ms now) (Ms ts)) (Fin 1000)) (Fin r) = Fin (nearest (nearest x * r))"
  proof -
    have "f64_div (Ms (now - ts)) (Fin 1000) = f64_round x" by (simp add: x_def)
    also have "\<dots> = Fin (nearest x)" by (rule f64_round_small) (use x1 x2 in \<open>auto intro: order_trans [of _ "2 ^ 50"] power_increasing\<close>)
    moreover have "f64_round (nearest x * r) = Fin (nearest (nearest x * r))" using up [OF m] p0 by (intro f64_round_Fin) simp
    moreover have "\<bar>now - ts\<bar> < 2 ^ 53" using t by simp
    ultimately show ?thesis by (simp only: f64_sub_ms f64_mul.simps)
  qed
  moreover have "\<bar>nearest (nearest x * r) - flow r ts now\<bar> \<le> 3 * eps * flow r ts now"
    using nearest_mult_rel [OF _ a r0 big] x1 by (simp add: flow_def x_def)
  moreover have "nearest (nearest x * r) \<le> 2 ^ 460"
  proof -
    have "nearest (nearest x * r) \<le> nearest x * r * (1 + eps)" by (rule nearest_between [OF big])
    also have "\<dots> \<le> (2 ^ 51 * 2 ^ 400) * 2 ^ 1" by (rule mult_mono [OF m]) (simp_all add: eps_def p0)
    also have "\<dots> \<le> 2 ^ 460" by (simp only: power_add [symmetric]) (rule power_increasing, simp_all)
    finally show ?thesis .
  qed
  ultimately show ?thesis using that nearest_nonneg [OF p0] by simp
qed

text \<open>Refilling and draining in exact arithmetic, and how close the scripts come.\<close>

lemma in_range:
  assumes "(0 :: rat) \<le> a" "a \<le> 2 ^ 400" "0 \<le> b" "b \<le> 2 ^ 460"
  shows "\<bar>a + b\<bar> \<le> 2 ^ 1023" "\<bar>a - b\<bar> \<le> 2 ^ 1023"
proof -
  have "(2 :: rat) ^ 400 \<le> 2 ^ 1022" "(2 :: rat) ^ 460 \<le> 2 ^ 1022" by (rule power_increasing, simp_all)+
  then have "a \<le> 2 ^ 1022" "b \<le> 2 ^ 1022" using assms by (meson order_trans)+
  moreover have "(2 :: rat) ^ 1023 = 2 ^ 1022 + 2 ^ 1022" by (simp flip: mult_2 power_Suc)
  ultimately show "\<bar>a + b\<bar> \<le> 2 ^ 1023" "\<bar>a - b\<bar> \<le> 2 ^ 1023" using assms(1,3) by linarith+
qed

lemma eps_num: "eps = 1 / 9007199254740992" by (simp add: eps_def)

lemma refill_close:
  assumes sizes: "bucket_sizes c r" and t: "0 \<le> t" "t \<le> c" and n: "ts \<le> now" "now - ts < 2 ^ 53"
  obtains x where "refill (Fin c) (Fin r) (Fin t) (Ms ts) (Ms now) = Fin x" "\<bar>x - min c (t + flow r ts now)\<bar> \<le> slack c"
    "0 \<le> x" "x \<le> c" "nearest x = x"
proof -
  note c = bucket_sizesD [OF sizes]
  obtain p where p: "f64_mul (f64_div (f64_sub (Ms now) (Ms ts)) (Fin 1000)) (Fin r) = Fin p"
    "\<bar>p - flow r ts now\<bar> \<le> 3 * eps * flow r ts now" "0 \<le> p" "p \<le> 2 ^ 460"
    using flow_close [OF c(5,6) n] by metis
  define f where "f = flow r ts now"
  have f0: "0 \<le> f" using n(1) c(2) by (simp add: f_def flow_def)
  have pf: "p - f \<le> 3 / 9007199254740992 * f" "f - p \<le> 3 / 9007199254740992 * f"
    using p(2) [folded f_def] by (simp_all only: eps_num abs_le_iff) simp_all
  let ?y = "t + p"
  have e: "nearest ?y - ?y \<le> (?y + c) / 9007199254740992" "?y - nearest ?y \<le> (?y + c) / 9007199254740992"
    using nearest_err [OF c(3), of ?y] t p(3) by (simp_all only: eps_num abs_le_iff abs_of_nonneg add_nonneg_nonneg) simp_all
  have "f64_round ?y = Fin (nearest ?y)" by (rule f64_round_Fin [OF in_range(1)]) (use t c(4) p in \<open>auto intro: order_trans\<close>)
  then have ref: "refill (Fin c) (Fin r) (Fin t) (Ms ts) (Ms now) = Fin (min c (nearest ?y))"
    by (simp add: refill_def p(1) min_def)
  have "\<bar>min c (nearest ?y) - min c (t + f)\<bar> \<le> slack c"
  proof (cases "2 * c \<le> f")
    case True
    then have "c \<le> t + f" using t c(1) by linarith
    moreover have "19 / 10 * c \<le> p" using True pf c(1) by linarith
    then have "c \<le> nearest ?y" using e(2) t c(1) by (simp add: field_simps)
    ultimately show ?thesis using c(1) by (simp add: slack_def)
  next
    case False
    define u where "u = c / 9007199254740992"
    have u: "0 < u" "slack c = 16 * u" "3 / 9007199254740992 * f \<le> 6 * u" using False c(1) by (simp_all add: u_def slack_def field_simps)
    have "?y \<le> 4 * c" using False pf(1) t f0 by (simp add: field_simps)
    then have "(?y + c) / 9007199254740992 \<le> 5 * u" by (simp add: u_def field_simps)
    then have "\<bar>nearest ?y - (t + f)\<bar> \<le> slack c" using u pf e by (intro abs_leI) linarith+
    then show ?thesis unfolding min_def by (auto simp only: abs_le_iff split: if_splits)
  qed
  moreover have "0 \<le> min c (nearest ?y)" using c(1) t p(3) nearest_nonneg [of ?y] by simp
  moreover have "nearest (min c (nearest ?y)) = min c (nearest ?y)" using c(8) by (simp add: min_def)
  ultimately show ?thesis using that [of "min c (nearest ?y)"] ref by (simp add: f_def)
qed

lemma drain_close:
  assumes sizes: "bucket_sizes c r" and t: "0 \<le> l" "l \<le> c" "nearest l = l" and n: "ts \<le> now" "now - ts < 2 ^ 53"
  obtains x where "drain (Fin r) (Fin l) (Ms ts) (Ms now) = Fin x" "\<bar>x - max 0 (l - flow r ts now)\<bar> \<le> slack c"
    "0 \<le> x" "x \<le> l" "nearest x = x"
proof -
  note c = bucket_sizesD [OF sizes]
  obtain p where p: "f64_mul (f64_div (f64_sub (Ms now) (Ms ts)) (Fin 1000)) (Fin r) = Fin p"
    "\<bar>p - flow r ts now\<bar> \<le> 3 * eps * flow r ts now" "0 \<le> p" "p \<le> 2 ^ 460"
    using flow_close [OF c(5,6) n] by metis
  define f where "f = flow r ts now"
  have f0: "0 \<le> f" using n(1) c(2) by (simp add: f_def flow_def)
  have pf: "p - f \<le> 3 / 9007199254740992 * f" "f - p \<le> 3 / 9007199254740992 * f"
    using p(2) [folded f_def] by (simp_all only: eps_num abs_le_iff) simp_all
  let ?y = "l - p"
  have e: "nearest ?y - ?y \<le> (\<bar>?y\<bar> + c) / 9007199254740992" "?y - nearest ?y \<le> (\<bar>?y\<bar> + c) / 9007199254740992"
    using nearest_err [OF c(3), of ?y] by (simp_all only: eps_num abs_le_iff) simp_all
  have "f64_round ?y = Fin (nearest ?y)" by (rule f64_round_Fin [OF in_range(2)]) (use t c(4) p in \<open>auto intro: order_trans\<close>)
  then have "f64_sub (Fin l) (Fin p) = Fin (nearest ?y)" by (simp add: f64_sub_def)
  then have dr: "drain (Fin r) (Fin l) (Ms ts) (Ms now) = Fin (max 0 (nearest ?y))"
    by (simp add: drain_def p(1) max_def Let_def)
  have "\<bar>max 0 (nearest ?y) - max 0 (l - f)\<bar> \<le> slack c"
  proof (cases "2 * c \<le> f")
    case True
    then have "?y \<le> 0" "l - f \<le> 0" using pf t c(1) by linarith+
    then show ?thesis using c(1) nearest_nonpos [of ?y] by (simp add: slack_def)
  next
    case False
    define u where "u = c / 9007199254740992"
    have u: "0 < u" "slack c = 16 * u" "3 / 9007199254740992 * f \<le> 6 * u" using False c(1) by (simp_all add: u_def slack_def field_simps)
    have "?y \<le> 4 * c" "- ?y \<le> 4 * c" using False pf(1) t c(1) f0 p(3) by (simp_all add: field_simps)
    then have "(\<bar>?y\<bar> + c) / 9007199254740992 \<le> 5 * u" by (simp add: u_def field_simps abs_le_iff)
    then have "\<bar>nearest ?y - (l - f)\<bar> \<le> slack c" using u pf e by (intro abs_leI) linarith+
    then show ?thesis unfolding max_def by (auto simp only: abs_le_iff split: if_splits)
  qed
  moreover have "max 0 (nearest ?y) \<le> l" using nearest_le [of ?y l] t p(3) by simp
  moreover have "nearest (max 0 (nearest ?y)) = max 0 (nearest ?y)" by (simp add: max_def)
  ultimately show ?thesis using that [of "max 0 (nearest ?y)"] dr by (simp add: f_def)
qed


text \<open>A bucket lives until it is full again, and a second longer.\<close>

lemma bucket_life_bounds:
  assumes sizes: "bucket_sizes c r"
  obtains L where "bucket_life (Fin c) (Fin r) = Ms L" "integer_arg (bucket_life (Fin c) (Fin r)) = Some L"
    "0 < L" "c \<le> of_int (L - 999) / 1000 * r"
proof -
  note c = bucket_sizesD [OF sizes]
  define x where "x = c / r"
  have x0: "0 < x" using c by (simp add: x_def)
  have x1: "x * 1000 \<le> 2 ^ 44" using c(2,7) by (simp add: x_def divide_le_eq mult.commute)
  define h :: rat where "h = 1 / 2 ^ 400"
  have h: "0 < h" "1 / 2 ^ 900 = h * h / 2 ^ 100" unfolding h_def by (simp, simp only: power_add [symmetric] divide_divide_eq_left times_divide_times_eq mult_1 numeral_plus_numeral) simp
  have "h * h \<le> x"
  proof -
    have "h * h \<le> c * (1 / r)"
    proof (rule mult_mono)
      show "h \<le> c" using c(3) by (simp only: h_def)
      show "h \<le> 1 / r" unfolding h_def using c(2,6) by (intro divide_left_mono) simp_all
    qed (use h(1) c(1) in simp_all)
    then show ?thesis by (simp add: x_def)
  qed
  then have "h * h / 2 ^ 100 \<le> x / 2" using h(1) x0 by (intro frac_le) simp_all
  then have x2: "1 / 2 ^ 900 \<le> x / 2" by (simp only: h(2))
  then have "1 / 2 ^ 900 \<le> x" using x0 by linarith
  then have a: "\<bar>nearest x - x\<bar> \<le> eps * x" by (rule nearest_rel)
  have ex: "eps * x \<le> x / 1000" using x0 by (simp add: eps_num)
  have a1: "x / 2 \<le> nearest x" "nearest x \<le> 2 * x" using a ex x0 by linarith+
  have "1 / 2 ^ 900 \<le> nearest x * 1000" using a1(1) x2 x0 by linarith
  then have b: "\<bar>nearest (nearest x * 1000) - x * 1000\<bar> \<le> 3 * eps * (x * 1000)" using nearest_mult_rel [OF x0 a, of 1000] by simp
  define B where "B = nearest (nearest x * 1000)"
  have "3 * eps * (x * 1000) \<le> 1 / 2" using x1 by (simp add: eps_num)
  then have B: "x * 1000 - 1 \<le> B" "B \<le> 2 ^ 44 + 1" using b [folded B_def] x1 by linarith+
  have B0: "0 \<le> B" unfolding B_def using a1(1) x0 by (intro nearest_nonneg) simp
  define L where "L = \<lceil>B\<rceil> + 1000"
  have L: "1000 \<le> L" "L \<le> 2 ^ 44 + 1001" using B B0 by (simp_all add: L_def ceiling_le_iff)
  have small: "f64_round q = Fin (nearest q)" if "0 \<le> q" "q \<le> 2 ^ 50" for q
    using that by (intro f64_round_small) (auto intro: order_trans [of _ "2 ^ 50"] power_increasing)
  have "f64_div (Fin c) (Fin r) = f64_round x" using c(2) by (simp add: x_def)
  then have "f64_div (Fin c) (Fin r) = Fin (nearest x)" using x0 x1 small [of x] by simp
  moreover have "f64_mul (Fin (nearest x)) (Fin 1000) = Fin B" using a1 x0 x1 small [of "nearest x * 1000"] by (simp add: B_def)
  moreover have "f64_add (Fin (of_int \<lceil>B\<rceil>)) (Fin 1000) = Ms L"
  proof -
    have "f64_add (Fin (of_int \<lceil>B\<rceil>)) (Fin 1000) = f64_round (of_int L)" by (simp add: L_def)
    also have "\<dots> = Fin (nearest (of_int L))" using L by (intro small) simp_all
    also have "nearest (of_int L) = of_int L" using L by (intro nearest_of_int) simp
    finally show ?thesis .
  qed
  ultimately have life: "bucket_life (Fin c) (Fin r) = Ms L" by (simp only: bucket_life_def f64_ceil.simps)
  moreover have "integer_arg (Ms L) = Some L" using L by (simp add: integer_arg_def)
  moreover have "c \<le> of_int (L - 999) / 1000 * r"
  proof -
    have "x * 1000 - 1 \<le> of_int (L - 1000)" using order_trans [OF B(1) le_of_int_ceiling [of B]] by (simp add: L_def)
    then have "x * r \<le> of_int (L - 999) / 1000 * r" using c(2) by (intro mult_right_mono) simp_all
    then show ?thesis using c(2) by (simp add: x_def)
  qed
  ultimately show ?thesis using that L by simp
qed

section \<open>What both buckets promise\<close>

text \<open>Scripts run one after the other, each at a time of the server.\<close>

fun script_run :: "'s redis \<Rightarrow> (int \<times> ('s, 'a) lua) list \<Rightarrow> 's \<Rightarrow> (string + 'a) list \<times> 's" where
  "script_run R [] s = ([], s)"
| "script_run R ((T, m) # ms) s =
     (case m (elapse R T s) of (x, s') \<Rightarrow> (case script_run R ms s' of (xs, s'') \<Rightarrow> (x # xs, s'')))"

lemma script_run_Cons [simp]:
  "fst (script_run R ((T, m) # ms) s) = fst (m (elapse R T s)) # fst (script_run R ms (snd (m (elapse R T s))))"
  by (simp split: prod.splits)

declare script_run.simps(2) [simp del]

definition admitted :: "string + sreply \<Rightarrow> bool" where
  "admitted x = (case x of Inr (SInts (a # _)) \<Rightarrow> a = 1 | _ \<Rightarrow> False)"

text \<open>
  A decision: the time of the server, the time of the client, and what is requested. The
  bucket: its tokens, the client time of its last decision, and its deadline.
\<close>

type_synonym decision = "int \<times> int \<times> rat"
type_synonym bucket = "(rat \<times> int \<times> int) option"

fun spent :: "decision list \<Rightarrow> (string + sreply) list \<Rightarrow> rat" where
  "spent ((T, now, q) # ds) (x # xs) = (if admitted x then q else 0) + spent ds xs"
| "spent _ _ = 0"

text \<open>
  The clients' clocks do not go back from one decision to the next, and lose less than a
  second against the server in between.
\<close>

fun steady :: "decision list \<Rightarrow> bool" where
  "steady ((T, now, q) # (T', now', q') # ds) =
     (T \<le> T' \<and> now \<le> now' \<and> T' - T - 999 \<le> now' - now \<and> steady ((T', now', q') # ds))"
| "steady _ = True"

definition plausible :: "rat \<Rightarrow> decision list \<Rightarrow> bool" where
  "plausible c ds = (\<forall>(T, now, q) \<in> set ds. \<bar>now\<bar> < 2 ^ 52 \<and> 0 \<le> q \<and> q \<le> c \<and> nearest q = q)"

definition before :: "rat \<Rightarrow> rat \<Rightarrow> bucket \<Rightarrow> int \<Rightarrow> rat" where
  "before c r b now = (case b of None \<Rightarrow> c | Some (t, ts, e) \<Rightarrow> min c (t + flow r ts now))"

definition bucket_past :: "bucket \<Rightarrow> int \<Rightarrow> bool" where
  "bucket_past b now = (case b of None \<Rightarrow> True | Some (t, ts, e) \<Rightarrow> ts \<le> now \<and> now - ts < 2 ^ 53)"

definition life :: "rat \<Rightarrow> rat \<Rightarrow> int" where
  "life c r = the (integer_arg (bucket_life (Fin c) (Fin r)))"

definition off :: "rat \<Rightarrow> rat" where "off c = c / 2 ^ 48"

text \<open>The exact token bucket: its decisions, and whether none of them is a close call.\<close>

fun ideal :: "rat \<Rightarrow> rat \<Rightarrow> rat \<Rightarrow> int \<Rightarrow> decision list \<Rightarrow> bool list" where
  "ideal c r x ts [] = []"
| "ideal c r x ts ((T, now, q) # ds) =
     (let y = min c (x + flow r ts now) in (q \<le> y) # ideal c r (if q \<le> y then y - q else y) now ds)"

fun clear :: "rat \<Rightarrow> rat \<Rightarrow> nat \<Rightarrow> rat \<Rightarrow> int \<Rightarrow> decision list \<Rightarrow> bool" where
  "clear c r k x ts [] = True"
| "clear c r k x ts ((T, now, q) # ds) =
     (let y = min c (x + flow r ts now)
      in of_nat (Suc k) * off c < \<bar>q - y\<bar> \<and> clear c r (Suc k) (if q \<le> y then y - q else y) now ds)"

locale bucket_script = redis_server R clock db
  for R :: "'s redis" and clock :: "'s \<Rightarrow> int" and db :: "'s \<Rightarrow> keyspace" +
  fixes c :: rat and r :: rat and decide :: "int \<Rightarrow> rat \<Rightarrow> ('s, sreply) lua" and holds :: "keyspace \<Rightarrow> bucket \<Rightarrow> bool"
  assumes tokens_range: "holds d (Some (t, ts, e)) \<Longrightarrow> 0 \<le> t \<and> t \<le> c"
    and lapse: "clock s \<le> T \<Longrightarrow> holds (db s) b \<Longrightarrow>
      holds (db (elapse R T s)) b \<or> (\<exists>t ts e. b = Some (t, ts, e) \<and> e \<le> T \<and> holds (db (elapse R T s)) None)"
    and decided: "bucket_sizes c r \<Longrightarrow> holds (db s) b \<Longrightarrow> bucket_past b now \<Longrightarrow> \<bar>now\<bar> < 2 ^ 53 \<Longrightarrow>
      0 \<le> q \<Longrightarrow> q \<le> c \<Longrightarrow> nearest q = q \<Longrightarrow>
      \<exists>t x s'. decide now q s = (x, s') \<and> clock s' = clock s \<and> holds (db s') (Some (t, now, clock s + life c r)) \<and>
        (admitted x \<longrightarrow> q \<le> before c r b now + off c) \<and> (\<not> admitted x \<longrightarrow> before c r b now < q + off c) \<and>
        \<bar>t - (before c r b now - (if admitted x then q else 0))\<bar> \<le> off c"
begin

abbreviation run :: "decision list \<Rightarrow> 's \<Rightarrow> (string + sreply) list \<times> 's" where
  "run ds \<equiv> script_run R (map (\<lambda>(T, now, q). (T, decide now q)) ds)"

text \<open>The next decision on a bucket, which may have expired: then it would have been full.\<close>

lemma next_decision:
  assumes sizes: "bucket_sizes c r" and b: "holds (db s) (Some (t, ts, clock s + life c r))"
    and T: "clock s \<le> T" "ts \<le> now" "T - clock s - 999 \<le> now - ts" and n: "\<bar>now\<bar> < 2 ^ 52" "\<bar>ts\<bar> < 2 ^ 52"
    and q: "0 \<le> q" "q \<le> c" "nearest q = q"
  obtains t' x s' where "decide now q (elapse R T s) = (x, s')" "clock s' = T" "holds (db s') (Some (t', now, clock s' + life c r))"
    "admitted x \<longrightarrow> q \<le> min c (t + flow r ts now) + off c" "\<not> admitted x \<longrightarrow> min c (t + flow r ts now) < q + off c"
    "\<bar>t' - (min c (t + flow r ts now) - (if admitted x then q else 0))\<bar> \<le> off c" "c \<le> flow r ts now \<or> holds (db (elapse R T s)) (Some (t, ts, clock s + life c r))"
proof -
  have r0: "0 < r" and t0: "0 \<le> t" using bucket_sizesD [OF sizes] tokens_range [OF b] by simp_all
  obtain b' where b': "holds (db (elapse R T s)) b'" "before c r b' now = min c (t + flow r ts now)" "bucket_past b' now"
    "c \<le> flow r ts now \<or> holds (db (elapse R T s)) (Some (t, ts, clock s + life c r))"
    using lapse [OF T(1) b]
  proof
    assume "holds (db (elapse R T s)) (Some (t, ts, clock s + life c r))"
    then show ?thesis using that T(2) n by (simp add: before_def bucket_past_def)
  next
    assume "\<exists>t' ts' e. Some (t, ts, clock s + life c r) = Some (t', ts', e) \<and> e \<le> T \<and> holds (db (elapse R T s)) None"
    then have e: "clock s + life c r \<le> T" "holds (db (elapse R T s)) None" by auto
    obtain L where L: "life c r = L" "c \<le> of_int (L - 999) / 1000 * r"
      using bucket_life_bounds [OF sizes] by (metis life_def option.sel)
    have "L - 999 \<le> now - ts" using e(1) L(1) T(3) by simp
    then have "(of_int (L - 999) :: rat) \<le> of_int (now - ts)" by (simp only: of_int_le_iff)
    then have "of_int (L - 999) / 1000 * r \<le> flow r ts now"
      unfolding flow_def using r0 by (intro mult_right_mono divide_right_mono) simp_all
    then have "c \<le> flow r ts now" using L(2) by linarith
    then show ?thesis using that [of None] e(2) t0 by (simp add: before_def bucket_past_def)
  qed
  have n53: "\<bar>now\<bar> < 2 ^ 53" using n(1) by simp
  have "clock (elapse R T s) = T" using clock_elapse [OF T(1)] .
  with decided [OF sizes b'(1,3) n53 q] show ?thesis using that b'(2,4) by auto
qed

lemma flow_add: "flow r a b + flow r b d = flow r a d"
  by (simp add: flow_def algebra_simps add_divide_distrib diff_divide_distrib)

text \<open>What is spent after a decision: what it left, what flowed in since, and rounding.\<close>

lemma spent_after:
  assumes sizes: "bucket_sizes c r" and b: "holds (db s) (Some (t, ts, clock s + life c r))"
    and ds: "steady ((clock s, ts, q0) # ds)" "plausible c ds" "\<bar>ts\<bar> < 2 ^ 52"
  shows "spent ds (fst (run ds s)) \<le> t + flow r ts (fst (snd (last ((clock s, ts, q0) # ds)))) + of_nat (length ds) * off c"
  using b ds
proof (induction ds arbitrary: s t ts q0)
  case Nil
  then show ?case using tokens_range by (auto simp: flow_def)
next
  case (Cons d ds)
  obtain T now q where d: "d = (T, now, q)" by (metis prod_cases3)
  have st: "clock s \<le> T" "ts \<le> now" "T - clock s - 999 \<le> now - ts" "steady ((T, now, q) # ds)" using Cons.prems(2) d by simp_all
  have pl: "\<bar>now\<bar> < 2 ^ 52" "0 \<le> q" "q \<le> c" "nearest q = q" "plausible c ds" using Cons.prems(3) d by (simp_all add: plausible_def)
  obtain t' x s' where step: "decide now q (elapse R T s) = (x, s')" "clock s' = T" "holds (db s') (Some (t', now, clock s' + life c r))"
    and t': "\<bar>t' - (min c (t + flow r ts now) - (if admitted x then q else 0))\<bar> \<le> off c"
    using next_decision [OF sizes Cons.prems(1) st(1,2,3) pl(1) Cons.prems(4) pl(2,3,4)] by metis
  let ?N = "fst (snd (last ((T, now, q) # ds)))"
  have "spent ds (fst (run ds s')) \<le> t' + flow r now (fst (snd (last ((clock s', now, q) # ds)))) + of_nat (length ds) * off c"
    by (rule Cons.IH) (use step st pl in simp_all)
  then have "spent ds (fst (run ds s')) \<le> t' + flow r now ?N + of_nat (length ds) * off c" by (simp only: step(2))
  moreover have "(if admitted x then q else 0) + t' \<le> t + flow r ts now + off c" using t' by (auto simp: abs_le_iff split: if_splits)
  moreover have "flow r ts now + flow r now ?N = flow r ts ?N" by (rule flow_add)
  moreover have "spent (d # ds) (fst (run (d # ds) s)) = (if admitted x then q else 0) + spent ds (fst (run ds s'))"
    using step(1) d by simp
  moreover have "of_nat (length (d # ds)) * off c = of_nat (length ds) * off c + off c" by (simp add: algebra_simps)
  moreover have lst: "last ((clock s, ts, q0) # d # ds) = last ((T, now, q) # ds)" by (simp add: d)
  ultimately show ?case unfolding lst by linarith
qed

text \<open>Decisions that are no close calls are those of the exact bucket.\<close>

lemma ideal_after:
  assumes sizes: "bucket_sizes c r" and b: "holds (db s) (Some (t, ts, clock s + life c r))"
    and ds: "steady ((clock s, ts, q0) # ds)" "plausible c ds" "\<bar>ts\<bar> < 2 ^ 52"
    and x: "\<bar>t - x\<bar> \<le> of_nat k * off c" and clr: "clear c r k x ts ds"
  shows "map admitted (fst (run ds s)) = ideal c r x ts ds"
  using b ds x clr
proof (induction ds arbitrary: s t ts q0 x k)
  case (Cons d ds)
  obtain T now q where d: "d = (T, now, q)" by (metis prod_cases3)
  have st: "clock s \<le> T" "ts \<le> now" "T - clock s - 999 \<le> now - ts" "steady ((T, now, q) # ds)" using Cons.prems(2) d by simp_all
  have pl: "\<bar>now\<bar> < 2 ^ 52" "0 \<le> q" "q \<le> c" "nearest q = q" "plausible c ds" using Cons.prems(3) d by (simp_all add: plausible_def)
  define y z where "y = min c (x + flow r ts now)" and "z = min c (t + flow r ts now)"
  have yz: "\<bar>z - y\<bar> \<le> of_nat k * off c" using Cons.prems(5) by (auto simp: y_def z_def min_def abs_le_iff)
  obtain t' a s' where step: "decide now q (elapse R T s) = (a, s')" "clock s' = T" "holds (db s') (Some (t', now, clock s' + life c r))"
    and adm: "admitted a \<longrightarrow> q \<le> z + off c" "\<not> admitted a \<longrightarrow> z < q + off c" "\<bar>t' - (z - (if admitted a then q else 0))\<bar> \<le> off c"
    using next_decision [OF sizes Cons.prems(1) st(1,2,3) pl(1) Cons.prems(4) pl(2,3,4)] unfolding z_def by metis
  have k: "of_nat (Suc k) * off c = of_nat k * off c + off c" by (simp add: algebra_simps)
  have cl: "of_nat (Suc k) * off c < \<bar>q - y\<bar>" "clear c r (Suc k) (if q \<le> y then y - q else y) now ds"
    using Cons.prems(6) by (simp_all only: d y_def Let_def clear.simps)
  have same: "admitted a = (q \<le> y)" using adm(1,2) yz cl(1) unfolding k by (cases "admitted a"; cases "q \<le> y") auto
  have "map admitted (fst (run ds s')) = ideal c r (if q \<le> y then y - q else y) now ds"
  proof (rule Cons.IH)
    show "\<bar>t' - (if q \<le> y then y - q else y)\<bar> \<le> of_nat (Suc k) * off c"
      using adm(3) yz unfolding k same by (cases "q \<le> y") auto
  qed (use step st pl cl in simp_all)
  moreover have "ideal c r x ts (d # ds) = (q \<le> y) # ideal c r (if q \<le> y then y - q else y) now ds"
    by (simp only: d ideal.simps Let_def y_def)
  ultimately show ?case using step(1) same by (simp add: d)
qed simp

lemma first_decision:
  assumes sizes: "bucket_sizes c r" and b: "holds (db s) b" and T: "clock s \<le> T" and past: "bucket_past b now"
    and q: "\<bar>now\<bar> < 2 ^ 52" "0 \<le> q" "q \<le> c" "nearest q = q"
  obtains t x s' y where "decide now q (elapse R T s) = (x, s')" "clock s' = T" "holds (db s') (Some (t, now, clock s' + life c r))"
    "y \<le> c" "b = None \<longrightarrow> y = c" "admitted x \<longrightarrow> q \<le> y + off c" "\<not> admitted x \<longrightarrow> y < q + off c"
    "\<bar>t - (y - (if admitted x then q else 0))\<bar> \<le> off c"
proof -
  obtain b' where b': "holds (db (elapse R T s)) b'" "bucket_past b' now" "b = None \<longrightarrow> b' = None"
    using lapse [OF T b] past that by (auto simp: bucket_past_def)
  have le: "before c r b' now \<le> c" by (auto simp: before_def split: option.splits)
  have n53: "\<bar>now\<bar> < 2 ^ 53" using q(1) by simp
  have "clock (elapse R T s) = T" using clock_elapse [OF T] .
  with decided [OF sizes b'(1,2) n53 q(2,3,4)] show ?thesis using that [of _ _ _ "before c r b' now"] le b'(3)
    by (auto simp: before_def split: option.splits)
qed

lemma budget:
  assumes sizes: "bucket_sizes c r" and b: "holds (db s) b" "bucket_past b now" and T: "clock s \<le> T"
    and ds: "steady ((T, now, q) # ds)" "plausible c ((T, now, q) # ds)"
  shows "spent ((T, now, q) # ds) (fst (run ((T, now, q) # ds) s)) \<le>
    c + flow r now (fst (snd (last ((T, now, q) # ds)))) + of_nat (Suc (length ds)) * off c"
proof -
  have pl: "\<bar>now\<bar> < 2 ^ 52" "0 \<le> q" "q \<le> c" "nearest q = q" "plausible c ds" using ds(2) by (simp_all add: plausible_def)
  obtain t x s' y where step: "decide now q (elapse R T s) = (x, s')" "clock s' = T" "holds (db s') (Some (t, now, clock s' + life c r))"
    and y: "y \<le> c" "\<bar>t - (y - (if admitted x then q else 0))\<bar> \<le> off c"
    using first_decision [OF sizes b(1) T b(2) pl(1,2,3,4)] by metis
  let ?N = "fst (snd (last ((T, now, q) # ds)))"
  have "spent ds (fst (run ds s')) \<le> t + flow r now ?N + of_nat (length ds) * off c"
    using spent_after [OF sizes step(3), of q ds] ds(1) pl(1,5) by (simp only: step(2))
  moreover have "(if admitted x then q else 0) + t \<le> c + off c" using y by (auto simp: abs_le_iff split: if_splits)
  moreover have "spent ((T, now, q) # ds) (fst (run ((T, now, q) # ds) s)) = (if admitted x then q else 0) + spent ds (fst (run ds s'))"
    using step(1) by simp
  moreover have "of_nat (Suc (length ds)) * off c = of_nat (length ds) * off c + off c" by (simp add: algebra_simps)
  ultimately show ?thesis by linarith
qed

lemma like_ideal:
  assumes sizes: "bucket_sizes c r" and b: "holds (db s) None" and T: "clock s \<le> T"
    and ds: "steady ((T, now, q) # ds)" "plausible c ((T, now, q) # ds)" "clear c r 0 c now ((T, now, q) # ds)"
  shows "map admitted (fst (run ((T, now, q) # ds) s)) = ideal c r c now ((T, now, q) # ds)"
proof -
  have pl: "\<bar>now\<bar> < 2 ^ 52" "0 \<le> q" "q \<le> c" "nearest q = q" "plausible c ds" using ds(2) by (simp_all add: plausible_def)
  have "bucket_past None now" by (simp add: bucket_past_def)
  then obtain t x s' where step: "decide now q (elapse R T s) = (x, s')" "clock s' = T" "holds (db s') (Some (t, now, clock s' + life c r))"
    and y: "admitted x \<longrightarrow> q \<le> c + off c" "\<not> admitted x \<longrightarrow> c < q + off c" "\<bar>t - (c - (if admitted x then q else 0))\<bar> \<le> off c"
    using first_decision [OF sizes b T _ pl(1,2,3,4)] by metis
  have fl: "min c (c + flow r now now) = c" by (simp add: flow_def)
  have cl: "off c < \<bar>q - c\<bar>" "clear c r (Suc 0) (c - q) now ds"
    using ds(3) pl(3) by (simp_all add: fl)
  have adm: "admitted x" using y(2) cl(1) pl(3) by auto
  have "map admitted (fst (run ds s')) = ideal c r (c - q) now ds"
    by (rule ideal_after [OF sizes step(3) _ pl(5,1) _ cl(2)]) (use ds(1) y(3) adm step(2) in \<open>simp_all\<close>)
  then show ?thesis using step(1) adm pl(3) by (simp add: fl)
qed

end

section \<open>The token bucket keeps the promise\<close>

definition tokens_at :: "rat \<Rightarrow> string \<Rightarrow> keyspace \<Rightarrow> bucket \<Rightarrow> bool" where
  "tokens_at c key d b = (case b of
       None \<Rightarrow> d key = None
     | Some (t, ts, e) \<Rightarrow> 0 \<le> t \<and> t \<le> c \<and> nearest t = t \<and>
         (\<exists>h. d key = Some (VHash h, Some e) \<and> map_of h ''tokens'' = Some (Num t) \<and> map_of h ''ts'' = Some (inum ts)))"

definition level_at :: "rat \<Rightarrow> string \<Rightarrow> keyspace \<Rightarrow> bucket \<Rightarrow> bool" where
  "level_at c key d b = (case b of
       None \<Rightarrow> d key = None
     | Some (t, ts, e) \<Rightarrow> \<exists>l. t = c - l \<and> 0 \<le> l \<and> l \<le> c \<and> nearest l = l \<and>
         (\<exists>h. d key = Some (VHash h, Some e) \<and> map_of h ''level'' = Some (Num l) \<and> map_of h ''ts'' = Some (inum ts)))"

lemma admitted_table3 [simp]: "admitted (Inr (table3 impl (Fin 1, a, b)))" "\<not> admitted (Inr (table3 impl (Fin 0, a, b)))"
  by (simp_all add: admitted_def table3_def f64_to_int64_def trunc_def)

lemma hash_set_two:
  "f \<noteq> f' \<Longrightarrow> map_of (hash_set [(f, v), (f', v')] h) f = Some v"
  "map_of (hash_set [(f, v), (f', v')] h) f' = Some v'" "hash_set [(f, v), (f', v')] h \<noteq> []"
  by (simp_all add: hash_set_def update_conv' AList.update_nonempty)

lemma tokens_read:
  assumes "0 < c" and b: "tokens_at c key d b" and past: "bucket_past b now"
  obtains t ts where "0 \<le> t" "t \<le> c" "ts \<le> now" "now - ts < 2 ^ 53" "before c r b now = min c (t + flow r ts now)"
    "is_hash d key" "(case lua_tonumber (bulk_reply (map_of (hashv d key) ''tokens'')) of None \<Rightarrow> Fin c | Some x \<Rightarrow> x) = Fin t"
    "(case lua_tonumber (bulk_reply (map_of (hashv d key) ''ts'')) of None \<Rightarrow> Ms now | Some x \<Rightarrow> x) = Ms ts"
proof (cases b)
  case None
  then show ?thesis using that [of c now] b assms(1) by (simp add: tokens_at_def before_def flow_def is_hash_def hashv_def bulk_reply_def)
next
  case (Some p)
  then show ?thesis using that b past
    by (auto simp: tokens_at_def before_def bucket_past_def is_hash_def hashv_def bulk_reply_def inum_def split: prod.splits)
qed

lemma level_read:
  assumes "0 < c" and b: "level_at c key d b" and past: "bucket_past b now"
  obtains l ts where "0 \<le> l" "l \<le> c" "nearest l = l" "ts \<le> now" "now - ts < 2 ^ 53" "before c r b now = c - max 0 (l - flow r ts now)"
    "is_hash d key" "(case lua_tonumber (bulk_reply (map_of (hashv d key) ''level'')) of None \<Rightarrow> Fin 0 | Some x \<Rightarrow> x) = Fin l"
    "(case lua_tonumber (bulk_reply (map_of (hashv d key) ''ts'')) of None \<Rightarrow> Ms now | Some x \<Rightarrow> x) = Ms ts"
proof (cases b)
  case None
  then show ?thesis using that [of 0 now] b assms(1) by (simp add: level_at_def before_def flow_def is_hash_def hashv_def bulk_reply_def)
next
  case (Some p)
  obtain t ts e l h where p: "p = (t, ts, e)" "t = c - l" "0 \<le> l" "l \<le> c" "nearest l = l" "d key = Some (VHash h, Some e)"
    "map_of h ''level'' = Some (Num l)" "map_of h ''ts'' = Some (inum ts)"
    using b Some by (auto simp: level_at_def split: prod.splits)
  have "before c r b now = c - max 0 (l - flow r ts now)" unfolding Some p before_def by (simp add: min_def max_def)
  then show ?thesis using that [of l ts] p past Some
    by (simp add: bucket_past_def is_hash_def hashv_def bulk_reply_def inum_def)
qed

text \<open>Adding and subtracting amounts of a bucket.\<close>

lemma amounts:
  assumes sizes: "bucket_sizes c r" and x: "0 \<le> x" "x \<le> c" and q: "0 \<le> q" "q \<le> c"
  shows "f64_sub (Fin x) (Fin q) = Fin (nearest (x - q))" "f64_add (Fin x) (Fin q) = Fin (nearest (x + q))"
    "\<bar>nearest (x - q) - (x - q)\<bar> \<le> slack c" "\<bar>nearest (x + q) - (x + q)\<bar> \<le> slack c"
proof -
  note c = bucket_sizesD [OF sizes]
  have up: "(2 :: rat) ^ 400 \<le> 2 ^ 460" by (rule power_increasing) simp_all
  have r: "x \<le> 2 ^ 400" "q \<le> 2 ^ 460" using x(2) q(2) c(4) up by linarith+
  show "f64_sub (Fin x) (Fin q) = Fin (nearest (x - q))" "f64_add (Fin x) (Fin q) = Fin (nearest (x + q))"
    using f64_round_Fin [OF in_range(2) [OF x(1) r(1) q(1) r(2)]] f64_round_Fin [OF in_range(1) [OF x(1) r(1) q(1) r(2)]] by (simp_all add: f64_sub_def)
  have e: "\<bar>nearest y - y\<bar> \<le> slack c" if "\<bar>y\<bar> \<le> 2 * c" for y
  proof -
    have "\<bar>nearest y - y\<bar> \<le> eps * (\<bar>y\<bar> + c)" by (rule nearest_err [OF c(3)])
    also have "\<dots> \<le> eps * (3 * c)" using that eps_small(1) by (intro mult_left_mono) simp_all
    also have "\<dots> \<le> slack c" using c(1) by (simp add: eps_num slack_def)
    finally show ?thesis .
  qed
  show "\<bar>nearest (x - q) - (x - q)\<bar> \<le> slack c" "\<bar>nearest (x + q) - (x + q)\<bar> \<le> slack c" using x q by (auto intro!: e)
qed

context redis_server
begin

text \<open>Both scripts read two fields, write them, and set the deadline.\<close>

lemma bucket_reads:
  assumes "is_hash (db s) key"
  shows "invoke R (HGET key f) (\<lambda>a. invoke R (HGET key f') (\<lambda>b. m a b)) s =
    m (bulk_reply (map_of (hashv (db s) key) f)) (bulk_reply (map_of (hashv (db s) key) f')) (after R (HGET key f') (after R (HGET key f) s))"
  and "db (after R (HGET key f') (after R (HGET key f) s)) = db s" "clock (after R (HGET key f') (after R (HGET key f) s)) = clock s"
  using assms by (simp_all add: redis_step)

lemma bucket_writes:
  assumes "is_hash (db s) key" and "bucket_life (Fin c) (Fin r) = Ms L" "integer_arg (Ms L) = Some L" "0 < L" "f \<noteq> f'"
  obtains s' h where "invoke R (HSET key [(f, v), (f', v')]) (\<lambda>_. pexpire R key (bucket_life (Fin c) (Fin r)) (lua_return x)) s = (Inr x, s')"
    "clock s' = clock s" "db s' key = Some (VHash h, Some (clock s + L))" "map_of h f = Some v" "map_of h f' = Some v'"
proof -
  let ?h = "hash_set [(f, v), (f', v')] (hashv (db s) key)"
  let ?s1 = "after R (HSET key [(f, v), (f', v')]) s"
  let ?s' = "after R (PEXPIRE key L) ?s1"
  have "db ?s1 = put_hash (db s) key ?h" using assms(1) by (simp add: redis_step)
  then have "db ?s' key = Some (VHash ?h, Some (clock s + L))"
    using assms(4) hash_set_two(3) [of f v f' v'] by (simp add: redis_step put_hash_def set_ttl_def)
  moreover have "invoke R (HSET key [(f, v), (f', v')]) (\<lambda>_. pexpire R key (bucket_life (Fin c) (Fin r)) (lua_return x)) s = (Inr x, ?s')"
    using assms by (simp add: redis_step pexpire_def lua_return_def)
  moreover have "clock ?s' = clock s" by (simp add: redis_step)
  ultimately show ?thesis using that [of ?s' ?h] hash_set_two assms(5) by blast
qed

lemma bucket_lapse:
  assumes "clock s \<le> T" and "db s key = Some (v, Some e)"
  shows "db (elapse R T s) key = Some (v, Some e) \<or> e \<le> T \<and> db (elapse R T s) key = None"
  using assms(2) by (cases rule: elapse_cases [OF assms(1), of key]) auto

lemma ratelimit_decides:
  assumes sizes: "bucket_sizes c r" and b: "tokens_at c key (db s) b" and past: "bucket_past b now"
    and q: "0 \<le> q" "q \<le> c" "nearest q = q"
  shows "\<exists>t x s'. ratelimit R impl key (Fin c) (Fin r) (Ms now) (Fin q) s = (x, s') \<and> clock s' = clock s \<and>
    tokens_at c key (db s') (Some (t, now, clock s + life c r)) \<and>
    (admitted x \<longrightarrow> q \<le> before c r b now + off c) \<and> (\<not> admitted x \<longrightarrow> before c r b now < q + off c) \<and>
    \<bar>t - (before c r b now - (if admitted x then q else 0))\<bar> \<le> off c"
proof -
  note c = bucket_sizesD [OF sizes]
  obtain L where L: "bucket_life (Fin c) (Fin r) = Ms L" "integer_arg (Ms L) = Some L" "0 < L" "life c r = L"
    using bucket_life_bounds [OF sizes] by (metis life_def option.sel)
  obtain t0 ts0 where t0: "0 \<le> t0" "t0 \<le> c" "ts0 \<le> now" "now - ts0 < 2 ^ 53" "before c r b now = min c (t0 + flow r ts0 now)"
    and reads: "is_hash (db s) key" "(case lua_tonumber (bulk_reply (map_of (hashv (db s) key) ''tokens'')) of None \<Rightarrow> Fin c | Some x \<Rightarrow> x) = Fin t0"
      "(case lua_tonumber (bulk_reply (map_of (hashv (db s) key) ''ts'')) of None \<Rightarrow> Ms now | Some x \<Rightarrow> x) = Ms ts0"
    by (rule tokens_read [OF c(1) b past])
  obtain x where x: "refill (Fin c) (Fin r) (Fin t0) (Ms ts0) (Ms now) = Fin x" "\<bar>x - before c r b now\<bar> \<le> slack c" "0 \<le> x" "x \<le> c" "nearest x = x"
    using refill_close [OF sizes t0(1,2,3,4)] t0(5) by metis
  let ?s2 = "after R (HGET key ''ts'') (after R (HGET key ''tokens'') s)"
  have s2: "db ?s2 = db s" "clock ?s2 = clock s" using bucket_reads [OF reads(1)] by simp_all
  have off: "off c = 2 * slack c" "0 < slack c" using c(1) by (simp_all add: off_def slack_def)
  show ?thesis
  proof (cases "q \<le> x")
    case True
    let ?t = "nearest (x - q)"
    note am = amounts [OF sizes x(3,4) q(1,2)]
    have t: "0 \<le> ?t" "?t \<le> c" using nearest_nonneg [of "x - q"] nearest_le [of "x - q" c] True x q c by simp_all
    have close: "\<bar>?t - (before c r b now - q)\<bar> \<le> off c" "q \<le> before c r b now + off c" using am(3) x(2) True off by linarith+
    obtain s' h where "ratelimit R impl key (Fin c) (Fin r) (Ms now) (Fin q) s = (Inr (table3 impl (Fin 1, Fin ?t, Fin 0)), s')"
      "clock s' = clock s" "db s' key = Some (VHash h, Some (clock s + L))" "map_of h ''tokens'' = Some (Num ?t)" "map_of h ''ts'' = Some (inum now)"
      using bucket_writes [of ?s2 key c r L "''tokens''" "''ts''" "Num ?t" "inum now" "table3 impl (Fin 1, Fin ?t, Fin 0)"] reads(1) L s2 True
      by (auto simp: ratelimit_def bucket_reads [OF reads(1)] reads x(1) am(1) inum_def Let_def)
    then show ?thesis using close t L(4) by (auto simp: tokens_at_def)
  next
    case False
    let ?w = "f64_ceil (f64_mul (f64_div (f64_sub (Fin q) (Fin x)) (Fin r)) (Fin 1000))"
    have close: "\<bar>x - before c r b now\<bar> \<le> off c" "before c r b now < q + off c" using x(2) False off by linarith+
    obtain s' h where "ratelimit R impl key (Fin c) (Fin r) (Ms now) (Fin q) s = (Inr (table3 impl (Fin 0, Fin x, ?w)), s')"
      "clock s' = clock s" "db s' key = Some (VHash h, Some (clock s + L))" "map_of h ''tokens'' = Some (Num x)" "map_of h ''ts'' = Some (inum now)"
      using bucket_writes [of ?s2 key c r L "''tokens''" "''ts''" "Num x" "inum now" "table3 impl (Fin 0, Fin x, ?w)"] reads(1) L s2 False
      by (auto simp: ratelimit_def bucket_reads [OF reads(1)] reads x(1) inum_def Let_def)
    then show ?thesis using close x L(4) by (auto simp: tokens_at_def)
  qed
qed

lemma ratelimit_leaky_decides:
  assumes sizes: "bucket_sizes c r" and b: "level_at c key (db s) b" and past: "bucket_past b now"
    and q: "0 \<le> q" "q \<le> c" "nearest q = q"
  shows "\<exists>t x s'. ratelimit_leaky R impl key (Fin c) (Fin r) (Ms now) (Fin q) s = (x, s') \<and> clock s' = clock s \<and>
    level_at c key (db s') (Some (t, now, clock s + life c r)) \<and>
    (admitted x \<longrightarrow> q \<le> before c r b now + off c) \<and> (\<not> admitted x \<longrightarrow> before c r b now < q + off c) \<and>
    \<bar>t - (before c r b now - (if admitted x then q else 0))\<bar> \<le> off c"
proof -
  note c = bucket_sizesD [OF sizes]
  obtain L where L: "bucket_life (Fin c) (Fin r) = Ms L" "integer_arg (Ms L) = Some L" "0 < L" "life c r = L"
    using bucket_life_bounds [OF sizes] by (metis life_def option.sel)
  obtain l0 ts0 where l0: "0 \<le> l0" "l0 \<le> c" "nearest l0 = l0" "ts0 \<le> now" "now - ts0 < 2 ^ 53" "before c r b now = c - max 0 (l0 - flow r ts0 now)"
    and reads: "is_hash (db s) key" "(case lua_tonumber (bulk_reply (map_of (hashv (db s) key) ''level'')) of None \<Rightarrow> Fin 0 | Some x \<Rightarrow> x) = Fin l0"
      "(case lua_tonumber (bulk_reply (map_of (hashv (db s) key) ''ts'')) of None \<Rightarrow> Ms now | Some x \<Rightarrow> x) = Ms ts0"
    by (rule level_read [OF c(1) b past])
  obtain x where x: "drain (Fin r) (Fin l0) (Ms ts0) (Ms now) = Fin x" "\<bar>x - (c - before c r b now)\<bar> \<le> slack c" "0 \<le> x" "x \<le> l0" "nearest x = x"
  proof (rule drain_close [OF sizes l0(1,2,3,4,5)])
    fix y
    assume "drain (Fin r) (Fin l0) (Ms ts0) (Ms now) = Fin y" "\<bar>y - max 0 (l0 - flow r ts0 now)\<bar> \<le> slack c" "0 \<le> y" "y \<le> l0" "nearest y = y"
    then show thesis using that [of y] l0(6) by simp
  qed
  have xc: "x \<le> c" using x(4) l0(2) by simp
  let ?s2 = "after R (HGET key ''ts'') (after R (HGET key ''level'') s)"
  have s2: "db ?s2 = db s" "clock ?s2 = clock s" using bucket_reads [OF reads(1)] by simp_all
  have off: "off c = 2 * slack c" "0 < slack c" using c(1) by (simp_all add: off_def slack_def)
  note am = amounts [OF sizes x(3) xc q(1,2)]
  let ?t = "nearest (x + q)"
  have sum: "f64_round (x + q) = Fin ?t" using am(2) by simp
  show ?thesis
  proof (cases "?t \<le> c")
    case True
    have close: "\<bar>c - ?t - (before c r b now - q)\<bar> \<le> off c" "q \<le> before c r b now + off c" using am(4) x(2) True off by linarith+
    have t: "0 \<le> ?t" using nearest_nonneg [of "x + q"] x q by simp
    obtain s' h where "ratelimit_leaky R impl key (Fin c) (Fin r) (Ms now) (Fin q) s = (Inr (table3 impl (Fin 1, Fin 0, Fin 0)), s')"
      "clock s' = clock s" "db s' key = Some (VHash h, Some (clock s + L))" "map_of h ''level'' = Some (Num ?t)" "map_of h ''ts'' = Some (inum now)"
      using bucket_writes [of ?s2 key c r L "''level''" "''ts''" "Num ?t" "inum now" "table3 impl (Fin 1, Fin 0, Fin 0)"] reads(1) L s2 True
      by (auto simp: ratelimit_leaky_def bucket_reads [OF reads(1)] reads x(1) sum inum_def Let_def)
    then show ?thesis using close t True L(4) by (intro exI [of _ "c - ?t"]) (auto simp: level_at_def)
  next
    case False
    let ?w = "f64_ceil (f64_mul (f64_div (f64_sub (Fin ?t) (Fin c)) (Fin r)) (Fin 1000))"
    have "c < x + q" using nearest_le [of "x + q" c] c(1,8) False by (cases "x + q \<le> c") auto
    then have close: "\<bar>c - x - before c r b now\<bar> \<le> off c" "before c r b now < q + off c" using x(2) off by linarith+
    obtain s' h where "ratelimit_leaky R impl key (Fin c) (Fin r) (Ms now) (Fin q) s = (Inr (table3 impl (Fin 0, Fin 0, ?w)), s')"
      "clock s' = clock s" "db s' key = Some (VHash h, Some (clock s + L))" "map_of h ''level'' = Some (Num x)" "map_of h ''ts'' = Some (inum now)"
      using bucket_writes [of ?s2 key c r L "''level''" "''ts''" "Num x" "inum now" "table3 impl (Fin 0, Fin 0, ?w)"] reads(1) L s2 False
      by (auto simp: ratelimit_leaky_def bucket_reads [OF reads(1)] reads x(1) sum inum_def Let_def)
    then show ?thesis using close x xc L(4) by (intro exI [of _ "c - x"]) (auto simp: level_at_def)
  qed
qed

end

sublocale redis_server \<subseteq> tokens: bucket_script R clock db c r "\<lambda>now q. ratelimit R impl key (Fin c) (Fin r) (Ms now) (Fin q)" "tokens_at c key"
  for c r impl key
proof unfold_locales
  show "tokens_at c key d (Some (t, ts, e)) \<Longrightarrow> 0 \<le> t \<and> t \<le> c" for d t ts e by (auto simp: tokens_at_def)
next
  fix s T b
  assume "clock s \<le> T" "tokens_at c key (db s) b"
  then show "tokens_at c key (db (elapse R T s)) b \<or> (\<exists>t ts e. b = Some (t, ts, e) \<and> e \<le> T \<and> tokens_at c key (db (elapse R T s)) None)"
    using bucket_lapse [of s T key] elapse_absent [of s T key] by (auto simp: tokens_at_def split: option.splits)
qed (rule ratelimit_decides; assumption)

sublocale redis_server \<subseteq> leaky: bucket_script R clock db c r "\<lambda>now q. ratelimit_leaky R impl key (Fin c) (Fin r) (Ms now) (Fin q)" "level_at c key"
  for c r impl key
proof unfold_locales
  show "level_at c key d (Some (t, ts, e)) \<Longrightarrow> 0 \<le> t \<and> t \<le> c" for d t ts e by (auto simp: level_at_def)
next
  fix s T b
  assume "clock s \<le> T" "level_at c key (db s) b"
  then show "level_at c key (db (elapse R T s)) b \<or> (\<exists>t ts e. b = Some (t, ts, e) \<and> e \<le> T \<and> level_at c key (db (elapse R T s)) None)"
    using bucket_lapse [of s T key] elapse_absent [of s T key] by (auto simp: level_at_def split: option.splits)
qed (rule ratelimit_leaky_decides; assumption)

context redis_server
begin

lemmas tokens_budget = tokens.budget
lemmas tokens_like_ideal = tokens.like_ideal
lemmas leaky_like_ideal = leaky.like_ideal

end

section \<open>Properties\<close>

text \<open>
  C6: The budget of a token bucket, for decisions whose client times do not go back from one
  decision to the next and keep up with the server's clock to the second (\<open>steady\<close>). What a bucket
  admits from one decision to a later one is then at most its capacity and what flows in between
  them, up to rounding: less than one part in \<open>2\<^sup>4\<^sup>8\<close> of the capacity for each decision. This
  includes buckets that expire on the server in between.
\<close>

theorem token_budget:
  assumes server: "redis_server R clock db" and sizes: "bucket_sizes c r"
    and b: "tokens_at c key (db s) b" "bucket_past b now" and T: "clock s \<le> T"
    and ds: "ds = (T, now, q) # rest" "steady ds" "plausible c ds"
  shows "spent ds (fst (script_run R (map (\<lambda>(T, now, q). (T, ratelimit R impl key (Fin c) (Fin r) (Ms now) (Fin q))) ds) s)) \<le>
    c + flow r now (fst (snd (last ds))) + of_nat (length ds) * (c / 2 ^ 48)"
  using redis_server.tokens_budget [OF server sizes b T, of q rest impl] ds by (simp add: off_def)

text \<open>
  C16: The leaky bucket is the token bucket seen from the other side. Started on the same fresh
  limiter, the two scripts take the same decisions, which are those of the token bucket in exact
  arithmetic, for every sequence of requests in which none is within rounding distance of what
  is available, with client times as in \<open>steady\<close>. In particular the leaky bucket admits at once
  every burst that is below its capacity by more than the rounding.
\<close>

theorem leaky_is_token_bucket:
  assumes server: "redis_server R clock db" and sizes: "bucket_sizes c r"
    and fresh: "db s key = None" and T: "clock s \<le> T"
    and ds: "ds = (T, now, q) # rest" "steady ds" "plausible c ds" "clear c r 0 c now ds"
  shows "map admitted (fst (script_run R (map (\<lambda>(T, now, q). (T, ratelimit_leaky R impl key (Fin c) (Fin r) (Ms now) (Fin q))) ds) s)) =
      map admitted (fst (script_run R (map (\<lambda>(T, now, q). (T, ratelimit R impl key (Fin c) (Fin r) (Ms now) (Fin q))) ds) s)) \<and>
    map admitted (fst (script_run R (map (\<lambda>(T, now, q). (T, ratelimit R impl key (Fin c) (Fin r) (Ms now) (Fin q))) ds) s)) =
      ideal c r c now ds"
proof -
  have "level_at c key (db s) None" "tokens_at c key (db s) None" using fresh by (simp_all add: level_at_def tokens_at_def)
  then show ?thesis
    using redis_server.leaky_like_ideal [OF server sizes _ T, of key now q rest impl]
      redis_server.tokens_like_ideal [OF server sizes _ T, of key now q rest impl] ds by simp
qed

section \<open>Witnesses\<close>

lemma wit_sizes: "bucket_sizes 5 2"
proof -
  have "(1 :: rat) / 2 ^ 400 \<le> 1" by (simp add: divide_le_eq_1)
  moreover have "(8 :: rat) \<le> 2 ^ 400" using power_increasing [of 3 400 "2 :: rat"] by simp
  moreover have "nearest 5 = 5" using nearest_of_int [of 5] by simp
  ultimately show ?thesis unfolding bucket_sizes_def by simp
qed

definition wit_decisions :: "decision list" where "wit_decisions = [(10, 1000, 3), (20, 1010, 4)]"

lemma wit_plausible: "plausible 5 wit_decisions" "steady wit_decisions"
  using nearest_of_int [of 3] nearest_of_int [of 4] by (simp_all add: plausible_def wit_decisions_def)

theorem token_budget_witness:
  "spent wit_decisions (fst (script_run mem_redis (map (\<lambda>(T, now, q).
      (T, ratelimit mem_redis (\<lambda>_. 0) ''l'' (Fin 5) (Fin 2) (Ms now) (Fin q))) wit_decisions) empty_mem)) \<le> 5 + 1 / 50 + 2 * (5 / 2 ^ 48)"
  using token_budget [OF mem_server wit_sizes, of "''l''" empty_mem None 1000 10 wit_decisions 3 "[(20, 1010, 4)]" "\<lambda>_. 0"] wit_plausible
  by (simp add: tokens_at_def empty_mem_db bucket_past_def empty_lock(3) wit_decisions_def flow_def)

theorem leaky_is_token_bucket_witness:
  "map admitted (fst (script_run mem_redis (map (\<lambda>(T, now, q).
      (T, ratelimit_leaky mem_redis (\<lambda>_. 0) ''l'' (Fin 5) (Fin 2) (Ms now) (Fin q))) wit_decisions) empty_mem)) = [True, False]"
  using leaky_is_token_bucket [OF mem_server wit_sizes, of empty_mem "''l''" 10 wit_decisions 1000 3 "[(20, 1010, 4)]" "\<lambda>_. 0"] wit_plausible
  by (simp add: empty_mem_db empty_lock(3) wit_decisions_def flow_def off_def)

end
