(* ===== verification/Windows.thy ===== *)
theory Windows
  imports Buckets
begin

text \<open>
  The windowed algorithms of the rate limiter: \<^verbatim>\<open>ratelimit_fixed.lua\<close> and
  \<^verbatim>\<open>ratelimit_sliding.lua\<close>.
\<close>

section \<open>The scripts\<close>

definition lua_float :: "reply \<Rightarrow> f64" where
  "lua_float x = (case lua_tonumber x of Some y \<Rightarrow> y | None \<Rightarrow> NaN)"

definition ratelimit_fixed :: "'s redis \<Rightarrow> (f64 \<Rightarrow> int) \<Rightarrow> string \<Rightarrow> f64 \<Rightarrow> f64 \<Rightarrow> f64 \<Rightarrow> int \<Rightarrow> ('s, sreply) lua" where
  "ratelimit_fixed R impl windowKey limit windowMs now requested =
     (let w = f64_floor (f64_div now windowMs) in
      invoke R (INCRBY windowKey requested) (\<lambda>count.
        pexpire R windowKey (f64_mul windowMs (Fin 2))
          (let retryMs = f64_sub (f64_mul (f64_add w (Fin 1)) windowMs) now in
           if f64_less limit (lua_float count)
           then invoke R (DECRBY windowKey requested) (\<lambda>_. lua_return (table3 impl (Fin 0, Fin 0, retryMs)))
           else lua_return (table3 impl (Fin 1, f64_sub limit (lua_float count), retryMs)))))"

text \<open>
  The times of the sliding window are integers, which a Lua number holds exactly. A member is
  the prefix and the number of the request, which Lua writes as a decimal (up to 14 digits).
\<close>

definition sliding_members :: "string \<Rightarrow> int \<Rightarrow> string list" where
  "sliding_members prefix n = map (\<lambda>i. prefix @ '':'' @ Itoa i) [0..<nat n]"

definition oldest_score :: "reply \<Rightarrow> f64 option" where
  "oldest_score x = (case x of RArr (_ # b # _) \<Rightarrow> lua_tonumber (RBulk b) | _ \<Rightarrow> None)"

definition ratelimit_sliding ::
  "'s redis \<Rightarrow> (f64 \<Rightarrow> int) \<Rightarrow> string \<Rightarrow> f64 \<Rightarrow> int \<Rightarrow> int \<Rightarrow> int \<Rightarrow> string \<Rightarrow> ('s, sreply) lua" where
  "ratelimit_sliding R impl key limit windowMs now requested prefix =
     invoke R (ZREMRANGEBYSCORE key (now - windowMs)) (\<lambda>_. invoke R (ZCARD key) (\<lambda>used.
       if f64_less limit (f64_add (lua_float used) (Ms requested))
       then invoke R (ZRANGE_0_0_WITHSCORES key) (\<lambda>oldest.
         let retryMs = (case oldest_score oldest of
               None \<Rightarrow> Ms windowMs
             | Some x \<Rightarrow> f64_sub (Ms windowMs) (f64_sub (Ms now) x))
         in pexpire R key (f64_mul (Ms windowMs) (Fin 2)) (lua_return (table3 impl (Fin 0, Fin 0, retryMs))))
       else zadd_each R key now (sliding_members prefix requested)
         (pexpire R key (f64_mul (Ms windowMs) (Fin 2))
           (lua_return (table3 impl (Fin 1, f64_sub (f64_sub limit (lua_float used)) (Ms requested), Fin 0))))))"

section \<open>Counting in a Lua number\<close>

lemma f64_of_int_exact: "\<bar>n\<bar> < 2 ^ 53 \<Longrightarrow> f64_round (of_int n) = Ms n"
proof -
  assume n: "\<bar>n\<bar> < 2 ^ 53"
  have "(of_int \<bar>n\<bar> :: rat) \<le> of_int (2 ^ 53)" using n by (simp only: of_int_le_iff)
  also have "\<dots> \<le> 2 ^ 1023" by (simp only: of_int_power of_int_numeral) (rule power_increasing, simp_all)
  finally have "f64_round (of_int n) = Fin (nearest (of_int n))" by (intro f64_round_Fin) (simp only: of_int_abs)
  then show ?thesis by (simp only: nearest_of_int [OF n])
qed

text \<open>A count is compared exactly with a limit below \<open>2\<^sup>5\<^sup>3\<close>, also where it is not itself exact.\<close>

lemma count_less:
  assumes "0 \<le> n" "n < 2 ^ 54" and "L < 2 ^ 53"
  shows "f64_less (Fin L) (f64_round (of_int n)) \<longleftrightarrow> L < of_int n"
proof (cases "n < 2 ^ 53")
  case True
  then show ?thesis using assms(1) by (simp only: f64_of_int_exact abs_of_nonneg f64_less.simps)
next
  case False
  have "(of_int n :: rat) \<le> of_int (2 ^ 54)" using assms(2) by (simp only: of_int_le_iff)
  also have "\<dots> \<le> 2 ^ 200" by (simp only: of_int_power of_int_numeral) (rule power_increasing, simp_all)
  finally have r: "f64_round (of_int n) = Fin (nearest (of_int n))" using assms(1) by (intro f64_round_small) simp_all
  have y: "(2 ^ 53 :: rat) \<le> of_int n" using False by (simp flip: of_int_le_iff)
  have "nearest (2 ^ 53) = 2 ^ 53" using nearest_grid [of 1 53] by simp
  then have "2 ^ 53 \<le> nearest (of_int n)" using nearest_ge [OF y] by simp
  then show ?thesis using r y assms(3) by simp
qed

lemma window_twice:
  assumes "1 \<le> W" "W < 2 ^ 50"
  shows "f64_mul (Ms W) (Fin 2) = Ms (2 * W)" "integer_arg (Ms (2 * W)) = Some (2 * W)"
proof -
  have "f64_mul (Ms W) (Fin 2) = f64_round (of_int (2 * W))" by (simp add: mult.commute)
  also have "\<dots> = Ms (2 * W)" using assms by (intro f64_of_int_exact) simp
  finally show "f64_mul (Ms W) (Fin 2) = Ms (2 * W)" .
  have "2 * W < 2 ^ 51" using assms by simp
  then have "(of_int (2 * W) :: rat) < of_int (2 ^ 51)" by (simp only: of_int_less_iff)
  then show "integer_arg (Ms (2 * W)) = Some (2 * W)" using assms by (simp add: integer_arg_def del: of_int_mult)
qed

lemma pexpire_window: "1 \<le> W \<Longrightarrow> W < 2 ^ 50 \<Longrightarrow> pexpire R key (f64_mul (Ms W) (Fin 2)) m = invoke R (PEXPIRE key (2 * W)) (\<lambda>_. m)"
  by (simp add: pexpire_def window_twice del: f64_mul.simps of_int_mult)

lemma lua_float_RInt [simp]: "lua_float (RInt n) = f64_of_int n"
  by (simp add: lua_float_def)

section \<open>Fixed window\<close>

text \<open>The reference: first come, first served, up to the limit.\<close>

fun greedy :: "rat \<Rightarrow> int \<Rightarrow> int list \<Rightarrow> bool list" where
  "greedy L n [] = []"
| "greedy L n (q # qs) = (let ok = of_int (n + q) \<le> L in ok # greedy L (if ok then n + q else n) qs)"



text \<open>
  Decisions on one window key: client clocks may go back and forth within the window, and the
  server's time between two decisions exceeds theirs by at most a window.
\<close>

fun same_window :: "int \<Rightarrow> int \<Rightarrow> (int \<times> int \<times> int) list \<Rightarrow> bool" where
  "same_window W w [] = True"
| "same_window W w [(T, now, q)] = (now div W = w)"
| "same_window W w ((T, now, q) # (T', now', q') # ds) =
     (now div W = w \<and> T \<le> T' \<and> T' - T - W \<le> now' - now \<and> same_window W w ((T', now', q') # ds))"

lemma same_window_head: "same_window W w ((T, now, q) # ds) \<Longrightarrow> now div W = w"
  by (cases ds) auto

lemma window_span: "0 < W \<Longrightarrow> a div W = b div W \<Longrightarrow> a - b < (W :: int)"
  using pos_mod_sign [of W b] pos_mod_bound [of W a] div_mult_mod_eq [of a W] div_mult_mod_eq [of b W] by (smt (verit))

definition window_at :: "keyspace \<Rightarrow> string \<Rightarrow> int \<Rightarrow> int \<Rightarrow> bool" where
  "window_at d key n e = (d key = Some (VStr (inum n), Some e))"

context redis_server
begin

lemma ratelimit_fixed_step:
  assumes cnt: "counter (db s) key = Some n" "0 \<le> n" and q: "0 \<le> q" and L: "of_int n \<le> L" "of_int q \<le> L" "L < 2 ^ 53"
    and W: "1 \<le> W" "W < 2 ^ 50"
  shows "\<exists>x s'. ratelimit_fixed R impl key (Fin L) (Ms W) now q s = (x, s') \<and> clock s' = clock s \<and>
    admitted x = (of_int (n + q) \<le> L) \<and> window_at (db s') key (if of_int (n + q) \<le> L then n + q else n) (clock s + 2 * W) \<and>
    (\<forall>k. k \<noteq> key \<longrightarrow> db s' k = db s k) \<and>
    (\<exists>a b. x = Inr (table3 impl (a, b, f64_sub (f64_mul (f64_add (f64_floor (f64_div now (Ms W))) (Fin 1)) (Ms W)) now)) \<and>
       a = (if of_int (n + q) \<le> L then Fin 1 else Fin 0))"
proof -
  have lim: "L < of_int (2 ^ 53)" using L(3) by simp
  have "(of_int n :: rat) < of_int (2 ^ 53)" "(of_int q :: rat) < of_int (2 ^ 53)" using L(1,2) lim by linarith+
  then have b: "n < 2 ^ 53" "q < 2 ^ 53" by (simp_all only: of_int_less_iff)
  have ov: "\<bar>n + q\<bar> < 2 ^ 63" "\<bar>n + q + - q\<bar> < 2 ^ 63" using cnt(2) q b by simp_all
  let ?s1 = "after R (INCRBY key q) s"
  let ?s2 = "after R (PEXPIRE key (2 * W)) ?s1"
  have s1: "db ?s1 = put_str (db s) key (inum (n + q))" using cnt(1) ov(1) by (simp add: redis_step)
  have s2: "db ?s2 key = Some (VStr (inum (n + q)), Some (clock s + 2 * W))" "clock ?s2 = clock s"
    "\<forall>k. k \<noteq> key \<longrightarrow> db ?s2 k = db s k"
    using W(1) by (simp_all add: redis_step s1 put_str_def set_ttl_def)
  have less: "f64_less (Fin L) (f64_of_int (n + q)) \<longleftrightarrow> L < of_int (n + q)"
    unfolding f64_of_int_def using cnt(2) q b L(3) by (intro count_less) simp_all
  have eq: "ratelimit_fixed R impl key (Fin L) (Ms W) now q s =
      (let retryMs = f64_sub (f64_mul (f64_add (f64_floor (f64_div now (Ms W))) (Fin 1)) (Ms W)) now in
       if L < of_int (n + q)
       then invoke R (DECRBY key q) (\<lambda>_. lua_return (table3 impl (Fin 0, Fin 0, retryMs)))
       else lua_return (table3 impl (Fin 1, f64_sub (Fin L) (f64_of_int (n + q)), retryMs))) ?s2"
    using cnt(1) ov(1) by (simp add: ratelimit_fixed_def redis_step pexpire_window [OF W] less Let_def del: f64_mul.simps of_int_add)
  show ?thesis
  proof (cases "of_int (n + q) \<le> L")
    case True
    then show ?thesis using eq s2 by (auto simp: lua_return_def window_at_def Let_def)
  next
    case False
    have c2: "counter (db ?s2) key = Some (n + q)" using s2(1) by (simp add: counter_def inum_def)
    then have "db (after R (DECRBY key q) ?s2) = put_str (db ?s2) key (inum n)" using ov(2) write_after(4) [OF c2, of "- q"] by simp
    then show ?thesis using eq s2 False c2 ov(2)
      by (auto simp: redis_step lua_return_def window_at_def put_str_def ttlv_def Let_def)
  qed
qed

lemma fixed_run:
  assumes W: "1 \<le> W" "W < 2 ^ 50" and L: "L < 2 ^ 53" and n: "0 \<le> n" "of_int n \<le> L" and at: "window_at (db s) key n (clock s + 2 * W)"
    and ds: "same_window W w ((clock s, now0, q0) # ds)" "\<forall>(T, now, q) \<in> set ds. 0 \<le> q \<and> of_int q \<le> L"
  shows "map admitted (fst (script_run R (map (\<lambda>(T, now, q). (T, ratelimit_fixed R impl key (Fin L) (Ms W) (Ms now) q)) ds) s)) =
    greedy L n (map (\<lambda>(T, now, q). q) ds)"
  using n at ds
proof (induction ds arbitrary: s n now0 q0)
  case (Cons d ds)
  obtain T now q where d: "d = (T, now, q)" by (metis prod_cases3)
  have st: "now0 div W = w" "clock s \<le> T" "T - clock s - W \<le> now - now0" "same_window W w ((T, now, q) # ds)" "0 \<le> q" "of_int q \<le> L"
    using Cons.prems(4,5) d by simp_all
  have "now - now0 < W" using window_span [of W now now0] W(1) st(1) same_window_head [OF st(4)] by simp
  then have "T < clock s + 2 * W" using st(3) by simp
  then have el: "db (elapse R T s) key = Some (VStr (inum n), Some (clock s + 2 * W))"
    using elapse_live [OF st(2)] Cons.prems(3) by (simp add: window_at_def)
  have "counter (db (elapse R T s)) key = Some n" using el by (simp add: counter_def inum_def)
  then obtain x s' where step: "ratelimit_fixed R impl key (Fin L) (Ms W) (Ms now) q (elapse R T s) = (x, s')" "clock s' = T"
    "admitted x = (of_int (n + q) \<le> L)" "window_at (db s') key (if of_int (n + q) \<le> L then n + q else n) (clock s' + 2 * W)"
    using ratelimit_fixed_step [OF _ Cons.prems(1) st(5) Cons.prems(2) st(6) L W] clock_elapse [OF st(2)] by metis
  have "map admitted (fst (script_run R (map (\<lambda>(T, now, q). (T, ratelimit_fixed R impl key (Fin L) (Ms W) (Ms now) q)) ds) s')) =
      greedy L (if of_int (n + q) \<le> L then n + q else n) (map (\<lambda>(T, now, q). q) ds)"
    by (rule Cons.IH) (use Cons.prems step st d in auto)
  then show ?case using step(1,3) d by (simp add: Let_def)
qed simp

end

section \<open>Sliding window\<close>

text \<open>
  The reference: a log of what was admitted and when, newest first; a request is admitted when
  it fits into the window that ends with it.
\<close>

definition in_window :: "int \<Rightarrow> (int \<times> int) list \<Rightarrow> int" where
  "in_window lo lg = sum_list (map snd (filter (\<lambda>e. lo < fst e) lg))"

fun rolling :: "rat \<Rightarrow> int \<Rightarrow> (int \<times> int) list \<Rightarrow> (int \<times> int \<times> int \<times> string) list \<Rightarrow> bool list \<times> (int \<times> int) list" where
  "rolling L W lg [] = ([], lg)"
| "rolling L W lg ((T, now, q, p) # ds) =
     (let ok = of_int (in_window (now - W) lg + q) \<le> L;
          (oks, lg') = rolling L W (if ok then (now, q) # lg else lg) ds
      in (ok # oks, lg'))"

lemma rolling_Cons:
  assumes "ok = (of_int (in_window (now - W) lg + q) \<le> L)" and "lg' = (if ok then (now, q) # lg else lg)"
  shows "rolling L W lg ((T, now, q, p) # ds) = (ok # fst (rolling L W lg' ds), snd (rolling L W lg' ds))"
  using assms by (simp only: rolling.simps Let_def split: prod.splits) simp

declare rolling.simps(2) [simp del]

lemma in_window_simps [simp]:
  "in_window lo [] = 0" "in_window lo ((now, q) # lg) = (if lo < now then q else 0) + in_window lo lg"
  by (simp_all add: in_window_def)

text \<open>Clients' clocks do not go back, and lose at most a window against the server.\<close>

fun sliding_steady :: "int \<Rightarrow> (int \<times> int \<times> int \<times> string) list \<Rightarrow> bool" where
  "sliding_steady W ((T, now, q, p) # (T', now', q', p') # ds) =
     (T \<le> T' \<and> now \<le> now' \<and> T' - T - W \<le> now' - now \<and> sliding_steady W ((T', now', q', p') # ds))"
| "sliding_steady W _ = True"

text \<open>The prefixes are hexadecimal tokens and all different.\<close>

definition sliding_calls :: "rat \<Rightarrow> (int \<times> int \<times> int \<times> string) list \<Rightarrow> bool" where
  "sliding_calls L ds = ((\<forall>(T, now, q, p) \<in> set ds. 1 \<le> q \<and> of_int q \<le> L \<and> CHR '':'' \<notin> set p) \<and>
     distinct (map (\<lambda>(T, now, q, p). p) ds))"

definition prefix_of :: "string \<Rightarrow> string" where "prefix_of m = takeWhile (\<lambda>x. x \<noteq> CHR '':'') m"

lemma prefix_of_member: "CHR '':'' \<notin> set p \<Longrightarrow> m \<in> set (sliding_members p n) \<Longrightarrow> prefix_of m = p"
proof -
  assume p: "CHR '':'' \<notin> set p" and "m \<in> set (sliding_members p n)"
  then obtain i where "m = p @ CHR '':'' # Itoa i" by (auto simp: sliding_members_def)
  moreover have "takeWhile (\<lambda>x. x \<noteq> CHR '':'') (p @ CHR '':'' # u) = p" for u using p by (induction p) auto
  ultimately show "prefix_of m = p" by (simp add: prefix_of_def)
qed

lemma sliding_members_distinct: "distinct (sliding_members p n)" "length (sliding_members p n) = nat n"
  by (auto simp: sliding_members_def distinct_map inj_on_def dest: inj_Itoa)

text \<open>Adding fresh members to a sorted set, and counting by score.\<close>

definition above :: "int \<Rightarrow> zset \<Rightarrow> int" where "above lo z = int (length (filter (\<lambda>p. lo < snd p) z))"

lemma above_zadd: "m \<notin> fst ` set z \<Longrightarrow> above lo (zadd m sc z) = above lo z + (if lo < sc then 1 else 0)"
proof -
  assume m: "m \<notin> fst ` set z"
  have "zrem m z = z" using m by (auto simp: zrem_def intro!: filter_True)
  moreover have "above lo (zinsert (m, sc) z) = above lo z + (if lo < sc then 1 else 0)" for z
    by (induction z) (auto simp: above_def)
  ultimately show ?thesis by (simp add: zadd_def)
qed

lemma above_fold_zadd:
  "distinct ms \<Longrightarrow> set ms \<inter> fst ` set z = {} \<Longrightarrow>
    above lo (fold (\<lambda>m. zadd m sc) ms z) = above lo z + (if lo < sc then int (length ms) else 0)"
proof (induction ms arbitrary: z)
  case (Cons m ms)
  have "fst ` set (zadd m sc z) = insert m (fst ` {p \<in> set z. fst p \<noteq> m})" by (auto simp: set_zadd)
  then have "set ms \<inter> fst ` set (zadd m sc z) = {}" using Cons.prems by auto
  then show ?case using Cons.IH [of "zadd m sc z"] Cons.prems above_zadd [of m z lo sc] by simp
qed simp

lemma above_reclaim: "lo \<le> lo' \<Longrightarrow> above lo' (reclaim lo z) = above lo' z"
  unfolding above_def reclaim_def filter_filter by (rule arg_cong [of _ _ "\<lambda>x. int (length x)"], rule filter_cong) auto

lemma above_all: "above lo (reclaim lo z) = int (length (reclaim lo z))"
  by (simp add: above_def reclaim_def)

lemma above_length: "above lo z \<le> int (length z)"
  by (simp add: above_def)

text \<open>The sorted set represents the log from a time on.\<close>

definition logs :: "int \<Rightarrow> string set \<Rightarrow> (int \<times> int) list \<Rightarrow> zset \<Rightarrow> bool" where
  "logs lo P lg z = ((\<forall>m \<in> fst ` set z. prefix_of m \<in> P) \<and> (\<forall>lo' \<ge> lo. above lo' z = in_window lo' lg))"

definition sliding_at :: "keyspace \<Rightarrow> string \<Rightarrow> zset \<Rightarrow> int \<Rightarrow> bool" where
  "sliding_at d key z e = (if z = [] then d key = None else d key = Some (VZset z, Some e))"

lemma logs_reclaim: "logs lo P lg z \<Longrightarrow> lo \<le> lo' \<Longrightarrow> logs lo' P lg (reclaim lo' z)"
  by (auto simp: logs_def above_reclaim) (auto simp: reclaim_def)

lemma logs_add:
  assumes "logs lo P lg z" and p: "p \<notin> P" "CHR '':'' \<notin> set p" and "0 \<le> q"
  shows "logs lo (insert p P) ((now, q) # lg) (fold (\<lambda>m. zadd m now) (sliding_members p q) z)"
proof -
  let ?ms = "sliding_members p q" and ?z = "fold (\<lambda>m. zadd m now) (sliding_members p q) z"
  have "set ?ms \<inter> fst ` set z = {}" using assms(1) prefix_of_member [OF p(2)] p(1) by (force simp: logs_def)
  then have "above lo' ?z = above lo' z + (if lo' < now then q else 0)" for lo'
    using above_fold_zadd [of ?ms z lo' now] sliding_members_distinct [of p q] assms(4) by simp
  moreover have "prefix_of m \<in> insert p P" if "m \<in> fst ` set ?z" for m
  proof -
    have "m \<in> dom (map_of ?z)" using that by (simp add: dom_map_of_conv_image_fst)
    then have "m \<in> set ?ms \<or> m \<in> dom (map_of z)" by (auto simp: map_of_fold_zadd split: if_splits)
    then show ?thesis using assms(1) prefix_of_member [OF p(2)] by (auto simp: logs_def dom_map_of_conv_image_fst)
  qed
  ultimately show ?thesis using assms(1) by (auto simp: logs_def)
qed

text \<open>What a purge has dropped is gone for earlier times as well: the set counts them as if they had not been.\<close>

lemma logs_purged:
  assumes "logs lo P lg z" "int (length z) = above lo z" "lo' \<le> lo"
  shows "logs lo' P (filter (\<lambda>e. lo < fst e) lg) z"
proof -
  have "filter (\<lambda>p. lo < snd p) z = z" using assms(2) by (simp add: above_def) (metis length_filter_less filter_True less_irrefl)
  then have new: "\<forall>p \<in> set z. lo < snd p" by (simp add: filter_id_conv)
  have "above x z = in_window x (filter (\<lambda>e. lo < fst e) lg)" for x
  proof (cases "lo \<le> x")
    case True
    then have "in_window x (filter (\<lambda>e. lo < fst e) lg) = in_window x lg"
      unfolding in_window_def filter_filter by (intro arg_cong [of _ _ "\<lambda>l. sum_list (map snd l)"] filter_cong) auto
    then show ?thesis using assms(1) True by (simp add: logs_def)
  next
    case False
    then have "filter (\<lambda>p. x < snd p) z = z" "filter (\<lambda>e. lo < fst e \<and> x < fst e) lg = filter (\<lambda>e. lo < fst e) lg"
      using new by (auto intro!: filter_True filter_cong)
    moreover have "above lo z = in_window lo lg" using assms(1) by (simp add: logs_def)
    ultimately show ?thesis using assms(2) by (simp add: above_def in_window_def conj_commute)
  qed
  then show ?thesis using assms(1) by (simp add: logs_def)
qed

context redis_server
begin

lemma sliding_reject:
  assumes z: "is_zset (db s) key" "zsetv (db s) key = z" and W: "1 \<le> W" "W < 2 ^ 50"
  shows "\<exists>s'. invoke R (ZRANGE_0_0_WITHSCORES key) (\<lambda>oldest.
      let retryMs = (case oldest_score oldest of None \<Rightarrow> Ms W | Some x \<Rightarrow> f64_sub (Ms W) (f64_sub (Ms now) x))
      in pexpire R key (f64_mul (Ms W) (Fin 2)) (lua_return (table3 impl (Fin 0, Fin 0, retryMs)))) s =
        (Inr (table3 impl (Fin 0, Fin 0,
           case z of [] \<Rightarrow> Ms W | p # _ \<Rightarrow> f64_sub (Ms W) (f64_sub (Ms now) (Ms (snd p))))), s') \<and>
    clock s' = clock s \<and> sliding_at (db s') key z (clock s + 2 * W)"
proof -
  have "db s key = (if z = [] then None else Some (VZset z, ttlv (db s) key))"
    using z zsetv_empty [OF z(1)] by (auto simp: zsetv_def is_zset_def ttlv_def split: option.splits rval.splits)
  then show ?thesis using z W
    by (cases z) (auto simp: redis_step pexpire_window [OF W] lua_return_def sliding_at_def set_ttl_def oldest_score_def inum_def Let_def
        simp del: f64_mul.simps of_int_add)
qed

lemma sliding_admit:
  assumes z: "is_zset (db s) key" "zsetv (db s) key = z" and W: "1 \<le> W" "W < 2 ^ 50" and ms: "ms \<noteq> []"
  shows "\<exists>s'. zadd_each R key now ms (pexpire R key (f64_mul (Ms W) (Fin 2)) (lua_return x)) s = (Inr x, s') \<and>
    clock s' = clock s \<and> sliding_at (db s') key (fold (\<lambda>m. zadd m now) ms z) (clock s + 2 * W)"
proof -
  let ?z = "fold (\<lambda>m. zadd m now) ms z"
  obtain s1 where s1: "zadd_each R key now ms (pexpire R key (f64_mul (Ms W) (Fin 2)) (lua_return x)) s =
      pexpire R key (f64_mul (Ms W) (Fin 2)) (lua_return x) s1" "clock s1 = clock s" "only_zset (db s) (db s1) key ?z"
    using zadd_each_exec [OF only_zset_refl [OF z(1)]] z(2) by blast
  have ne: "?z \<noteq> []" using ms by (induction ms arbitrary: z rule: rev_induct) auto
  have k: "db s1 key = Some (VZset ?z, ttlv (db s1) key)"
    using only_zset_is [OF s1(3)] ne by (auto simp: zsetv_def is_zset_def ttlv_def split: option.splits rval.splits)
  have "pexpire R key (f64_mul (Ms W) (Fin 2)) (lua_return x) s1 = (Inr x, after R (PEXPIRE key (2 * W)) s1)"
    unfolding pexpire_window [OF W] by (simp add: redis_step lua_return_def)
  moreover have "sliding_at (db (after R (PEXPIRE key (2 * W)) s1)) key ?z (clock s + 2 * W)"
    using k ne W(1) s1(2) by (simp add: redis_step sliding_at_def set_ttl_def)
  ultimately show ?thesis using s1(1,2) by (simp add: redis_step)
qed

lemma sliding_step:
  assumes z: "sliding_at (db s) key z e" "zwf z" "of_int (int (length z)) \<le> L" and lg: "logs lo P lg z" "lo \<le> now - W"
    and p: "p \<notin> P" "CHR '':'' \<notin> set p" and q: "1 \<le> q" "of_int q \<le> L" and L: "L < 2 ^ 53" and W: "1 \<le> W" "W < 2 ^ 50"
    and ok: "ok = (of_int (in_window (now - W) lg + q) \<le> L)"
  shows "\<exists>x s' z'. ratelimit_sliding R impl key (Fin L) W now q p s = (x, s') \<and> clock s' = clock s \<and> admitted x = ok \<and>
    sliding_at (db s') key z' (clock s + 2 * W) \<and> zwf z' \<and> of_int (int (length z')) \<le> L \<and>
    logs (now - W) (insert p P) (if ok then (now, q) # lg else lg) z' \<and> int (length z') = above (now - W) z'"
proof -
  let ?z1 = "reclaim (now - W) z"
  let ?s2 = "after R (ZCARD key) (after R (ZREMRANGEBYSCORE key (now - W)) s)"
  have zs: "is_zset (db s) key" "zsetv (db s) key = z" using z(1) by (auto simp: sliding_at_def is_zset_def zsetv_def split: if_splits)
  have s2: "is_zset (db ?s2) key" "zsetv (db ?s2) key = ?z1" "clock ?s2 = clock s"
    using zs by (simp_all add: redis_step kv reclaim_def)
  have z1: "zwf ?z1" "length ?z1 \<le> length z" using z(2) by (simp_all add: reclaim_def zwf_filter)
  have lg1: "logs (now - W) P lg ?z1" by (rule logs_reclaim [OF lg])
  define u where "u = int (length ?z1)"
  have u: "u = in_window (now - W) lg" "0 \<le> u" using lg1 above_all [of "now - W" z] by (simp_all add: logs_def u_def)
  have uL: "of_int u \<le> L" using z1(2) z(3) by (simp add: u_def)
  have lim: "L < of_int (2 ^ 53)" using L by simp
  have "(of_int u :: rat) < of_int (2 ^ 53)" "(of_int q :: rat) < of_int (2 ^ 53)" using uL q(2) lim by linarith+
  then have b: "u < 2 ^ 53" "q < 2 ^ 53" by (simp_all only: of_int_less_iff)
  have "f64_of_int u = Ms u" unfolding f64_of_int_def using u(2) b(1) by (intro f64_of_int_exact) simp
  then have "f64_add (f64_of_int u) (Ms q) = f64_round (of_int (u + q))" by simp
  then have less: "f64_less (Fin L) (f64_add (f64_of_int u) (Ms q)) \<longleftrightarrow> \<not> ok"
    using count_less [of "u + q" L] u q b L by (auto simp: ok)
  have eq: "ratelimit_sliding R impl key (Fin L) W now q p s =
      (if \<not> ok
       then invoke R (ZRANGE_0_0_WITHSCORES key) (\<lambda>oldest.
         let retryMs = (case oldest_score oldest of None \<Rightarrow> Ms W | Some x \<Rightarrow> f64_sub (Ms W) (f64_sub (Ms now) x))
         in pexpire R key (f64_mul (Ms W) (Fin 2)) (lua_return (table3 impl (Fin 0, Fin 0, retryMs))))
       else zadd_each R key now (sliding_members p q) (pexpire R key (f64_mul (Ms W) (Fin 2))
           (lua_return (table3 impl (Fin 1, f64_sub (f64_sub (Fin L) (f64_of_int u)) (Ms q), Fin 0))))) ?s2"
    using zs by (simp add: ratelimit_sliding_def redis_step kv reclaim_def [symmetric] u_def [symmetric] less del: f64_mul.simps)
  show ?thesis
  proof (cases ok)
    case True
    have ne: "sliding_members p q \<noteq> []" using q(1) by (simp add: sliding_members_def)
    let ?z2 = "fold (\<lambda>m. zadd m now) (sliding_members p q) ?z1"
    have "int (length ?z2) \<le> u + q" using length_fold_zadd [OF z1(1), of now "sliding_members p q"] sliding_members_distinct(2) [of p q] q(1)
      by (simp add: u_def)
    then have "(of_int (int (length ?z2)) :: rat) \<le> of_int (u + q)" by (simp only: of_int_le_iff)
    also have "\<dots> \<le> L" using True ok u(1) by simp
    finally have "of_int (int (length ?z2)) \<le> L" .
    moreover have lg2: "logs (now - W) (insert p P) ((now, q) # lg) ?z2" by (rule logs_add [OF lg1 p]) (use q in simp)
    moreover have "int (length ?z2) = above (now - W) ?z2"
      using \<open>int (length ?z2) \<le> u + q\<close> lg2 u(1) W(1) above_length [of "now - W" ?z2] by (auto simp: logs_def)
    moreover obtain s' where "ratelimit_sliding R impl key (Fin L) W now q p s =
        (Inr (table3 impl (Fin 1, f64_sub (f64_sub (Fin L) (f64_of_int u)) (Ms q), Fin 0)), s')"
      "clock s' = clock s" "sliding_at (db s') key ?z2 (clock s + 2 * W)"
      using sliding_admit [OF s2(1,2) W ne] s2(3) unfolding eq using True by (simp only: not_True_eq_False if_False) blast
    ultimately show ?thesis using True zwf_fold_zadd [OF z1(1), of now "sliding_members p q"]
      by (intro exI [of _ "Inr (table3 impl (Fin 1, f64_sub (f64_sub (Fin L) (f64_of_int u)) (Ms q), Fin 0))"] exI [of _ s'] exI [of _ ?z2])
        (simp only: admitted_table3 if_True simp_thms)
  next
    case False
    have "logs (now - W) (insert p P) lg ?z1" using lg1 by (auto simp: logs_def)
    moreover have "of_int (int (length ?z1)) \<le> L" using uL by (simp add: u_def)
    moreover have "int (length ?z1) = above (now - W) ?z1" by (simp add: above_all)
    moreover obtain s' w where "ratelimit_sliding R impl key (Fin L) W now q p s = (Inr (table3 impl (Fin 0, Fin 0, w)), s')"
      "clock s' = clock s" "sliding_at (db s') key ?z1 (clock s + 2 * W)"
      using sliding_reject [OF s2(1,2) W] s2(3) unfolding eq using False by (simp only: not_False_eq_True if_True) blast
    ultimately show ?thesis using False z1(1)
      by (intro exI [of _ "Inr (table3 impl (Fin 0, Fin 0, w))"] exI [of _ s'] exI [of _ ?z1])
        (simp only: admitted_table3 if_False simp_thms)
  qed
qed

lemma sliding_lapse:
  assumes z: "sliding_at (db s) key z (clock s + 2 * W)" "zwf z" "of_int (int (length z)) \<le> L"
    and lg: "logs (now0 - W) P lg z" "\<forall>e \<in> set lg. fst e \<le> now0"
    and T: "clock s \<le> T" "now0 \<le> now" "T - clock s - W \<le> now - now0" and L: "0 \<le> L"
  obtains z' e where "sliding_at (db (elapse R T s)) key z' e" "zwf z'" "of_int (int (length z')) \<le> L" "logs (now - W) P lg z'"
proof -
  have later: "logs (now - W) P lg z" using lg(1) T(2) by (auto simp: logs_def)
  consider "db (elapse R T s) key = db s key" | "clock s + 2 * W \<le> T" "db (elapse R T s) key = None"
  proof (cases "z = []")
    case True
    then show thesis using that(1) z(1) elapse_absent [OF T(1), of key] by (simp add: sliding_at_def)
  next
    case False
    then have "db s key = Some (VZset z, Some (clock s + 2 * W))" using z(1) by (simp add: sliding_at_def)
    then show thesis using that bucket_lapse [OF T(1)] by metis
  qed
  then show ?thesis
  proof cases
    case 1
    then show ?thesis using that [of z "clock s + 2 * W"] z later by (simp add: sliding_at_def)
  next
    case 2
    have "filter (\<lambda>e. lo < fst e) lg = []" if "now - W \<le> lo" for lo
      using that 2(1) T(3) lg(2) by (fastforce simp: filter_empty_conv)
    then have "logs (now - W) P lg []" by (simp add: logs_def above_def in_window_def)
    then show ?thesis using that [of "[]"] 2(2) L by (simp add: sliding_at_def)
  qed
qed

lemma sliding_kept:
  assumes "sliding_at (db s) key z e" "clock s \<le> T" "T < e"
  shows "sliding_at (db (elapse R T s)) key z e"
  using assms elapse_absent [OF assms(2), of key] bucket_lapse [OF assms(2), of key "VZset z" e]
  by (auto simp: sliding_at_def split: if_splits)

lemma sliding_run:
  assumes W: "1 \<le> W" "W < 2 ^ 50" and L: "L < 2 ^ 53" "0 \<le> L"
    and z: "sliding_at (db s) key z (clock s + 2 * W)" "zwf z" "of_int (int (length z)) \<le> L"
    and lg: "logs (now0 - W) P lg z" "\<forall>e \<in> set lg. fst e \<le> now0"
    and ds: "sliding_steady W ((clock s, now0, q0, p0) # ds)" "sliding_calls L ds" "P \<inter> (\<lambda>(T, now, q, p). p) ` set ds = {}"
  shows "map admitted (fst (script_run R (map (\<lambda>(T, now, q, p). (T, ratelimit_sliding R impl key (Fin L) W now q p)) ds) s)) =
    fst (rolling L W lg ds)"
  using z lg ds
proof (induction ds arbitrary: s z now0 P lg q0 p0)
  case (Cons d ds)
  obtain T now q p where d: "d = (T, now, q, p)" by (metis prod_cases4)
  have st: "clock s \<le> T" "now0 \<le> now" "T - clock s - W \<le> now - now0" "sliding_steady W ((T, now, q, p) # ds)"
    using Cons.prems(6) d by simp_all
  have cl: "1 \<le> q" "of_int q \<le> L" "CHR '':'' \<notin> set p" "sliding_calls L ds" "p \<notin> P"
    "insert p P \<inter> (\<lambda>(T, now, q, p). p) ` set ds = {}"
    using Cons.prems(7,8) by (auto simp: d sliding_calls_def)
  obtain z1 e where z1: "sliding_at (db (elapse R T s)) key z1 e" "zwf z1" "of_int (int (length z1)) \<le> L" "logs (now - W) P lg z1"
    by (rule sliding_lapse [OF Cons.prems(1-5) st(1-3) L(2)])
  define ok where "ok = (of_int (in_window (now - W) lg + q) \<le> L)"
  define lg' where "lg' = (if ok then (now, q) # lg else lg)"
  obtain x s' z2 where step: "ratelimit_sliding R impl key (Fin L) W now q p (elapse R T s) = (x, s')" "clock s' = T" "admitted x = ok"
    and z2: "sliding_at (db s') key z2 (clock s' + 2 * W)" "zwf z2" "of_int (int (length z2)) \<le> L" "logs (now - W) (insert p P) lg' z2"
    using sliding_step [OF z1 order_refl cl(5,3,1,2) L(1) W ok_def, folded lg'_def, of impl] unfolding clock_elapse [OF st(1)] by blast
  have "map admitted (fst (script_run R (map (\<lambda>(T, now, q, p). (T, ratelimit_sliding R impl key (Fin L) W now q p)) ds) s')) =
      fst (rolling L W lg' ds)"
  proof (rule Cons.IH [OF z2 _ _ cl(4,6)])
    show "\<forall>e \<in> set lg'. fst e \<le> now" using Cons.prems(5) st(2) by (auto simp: lg'_def)
    show "sliding_steady W ((clock s', now, q, p) # ds)" using st(4) step(2) by simp
  qed
  moreover have "fst (rolling L W lg (d # ds)) = ok # fst (rolling L W lg' ds)"
    by (simp only: d rolling_Cons [OF ok_def lg'_def] fst_conv)
  ultimately show ?case using step(1,3) by (simp add: d)
qed simp

end

text \<open>The log never holds more than the limit in a window, wherever the window lies.\<close>

fun fits :: "rat \<Rightarrow> int \<Rightarrow> (int \<times> int) list \<Rightarrow> bool" where
  "fits L W [] = True"
| "fits L W ((now, q) # lg) = (0 \<le> q \<and> of_int (in_window (now - W) ((now, q) # lg)) \<le> L \<and> (\<forall>e \<in> set lg. fst e \<le> now) \<and> fits L W lg)"

definition span :: "int \<Rightarrow> int \<Rightarrow> (int \<times> int) list \<Rightarrow> int" where
  "span lo hi lg = sum_list (map snd (filter (\<lambda>e. lo < fst e \<and> fst e \<le> hi) lg))"

lemma fits_nonneg: "fits L W lg \<Longrightarrow> e \<in> set lg \<Longrightarrow> 0 \<le> snd e"
  by (induction L W lg rule: fits.induct) auto

lemma in_window_mono: "(\<forall>e \<in> set lg. 0 \<le> snd e) \<Longrightarrow> lo \<le> lo' \<Longrightarrow> in_window lo' lg \<le> in_window lo lg"
  by (induction lg) auto

lemma span_bound:
  assumes "fits L W lg" and "0 \<le> L" and "0 < W"
  shows "of_int (span (t - W) t lg) \<le> L"
  using assms(1)
proof (induction lg)
  case (Cons e lg)
  obtain now q where e: "e = (now, q)" by fastforce
  show ?case
  proof (cases "now \<le> t")
    case True
    have old: "\<forall>x \<in> set (e # lg). fst x \<le> t" using Cons.prems True by (fastforce simp: e)
    have "span (t - W) t (e # lg) = in_window (t - W) (e # lg)"
      unfolding span_def in_window_def using old by (intro arg_cong [of _ _ "\<lambda>x. sum_list (map snd x)"] filter_cong) auto
    also have "\<dots> \<le> in_window (now - W) (e # lg)"
      by (rule in_window_mono) (use fits_nonneg [OF Cons.prems] True in auto)
    finally have "(of_int (span (t - W) t (e # lg)) :: rat) \<le> of_int (in_window (now - W) (e # lg))" by (simp only: of_int_le_iff)
    also have "\<dots> \<le> L" using Cons.prems by (simp add: e del: in_window_simps)
    finally show ?thesis .
  next
    case False
    then show ?thesis using Cons by (simp add: span_def e)
  qed
qed (simp add: span_def assms(2))

fun sliding_log :: "bool list \<Rightarrow> (int \<times> int \<times> int \<times> string) list \<Rightarrow> (int \<times> int) list" where
  "sliding_log (a # as) ((T, now, q, p) # ds) = (if a then [(now, q)] else []) @ sliding_log as ds"
| "sliding_log _ _ = []"

lemma rolling_fits:
  assumes "fits L W lg" "0 < W" "\<forall>e \<in> set lg. fst e \<le> now0" "sliding_steady W ((T0, now0, q0, p0) # ds)" "\<forall>(T, now, q, p) \<in> set ds. 0 \<le> q"
  shows "fits L W (snd (rolling L W lg ds)) \<and> snd (rolling L W lg ds) = rev (sliding_log (fst (rolling L W lg ds)) ds) @ lg"
  using assms
proof (induction ds arbitrary: lg T0 now0 q0 p0)
  case (Cons d ds)
  obtain T now q p where d: "d = (T, now, q, p)" by (metis prod_cases4)
  define ok where "ok = (of_int (in_window (now - W) lg + q) \<le> L)"
  define lg' where "lg' = (if ok then (now, q) # lg else lg)"
  have now: "now0 \<le> now" "sliding_steady W ((T, now, q, p) # ds)" "0 \<le> q" using Cons.prems(4,5) d by auto
  have "fits L W lg'" using Cons.prems(1-3) now by (auto simp: lg'_def ok_def add.commute)
  then have "fits L W (snd (rolling L W lg' ds)) \<and> snd (rolling L W lg' ds) = rev (sliding_log (fst (rolling L W lg' ds)) ds) @ lg'"
    by (rule Cons.IH [OF _ Cons.prems(2) _ now(2)]) (use Cons.prems(3,5) now(1) in \<open>auto simp: lg'_def\<close>)
  moreover have "rolling L W lg (d # ds) = (ok # fst (rolling L W lg' ds), snd (rolling L W lg' ds))"
    by (simp only: d rolling_Cons [OF ok_def lg'_def])
  ultimately show ?case by (cases ok) (auto simp: d lg'_def)
qed simp

section \<open>Properties\<close>


text \<open>
  C5: The sliding window is exact when requests reach the server in the order of their client
  times. Its decisions are those of a log that admits a request exactly when it fits into the
  window that ends with it, and so in every window, wherever it lies, at most the limit is
  admitted. It holds through the expiry of the sorted set. The condition \<open>sliding_steady\<close> says
  that the times do not go back from one decision to the next, and lose at most a window against
  the server in between; without it the bound fails, as shown below.
\<close>

theorem sliding_window_exact:
  assumes server: "redis_server R clock db" and W: "1 \<le> W" "W < 2 ^ 50" and L: "0 \<le> L" "L < 2 ^ 53"
    and fresh: "db s key = None" and T: "clock s \<le> T"
    and ds: "ds = (T, now, q, p) # rest" "sliding_steady W ds" "sliding_calls L ds"
    and oks: "oks = map admitted (fst (script_run R (map (\<lambda>(T, now, q, p). (T, ratelimit_sliding R impl key (Fin L) W now q p)) ds) s))"
  shows "oks = fst (rolling L W [] ds) \<and> of_int (span (t - W) t (sliding_log oks ds)) \<le> L"
proof -
  define s0 where "s0 = elapse R T s"
  have s0: "db s0 key = None" "clock s0 = T"
    using redis_server.elapse_absent [OF server T fresh] redis_server.clock_elapse [OF server T] by (simp_all add: s0_def)
  have q: "1 \<le> q" "of_int q \<le> L" "CHR '':'' \<notin> set p" "sliding_calls L rest" "{p} \<inter> (\<lambda>(T, now, q, p). p) ` set rest = {}"
    using ds(1,3) by (auto simp: sliding_calls_def)
  have ok: "True = (of_int (in_window (now - W) [] + q) \<le> L)" using q(2) by simp
  have empty: "sliding_at (db s0) key [] 0" "logs (now - W) {} [] []" using s0(1) by (simp_all add: sliding_at_def logs_def above_def)
  have L0: "of_int (int (length [])) \<le> L" using L(1) by simp
  obtain x s' z where step: "ratelimit_sliding R impl key (Fin L) W now q p s0 = (x, s')" "clock s' = T" "admitted x"
    and z: "sliding_at (db s') key z (clock s' + 2 * W)" "zwf z" "of_int (int (length z)) \<le> L" "logs (now - W) {p} [(now, q)] z"
    using redis_server.sliding_step [OF server empty(1) zwf_Nil L0 empty(2) order_refl _ q(3,1,2) L(2) W ok, of impl] s0(2) by auto
  have "map admitted (fst (script_run R (map (\<lambda>(T, now, q, p). (T, ratelimit_sliding R impl key (Fin L) W now q p)) rest) s')) =
      fst (rolling L W [(now, q)] rest)"
    by (rule redis_server.sliding_run [OF server W L(2,1) z _ _ q(4,5)]) (use ds(1,2) step(2) in simp_all)
  then have eq: "oks = fst (rolling L W [] ds)"
    using step(1,3) ok unfolding oks ds(1) by (simp add: rolling_Cons [OF ok refl] s0_def)
  have "fits L W (snd (rolling L W [] ds)) \<and> snd (rolling L W [] ds) = rev (sliding_log (fst (rolling L W [] ds)) ds) @ []"
  proof (rule rolling_fits)
    show "sliding_steady W ((T, now, q, p) # ds)" using ds(1,2) W(1) by simp
    show "\<forall>(T, now, q, p) \<in> set ds. 0 \<le> q" using ds(3) by (fastforce simp: sliding_calls_def)
  qed (use W in simp_all)
  then have "fits L W (rev (sliding_log oks ds))" using eq by auto
  then have "of_int (span (t - W) t (rev (sliding_log oks ds))) \<le> L" using span_bound L(1) W(1) by simp
  then show ?thesis using eq by (simp add: span_def rev_filter [symmetric] rev_map [symmetric])
qed

text \<open>
  C35: The exactness needs the order of the client times. If three requests reach the server in
  an order that differs from the order of their times by two milliseconds, a sliding window
  with limit \<open>n\<close> admits \<open>2 * n - 1\<close> requests within one window: the request with the later time
  purges entries that the one with the earlier time should still count.
\<close>

theorem sliding_reordering:
  assumes server: "redis_server R clock db" and W: "1 \<le> W" "W < 2 ^ 50" and n: "2 \<le> n" "n < 2 ^ 53"
    and fresh: "db s key = None" and T: "clock s \<le> T1" "T1 \<le> T2" "T2 \<le> T3" "T3 < T1 + 2 * W"
    and ds: "ds = [(T1, t, n, p1), (T2, t + W + 1, 1, p2), (T3, t + W - 1, n - 1, p3)]"
    and ps: "distinct [p1, p2, p3]" "\<forall>p \<in> {p1, p2, p3}. CHR '':'' \<notin> set p"
    and oks: "oks = map admitted (fst (script_run R (map (\<lambda>(T, now, q, p). (T, ratelimit_sliding R impl key (Fin (of_int n)) W now q p)) ds) s))"
  shows "oks = [True, True, True] \<and> span (t + W - 1 - W) (t + W - 1) (sliding_log oks ds) = 2 * n - 1 \<and> n < 2 * n - 1"
proof -
  have n': "of_int n < (2 ^ 53 :: rat)" using n(2) by (metis of_int_less_iff of_int_numeral of_int_power)
  define s0 where "s0 = elapse R T1 s"
  have s0: "db s0 key = None" "clock s0 = T1"
    using redis_server.elapse_absent [OF server T(1) fresh] redis_server.clock_elapse [OF server T(1)] by (simp_all add: s0_def)
  have e0: "sliding_at (db s0) key [] 0" "logs (t - W) {} [] []" using s0(1) by (simp_all add: sliding_at_def logs_def above_def)
  obtain x1 s1 z1 where 1: "ratelimit_sliding R impl key (Fin (of_int n)) W t n p1 s0 = (x1, s1)" "clock s1 = T1" "admitted x1"
    "sliding_at (db s1) key z1 (T1 + 2 * W)" "zwf z1" "of_int (int (length z1)) \<le> (of_int n :: rat)" "logs (t - W) {p1} [(t, n)] z1"
    using redis_server.sliding_step [OF server e0(1) zwf_Nil _ e0(2) order_refl _ _ _ order_refl n' W, of p1 True impl] s0(2) n ps(2) by auto
  have e1: "sliding_at (db (elapse R T2 s1)) key z1 (T1 + 2 * W)" "clock (elapse R T2 s1) = T2"
    using redis_server.sliding_kept [OF server 1(4), of T2] redis_server.clock_elapse [OF server, of s1 T2] 1(2) T by auto
  obtain x2 s2 z2 where 2: "ratelimit_sliding R impl key (Fin (of_int n)) W (t + W + 1) 1 p2 (elapse R T2 s1) = (x2, s2)" "clock s2 = T2" "admitted x2"
    "sliding_at (db s2) key z2 (T2 + 2 * W)" "zwf z2" "of_int (int (length z2)) \<le> (of_int n :: rat)"
    "logs (t + W + 1 - W) {p1, p2} [(t + W + 1, 1), (t, n)] z2" "int (length z2) = above (t + W + 1 - W) z2"
    using redis_server.sliding_step [OF server e1(1) 1(5,6,7) _ _ _ order_refl _ n' W, of "t + W + 1" p2 True impl] e1(2) n ps W(1)
    by (auto simp: insert_commute)
  have l2: "logs (t + W - 1 - W) {p1, p2} [(t + W + 1, 1)] z2" using logs_purged [OF 2(7,8), of "t + W - 1 - W"] W(1) by simp
  have e2: "sliding_at (db (elapse R T3 s2)) key z2 (T2 + 2 * W)" "clock (elapse R T3 s2) = T3"
    using redis_server.sliding_kept [OF server 2(4), of T3] redis_server.clock_elapse [OF server, of s2 T3] 2(2) T by auto
  obtain x3 s3 where 3: "ratelimit_sliding R impl key (Fin (of_int n)) W (t + W - 1) (n - 1) p3 (elapse R T3 s2) = (x3, s3)" "admitted x3"
    using redis_server.sliding_step [OF server e2(1) 2(5,6) l2 order_refl _ _ _ _ n' W, of p3 "n - 1" True impl] n ps W(1) by auto
  have "oks = [True, True, True]" using 1(1,3) 2(1,3) 3 unfolding oks ds by (simp add: Let_def s0_def)
  then show ?thesis using n(1) W(1) by (simp add: ds span_def)
qed

section \<open>Witnesses\<close>


theorem sliding_window_exact_witness:
  "map admitted (fst (script_run mem_redis (map (\<lambda>(T, now, q, p). (T, ratelimit_sliding mem_redis (\<lambda>_. 0) ''k'' (Fin 3) 100 now q p))
     [(10, 510, 2, ''a''), (12, 520, 2, ''b''), (112, 611, 2, ''c'')]) empty_mem)) = [True, False, True]"
proof -
  have "rolling 3 100 [] [(10, 510, 2, ''a''), (12, 520, 2, ''b''), (112, 611, 2, ''c'')] = ([True, False, True], [(611, 2), (510, 2)])"
    by (simp add: rolling.simps)
  then show ?thesis
    using sliding_window_exact [OF mem_server, of 100 3 empty_mem "''k''" 10 "[(10, 510, 2, ''a''), (12, 520, 2, ''b''), (112, 611, 2, ''c'')]"
        510 2 "''a''" "[(12, 520, 2, ''b''), (112, 611, 2, ''c'')]" _ "\<lambda>_. 0", OF _ _ _ _ _ _ refl _ _ refl]
    by (simp add: empty_mem_db empty_lock(3) sliding_calls_def)
qed

theorem sliding_reordering_witness:
  "map admitted (fst (script_run mem_redis (map (\<lambda>(T, now, q, p). (T, ratelimit_sliding mem_redis (\<lambda>_. 0) ''k'' (Fin 2) 100 now q p))
     [(10, 1000, 2, ''a''), (111, 1101, 1, ''b''), (112, 1099, 1, ''c'')]) empty_mem)) = [True, True, True] \<and>
   span 999 1099 (sliding_log [True, True, True] [(10, 1000, 2, ''a''), (111, 1101, 1, ''b''), (112, 1099, 1, ''c'')]) = 3"
  using sliding_reordering [OF mem_server, of 100 2 empty_mem "''k''" 10 111 112 _ 1000 "''a''" "''b''" "''c''" _ "\<lambda>_. 0", OF _ _ _ _ _ _ _ _ _ refl _ _ refl]
  by (simp add: empty_mem_db empty_lock(3) span_def)

end
