(* ===== verification/RateLimiter.thy ===== *)
theory RateLimiter
  imports Windows Mutex
begin

text \<open>
  \<^verbatim>\<open>ratelimiter.go\<close>: the rate limiter over the four scripts. A panic of the code is the left
  value of a sum; what a call reads of its environment (clock, random token, network, the
  state of its context) is an argument.
\<close>

section \<open>Construction\<close>

datatype Algorithm = AlgorithmTokenBucket | AlgorithmFixedWindow | AlgorithmSlidingWindow | AlgorithmLeakyBucket

fun Algorithm_String :: "Algorithm \<Rightarrow> string" where
  "Algorithm_String AlgorithmFixedWindow = ''fixed-window''"
| "Algorithm_String AlgorithmSlidingWindow = ''sliding-window''"
| "Algorithm_String AlgorithmLeakyBucket = ''leaky-bucket''"
| "Algorithm_String AlgorithmTokenBucket = ''token-bucket''"

record rlConfig = rc_algorithm :: Algorithm

type_synonym RateLimiterOption = "rlConfig \<Rightarrow> rlConfig"

definition TokenBucket :: RateLimiterOption where "TokenBucket c = c\<lparr>rc_algorithm := AlgorithmTokenBucket\<rparr>"
definition FixedWindow :: RateLimiterOption where "FixedWindow c = c\<lparr>rc_algorithm := AlgorithmFixedWindow\<rparr>"
definition SlidingWindow :: RateLimiterOption where "SlidingWindow c = c\<lparr>rc_algorithm := AlgorithmSlidingWindow\<rparr>"
definition LeakyBucket :: RateLimiterOption where "LeakyBucket c = c\<lparr>rc_algorithm := AlgorithmLeakyBucket\<rparr>"

record Rate =
  rate_PerSecond :: f64
  rate_Capacity :: f64

definition PerSecond :: "f64 \<Rightarrow> Rate" where "PerSecond n = \<lparr>rate_PerSecond = n, rate_Capacity = n\<rparr>"
definition PerMinute :: "f64 \<Rightarrow> Rate" where "PerMinute n = \<lparr>rate_PerSecond = f64_div n (Fin 60), rate_Capacity = n\<rparr>"
definition WithBurst :: "f64 \<Rightarrow> Rate \<Rightarrow> Rate" where "WithBurst capacity r = r\<lparr>rate_Capacity := capacity\<rparr>"

record ('s, 'w) limiter =
  rl_client :: "('s, 'w) client"
  rl_name :: string
  rl_key :: string
  rl_capacity :: f64
  rl_rate :: f64
  rl_algorithm :: Algorithm

definition windowed :: "Algorithm \<Rightarrow> bool" where
  "windowed a = (a = AlgorithmFixedWindow \<or> a = AlgorithmSlidingWindow)"

definition IsInf :: "f64 \<Rightarrow> bool" where "IsInf x = (x = PInf \<or> x = NInf)"

definition Client_RateLimiter ::
  "('s, 'w) client \<Rightarrow> string \<Rightarrow> Rate \<Rightarrow> RateLimiterOption list \<Rightarrow> string + ('s, 'w) limiter" where
  "Client_RateLimiter c name rate opts =
     (let cfg = foldl (\<lambda>x opt. opt x) \<lparr>rc_algorithm = AlgorithmTokenBucket\<rparr> opts;
          rl = \<lparr>rl_client = c, rl_name = name, rl_key = Key name, rl_capacity = rate_Capacity rate,
                rl_rate = rate_PerSecond rate, rl_algorithm = rc_algorithm cfg\<rparr>;
          windowMs = f64_mul (f64_div (rl_capacity rl) (rl_rate rl)) (Fin 1000)
      in if f64_le (rl_rate rl) (Fin 0) \<or> f64_le (rl_capacity rl) (Fin 0) \<or> rl_rate rl = NaN \<or> rl_capacity rl = NaN \<or>
            IsInf (rl_rate rl) \<or> IsInf (rl_capacity rl)
         then Inl ''distsync: rate limiter requires positive finite rate and capacity''
         else if f64_less (Fin 9223372036854) windowMs
         then Inl ''distsync: rate limiter refill period exceeds time.Duration range''
         else if windowed (rl_algorithm rl) \<and>
            (f64_less windowMs (Fin 1) \<or> f64_less (rl_capacity rl) (Fin 1) \<or> f64_less (Fin (2 ^ 53 - 1)) (rl_capacity rl))
         then Inl ''distsync: windowed rate limiter requires a window of at least 1ms and capacity in [1, 2^53-1]''
         else Inr rl)"

definition RateLimiter_Name :: "('s, 'w) limiter \<Rightarrow> string" where "RateLimiter_Name rl = rl_name rl"
definition RateLimiter_Algorithm :: "('s, 'w) limiter \<Rightarrow> Algorithm" where "RateLimiter_Algorithm rl = rl_algorithm rl"
definition RateLimiter_Limit :: "('s, 'w) limiter \<Rightarrow> f64" where "RateLimiter_Limit rl = rl_rate rl"

definition window :: "(f64 \<Rightarrow> int) \<Rightarrow> ('s, 'w) limiter \<Rightarrow> duration" where
  "window impl rl = f64_to_int64 impl (f64_mul (f64_div (rl_capacity rl) (rl_rate rl)) (Fin 1000000000))"

text \<open>\<^verbatim>\<open>strconv.FormatInt\<close> with base ten. Division by zero panics.\<close>

definition FormatInt :: "int \<Rightarrow> string" where
  "FormatInt n = (if n < 0 then CHR ''-'' # Itoa (nat (- n)) else Itoa (nat n))"

definition fixedWindowKey :: "(f64 \<Rightarrow> int) \<Rightarrow> ('s, 'w) limiter \<Rightarrow> int \<Rightarrow> string + string" where
  "fixedWindowKey impl rl nowMs =
     (if Milliseconds (window impl rl) = 0 then Inl ''runtime error: integer divide by zero''
      else Inr (rl_key rl @ '':'' @ FormatInt (quot nowMs (Milliseconds (window impl rl)))))"

section \<open>Decisions\<close>

text \<open>
  \<open>rt_ctx\<close> and \<open>rt_select\<close> are what a turn of \<^verbatim>\<open>Acquire\<close> observes of its context after a refusal
  and in its \<^verbatim>\<open>select\<close> (\<open>None\<close>: the timer fired).
\<close>

record rl_turn =
  rt_now :: instant
  rt_token :: string
  rt_net :: transport
  rt_ctx :: "goerr option"
  rt_select :: "goerr option"

type_synonym decided = "bool \<times> duration \<times> goerr option"

text \<open>\<^verbatim>\<open>.Slice()\<close> of a reply, and what \<^verbatim>\<open>allow\<close> makes of it.\<close>

definition unexpected :: "('s, 'w) limiter \<Rightarrow> goerr" where
  "unexpected rl = Message (''distsync: rate limiter '' @ rl_name rl @ '': unexpected script result'')"

definition allow :: "('s, 'w) limiter \<Rightarrow> transport \<Rightarrow> ('s, sreply) lua \<Rightarrow> 's \<Rightarrow> decided \<times> 's" where
  "allow rl tr script s =
     (case Run (rdb (rl_client rl)) tr script s of
        (Inl e, s') \<Rightarrow> ((False, 0, Some e), s')
      | (Inr (SInts [a, b, d]), s') \<Rightarrow> ((a = 1, int64 (d * Millisecond), None), s')
      | (Inr (SInts _), s') \<Rightarrow> ((False, 0, Some (unexpected rl)), s')
      | (Inr _, s') \<Rightarrow> ((False, 0, Some (Message ''redis: unexpected type for Slice'')), s'))"

definition request_count :: "('s, 'w) limiter \<Rightarrow> f64 \<Rightarrow> f64" where
  "request_count rl n = (if windowed (rl_algorithm rl) then f64_ceil n else n)"

definition bad_request :: "('s, 'w) limiter \<Rightarrow> goerr" where
  "bad_request rl = Message (''distsync: rate limiter '' @ rl_name rl @ '': request count must be finite and non-negative'')"

definition over_capacity :: "('s, 'w) limiter \<Rightarrow> goerr" where
  "over_capacity rl = Message (''distsync: rate limiter '' @ rl_name rl @ '': request count exceeds capacity'')"

text \<open>The script a valid request runs; \<^verbatim>\<open>Inl\<close> is a panic on the way to it.\<close>

definition limiter_script :: "(f64 \<Rightarrow> int) \<Rightarrow> rl_turn \<Rightarrow> f64 \<Rightarrow> ('s, 'w) limiter \<Rightarrow> string + ('s, sreply) lua" where
  "limiter_script impl t n rl =
     (let R = rdb (rl_client rl); now = UnixMilli (rt_now t); W = Milliseconds (window impl rl) in
      case rl_algorithm rl of
        AlgorithmFixedWindow \<Rightarrow>
          (case fixedWindowKey impl rl now of
             Inl p \<Rightarrow> Inl p
           | Inr key \<Rightarrow> Inr (ratelimit_fixed R impl key (rl_capacity rl) (f64_of_int W) (f64_of_int now) (f64_to_int64 impl n)))
      | AlgorithmSlidingWindow \<Rightarrow>
          Inr (ratelimit_sliding R impl (rl_key rl) (rl_capacity rl) W now (f64_to_int64 impl n) (rt_token t))
      | AlgorithmLeakyBucket \<Rightarrow> Inr (ratelimit_leaky R impl (rl_key rl) (rl_capacity rl) (rl_rate rl) (f64_of_int now) n)
      | AlgorithmTokenBucket \<Rightarrow> Inr (ratelimit R impl (rl_key rl) (rl_capacity rl) (rl_rate rl) (f64_of_int now) n))"

definition Allow ::
  "(f64 \<Rightarrow> int) \<Rightarrow> rl_turn \<Rightarrow> f64 \<Rightarrow> ('s, 'w) limiter \<Rightarrow> 's \<Rightarrow> 'w \<Rightarrow> (string + decided) \<times> 's \<times> 'w" where
  "Allow impl t n0 rl s w =
     (if n0 = Fin 0 then (Inr (True, 0, None), s, w)
      else if f64_less n0 (Fin 0) \<or> n0 = NaN \<or> IsInf n0 then (Inr (False, 0, Some (bad_request rl)), s, w)
      else
        let n = request_count rl n0 in
        if f64_less (rl_capacity rl) n then (Inr (False, 0, Some (over_capacity rl)), s, w)
        else
          let (finish, w1) = t_Start (tracer (rl_client rl)) ''distsync.ratelimit.allow'' w in
          case limiter_script impl t n rl of
            Inl p \<Rightarrow> (Inl p, s, finish None w1)
          | Inr script \<Rightarrow>
              (case allow rl (rt_net t) script s of
                 ((ok, d, err), s') \<Rightarrow> (Inr (ok, d, err), s', finish err w1)))"

section \<open>Waiting\<close>

text \<open>
  \<open>Polling\<close> is a call whose turns are used up: it is still waiting. The last component is what
  the call slept through.
\<close>

datatype acquired = Polling | Panics string | Ends "goerr option"

definition rl_errorf :: "('s, 'w) limiter \<Rightarrow> goerr \<Rightarrow> goerr" where
  "rl_errorf rl e = Wrap (''distsync: rate limiter '' @ rl_name rl) e"

definition poll_delay :: "duration \<Rightarrow> duration" where
  "poll_delay d = (if d \<le> 0 then 10 * Millisecond else d)"

fun RateLimiter_Acquire ::
  "(f64 \<Rightarrow> int) \<Rightarrow> rl_turn list \<Rightarrow> f64 \<Rightarrow> ('s, 'w) limiter \<Rightarrow> 's \<Rightarrow> 'w \<Rightarrow> acquired \<times> 's \<times> 'w \<times> duration list" where
  "RateLimiter_Acquire impl [] n rl s w = (Polling, s, w, [])"
| "RateLimiter_Acquire impl (t # ts) n rl s w =
     (case Allow impl t n rl s w of
        (Inl p, s', w') \<Rightarrow> (Panics p, s', w', [])
      | (Inr (ok, d, Some e), s', w') \<Rightarrow> (Ends (Some (rl_errorf rl e)), s', w', [])
      | (Inr (ok, d, None), s', w') \<Rightarrow>
          if ok then (Ends None, s', w', [])
          else (case rt_ctx t of
              Some e \<Rightarrow> (Ends (Some (rl_errorf rl e)), s', w', [])
            | None \<Rightarrow> (case rt_select t of
                Some e \<Rightarrow> (Ends (Some (rl_errorf rl e)), s', w', [])
              | None \<Rightarrow> (case RateLimiter_Acquire impl ts n rl s' w' of
                  (r, s'', w'', ds) \<Rightarrow> (r, s'', w'', poll_delay d # ds)))))"

definition RateLimiter_Wait ::
  "(f64 \<Rightarrow> int) \<Rightarrow> rl_turn list \<Rightarrow> instant \<Rightarrow> instant \<Rightarrow> f64 \<Rightarrow> ('s, 'w) limiter \<Rightarrow> 's \<Rightarrow> 'w \<Rightarrow>
     (duration \<times> acquired) \<times> 's \<times> 'w" where
  "RateLimiter_Wait impl ts start finished n rl s w =
     (case RateLimiter_Acquire impl ts n rl s w of (r, s', w', _) \<Rightarrow> ((finished - start, r), s', w'))"

definition RateLimiter_Reset ::
  "(f64 \<Rightarrow> int) \<Rightarrow> instant \<Rightarrow> transport \<Rightarrow> ('s, 'w) limiter \<Rightarrow> 's \<Rightarrow> (string + goerr option) \<times> 's" where
  "RateLimiter_Reset impl now tr rl s =
     (case (if rl_algorithm rl = AlgorithmFixedWindow then fixedWindowKey impl rl (UnixMilli now) else Inr (rl_key rl)) of
        Inl p \<Rightarrow> (Inl p, s)
      | Inr key \<Rightarrow>
          (case Run (rdb (rl_client rl)) tr (redis_call (rdb (rl_client rl)) (DEL key)) s of
             (Inl e, s') \<Rightarrow> (Inr (Some e), s')
           | (Inr _, s') \<Rightarrow> (Inr None, s')))"

section \<open>The window of a constructed limiter\<close>

text \<open>No binary64 number lies between \<open>(1 - 2\<^sup>-\<^sup>5\<^sup>3) / 1000\<close> and \<open>1 / 1000\<close>.\<close>

lemma below_milli:
  assumes x: "nearest x = x" "0 < x" "x < 1 / 1000"
  shows "x * 1000 \<le> 1 - 1 / 2 ^ 53"
proof (rule ccontr)
  assume "\<not> x * 1000 \<le> 1 - 1 / 2 ^ 53"
  then have lo: "(1 - 1 / 2 ^ 53) / 1000 < x" by simp
  have "(2 :: rat) powi - 10 = 1 / 1024" by (simp add: power_int_minus)
  then have "2 powi - 10 < x" using lo by simp
  also have "x < 2 powi (lead x + 1)" using lead_bounds(2) [of x] x(2) by simp
  finally have l1: "- 10 < lead x + 1" by (rule power_int_2_less)
  have "2 powi lead x \<le> x" using lead_bounds(1) [of x] x(2) by simp
  also have "x < 2 powi - 9" using x(3) by (simp add: power_int_minus)
  finally have l2: "lead x < - 9" by (rule power_int_2_less)
  have "lead x = - 10" using l1 l2 by simp
  then have "ulp x = 2 powi - 62" by (simp add: ulp_def)
  then have u: "ulp x = 1 / 4611686018427387904" by (simp add: power_int_minus)
  define n where "n = round_even (x / ulp x)"
  have "x = of_int n * ulp x" using x(1,2) by (simp add: nearest_def n_def)
  then have n: "x = of_int n / 4611686018427387904" unfolding u by simp
  then have "of_int n < (4611686018427387904 / 1000 :: rat)" using x(3) by simp
  then have "(of_int n :: rat) < of_int 4611686018427388" by simp
  then have "n < 4611686018427388" by (simp only: of_int_less_iff)
  then have "n \<le> 4611686018427387" by simp
  then have "(of_int n :: rat) \<le> of_int 4611686018427387" by (simp only: of_int_le_iff)
  then show False using lo n by simp
qed

lemma f64_round_pos:
  assumes "0 < x"
  shows "f64_round x = PInf \<or> f64_round x = Fin (nearest x)" and "0 \<le> nearest x"
proof -
  show n: "0 \<le> nearest x" using assms by (intro nearest_nonneg) simp
  have "- (2 ^ 1024) < (0 :: rat)" by simp
  then have "\<not> nearest x \<le> - (2 ^ 1024)" using n by linarith
  then show "f64_round x = PInf \<or> f64_round x = Fin (nearest x)" by (simp only: f64_round_def Let_def if_False split: if_splits) simp
qed

lemma period_bounds:
  assumes c: "0 < c" "0 < r" and max: "\<not> f64_less (Fin 9223372036854) (f64_mul (f64_div (Fin c) (Fin r)) (Fin 1000))"
    and min: "\<not> f64_less (f64_mul (f64_div (Fin c) (Fin r)) (Fin 1000)) (Fin 1)"
  obtains x where "f64_div (Fin c) (Fin r) = Fin x" "1 / 1000 \<le> x" "x * 1000 \<le> 9223372036854 * (1 + 2 * eps)"
proof -
  have p: "0 < c / r" using c by simp
  have d: "f64_div (Fin c) (Fin r) = Fin (nearest (c / r))"
    using f64_round_pos(1) [OF p] max c(2) by (auto simp: signed_inf_def)
  define x where "x = nearest (c / r)"
  have x: "nearest x = x" "0 \<le> x" using f64_round_pos(2) [OF p] by (simp_all add: x_def)
  have x0: "0 < x"
  proof (rule ccontr)
    assume "\<not> 0 < x"
    then have "x = 0" using x(2) by simp
    then have "f64_mul (f64_div (Fin c) (Fin r)) (Fin 1000) = Fin 0" using d by (simp add: x_def f64_round_def)
    then show False using min by simp
  qed
  have m: "f64_mul (f64_div (Fin c) (Fin r)) (Fin 1000) = Fin (nearest (x * 1000))"
    using f64_round_pos(1) [of "x * 1000"] x0 max unfolding d x_def [symmetric] by auto
  have lo: "1 / 1000 \<le> x"
  proof (rule ccontr)
    assume "\<not> 1 / 1000 \<le> x"
    then have "x * 1000 \<le> 1 - 1 / 2 ^ 53" using below_milli [OF x(1) x0] by simp
    moreover have "nearest (1 - 1 / 2 ^ 53) = 1 - 1 / 2 ^ 53" using nearest_grid [of 9007199254740991 "- 53"] by (simp add: power_int_minus)
    ultimately have "nearest (x * 1000) \<le> 1 - 1 / 2 ^ 53" by (intro nearest_le) simp_all
    then show False using min m by simp
  qed
  have one: "(1 :: rat) / 2 ^ 900 \<le> 1" by (simp add: divide_le_eq_1)
  have "x * 1000 * (1 - eps) \<le> nearest (x * 1000)" by (rule nearest_between, rule order_trans [OF one]) (use lo in simp)
  also have "\<dots> \<le> 9223372036854" using max m by simp
  finally have "x * 1000 \<le> 9223372036854 * (1 + 2 * eps)" by (simp add: eps_num field_simps)
  then show ?thesis using that d lo by (simp add: x_def)
qed

lemma window_bounds:
  assumes x: "f64_div (Fin c) (Fin r) = Fin x" "1 / 1000 \<le> x" "x * 1000 \<le> 9223372036854 * (1 + 2 * eps)"
    and rl: "rl_capacity rl = Fin c" "rl_rate rl = Fin r"
  shows "1 \<le> Milliseconds (window impl rl)" and "Milliseconds (window impl rl) \<le> 9223372036854"
proof -
  let ?y = "x * 1000000000"
  have y: "1000000 \<le> ?y" "?y \<le> 9223372036854000000 * (1 + 2 * eps)" using x(2,3) by simp_all
  have y2: "?y \<le> 9223372036854003000" using y(2) by (simp add: eps_num)
  then have "?y \<le> 2 ^ 64" by simp
  then have "?y \<le> 2 ^ 200" by (rule order_trans) (rule power_increasing, simp_all)
  then have r: "f64_mul (Fin x) (Fin 1000000000) = Fin (nearest ?y)" using y(1) by (simp only: f64_mul.simps) (intro f64_round_small, simp_all)
  have "nearest 1000000 = (1000000 :: rat)" using nearest_of_int [of 1000000] by simp
  then have lo: "1000000 \<le> nearest ?y" using nearest_ge [OF y(1)] by simp
  have one: "(1 :: rat) / 2 ^ 900 \<le> 1" by (simp add: divide_le_eq_1)
  have "nearest ?y \<le> ?y * (1 + eps)" by (rule nearest_between, rule order_trans [OF one]) (use y(1) in simp)
  also have "\<dots> \<le> 9223372036854003000 * (1 + eps)" using y2 by (intro mult_right_mono) (simp_all add: eps_num)
  also have "\<dots> \<le> 9223372036854010000" by (simp add: eps_num)
  finally have hi: "nearest ?y \<le> 9223372036854010000" .
  have t: "1000000 \<le> trunc (nearest ?y)" "trunc (nearest ?y) \<le> 9223372036854010000"
    using lo hi by (simp_all add: trunc_def le_floor_iff floor_le_iff)
  then have w: "window impl rl = trunc (nearest ?y)" using rl x(1) r by (simp add: window_def f64_to_int64_def del: f64_mul.simps)
  show "1 \<le> Milliseconds (window impl rl)" "Milliseconds (window impl rl) \<le> 9223372036854"
    using t unfolding w by (simp_all add: Milliseconds_nonneg)
qed

text \<open>What the constructor leaves of a limiter it does not panic on.\<close>

lemma limiter_fields:
  assumes "Client_RateLimiter cl name rate opts = Inr rl"
  obtains c r where "rl_capacity rl = Fin c" "rl_rate rl = Fin r" "0 < c" "0 < r" "rl_client rl = cl" "rl_key rl = Key name"
    "windowed (rl_algorithm rl) \<longrightarrow> 1 \<le> c \<and> c \<le> 2 ^ 53 - 1 \<and> (\<forall>impl. 1 \<le> Milliseconds (window impl rl) \<and> Milliseconds (window impl rl) \<le> 9223372036854)"
proof -
  have rl: "rl_client rl = cl" "rl_key rl = Key name"
    and ok: "\<not> f64_le (rl_rate rl) (Fin 0)" "\<not> f64_le (rl_capacity rl) (Fin 0)" "rl_rate rl \<noteq> NaN" "rl_capacity rl \<noteq> NaN"
      "\<not> IsInf (rl_rate rl)" "\<not> IsInf (rl_capacity rl)"
    and max: "\<not> f64_less (Fin 9223372036854) (f64_mul (f64_div (rl_capacity rl) (rl_rate rl)) (Fin 1000))"
    and win: "windowed (rl_algorithm rl) \<longrightarrow> \<not> f64_less (f64_mul (f64_div (rl_capacity rl) (rl_rate rl)) (Fin 1000)) (Fin 1) \<and>
      \<not> f64_less (rl_capacity rl) (Fin 1) \<and> \<not> f64_less (Fin (2 ^ 53 - 1)) (rl_capacity rl)"
    using assms by (auto simp: Client_RateLimiter_def Let_def split: if_splits)
  obtain c r where cr: "rl_capacity rl = Fin c" "rl_rate rl = Fin r" using ok(3-6) by (cases "rl_capacity rl"; cases "rl_rate rl") (auto simp: IsInf_def)
  have pos: "0 < c" "0 < r" using ok(1,2) cr by simp_all
  have "1 \<le> Milliseconds (window impl rl) \<and> Milliseconds (window impl rl) \<le> 9223372036854" if "windowed (rl_algorithm rl)" for impl
  proof -
    have min: "\<not> f64_less (f64_mul (f64_div (Fin c) (Fin r)) (Fin 1000)) (Fin 1)" using win that cr by simp
    obtain x where "f64_div (Fin c) (Fin r) = Fin x" "1 / 1000 \<le> x" "x * 1000 \<le> 9223372036854 * (1 + 2 * eps)"
      by (rule period_bounds [OF pos max [unfolded cr] min])
    from window_bounds [OF this cr] show ?thesis by blast
  qed
  then show ?thesis using that cr pos rl win by auto
qed

lemma fixedWindowKey_ok:
  assumes "1 \<le> Milliseconds (window impl rl)"
  shows "fixedWindowKey impl rl now = Inr (rl_key rl @ '':'' @ FormatInt (quot now (Milliseconds (window impl rl))))"
  using assms by (simp add: fixedWindowKey_def)

text \<open>
  C25: What the constructor accepts is safe to run. A windowed limiter that it returns has a
  capacity that Lua counts exactly, and a window that is at least one millisecond and within
  \<^verbatim>\<open>time.Duration\<close> after all roundings and truncations, whatever the conversion of out-of-range
  numbers does. So \<^verbatim>\<open>fixedWindowKey\<close> never divides by zero.
\<close>

theorem limiter_well_formed:
  assumes ctor: "Client_RateLimiter cl name rate opts = Inr rl" and win: "windowed (rl_algorithm rl)"
  shows "(\<exists>L. rl_capacity rl = Fin L \<and> 1 \<le> L \<and> L \<le> 2 ^ 53 - 1) \<and> 1 \<le> Milliseconds (window impl rl) \<and>
    Milliseconds (window impl rl) \<le> 9223372036854 \<and> (\<exists>key. fixedWindowKey impl rl now = Inr key)"
proof -
  obtain c r where f: "rl_capacity rl = Fin c" "rl_rate rl = Fin r" "0 < c" "0 < r" "rl_client rl = cl" "rl_key rl = Key name"
    "windowed (rl_algorithm rl) \<longrightarrow> 1 \<le> c \<and> c \<le> 2 ^ 53 - 1 \<and> (\<forall>impl. 1 \<le> Milliseconds (window impl rl) \<and> Milliseconds (window impl rl) \<le> 9223372036854)"
    by (rule limiter_fields [OF ctor])
  have W: "1 \<le> Milliseconds (window impl rl)" "Milliseconds (window impl rl) \<le> 9223372036854" using f(7) win by blast+
  then show ?thesis using fixedWindowKey_ok [OF W(1)] f(1,7) win by simp
qed

section \<open>Allow\<close>

lemma allow_error:
  assumes "allow rl tr script s = ((ok, d, Some e), s')"
  shows "\<not> ok"
  using assms by (auto simp: allow_def split: prod.splits sum.splits sreply.splits list.splits)

lemma limiter_script_ok:
  assumes ctor: "Client_RateLimiter cl name rate opts = Inr rl"
  shows "\<exists>script. limiter_script impl t n rl = Inr script"
proof (cases "rl_algorithm rl")
  case AlgorithmFixedWindow
  obtain c r where f: "rl_capacity rl = Fin c" "rl_rate rl = Fin r" "0 < c" "0 < r" "rl_client rl = cl" "rl_key rl = Key name"
    "windowed (rl_algorithm rl) \<longrightarrow> 1 \<le> c \<and> c \<le> 2 ^ 53 - 1 \<and> (\<forall>impl. 1 \<le> Milliseconds (window impl rl) \<and> Milliseconds (window impl rl) \<le> 9223372036854)"
    by (rule limiter_fields [OF ctor])
  have "1 \<le> Milliseconds (window impl rl)" using f(7) AlgorithmFixedWindow by (simp add: windowed_def)
  then show ?thesis using AlgorithmFixedWindow by (simp add: limiter_script_def fixedWindowKey_ok Let_def)
qed (simp_all add: limiter_script_def)

definition valid_request :: "('s, 'w) limiter \<Rightarrow> f64 \<Rightarrow> bool" where
  "valid_request rl n = (\<exists>x L. n = Fin x \<and> 0 < x \<and> rl_capacity rl = Fin L \<and>
     (if windowed (rl_algorithm rl) then of_int \<lceil>x\<rceil> \<le> L else x \<le> L))"

lemma Allow_valid:
  assumes "valid_request rl n" and "limiter_script impl t (request_count rl n) rl = Inr script"
    and "t_Start (tracer (rl_client rl)) ''distsync.ratelimit.allow'' w = (finish, w1)"
  shows "Allow impl t n rl s w = (case allow rl (rt_net t) script s of ((ok, d, err), s') \<Rightarrow> (Inr (ok, d, err), s', finish err w1))"
proof -
  obtain x L where x: "n = Fin x" "0 < x" "rl_capacity rl = Fin L" "if windowed (rl_algorithm rl) then of_int \<lceil>x\<rceil> \<le> L else x \<le> L"
    using assms(1) by (auto simp: valid_request_def)
  then have "\<not> f64_less (rl_capacity rl) (request_count rl n)" by (auto simp: request_count_def split: if_splits)
  then show ?thesis using assms(2,3) x(1,2) by (simp add: Allow_def IsInf_def Let_def)
qed

text \<open>
  C26: \<^verbatim>\<open>Allow\<close> on a limiter of the constructor, on every kind of input. It never panics. Zero is
  granted and an invalid count (negative, infinite, NaN, or above the capacity after rounding)
  is refused with an error, both without a trace on the server or in the tracing. A valid count
  makes one request, and an error of it is never reported as an admission.
\<close>

theorem allow_total:
  assumes ctor: "Client_RateLimiter cl name rate opts = Inr rl"
  shows "\<exists>ok d err s' w'. Allow impl t n rl s w = (Inr (ok, d, err), s', w') \<and>
    (n = Fin 0 \<longrightarrow> ok \<and> d = 0 \<and> err = None \<and> s' = s \<and> w' = w) \<and>
    (n \<noteq> Fin 0 \<and> \<not> valid_request rl n \<longrightarrow> \<not> ok \<and> d = 0 \<and> err \<noteq> None \<and> s' = s \<and> w' = w) \<and>
    (valid_request rl n \<longrightarrow> (\<exists>script. limiter_script impl t (request_count rl n) rl = Inr script \<and>
       allow rl (rt_net t) script s = ((ok, d, err), s'))) \<and>
    (err \<noteq> None \<longrightarrow> \<not> ok)"
proof -
  obtain c r where c: "rl_capacity rl = Fin c" "rl_rate rl = Fin r" "0 < c" "0 < r" "rl_client rl = cl" "rl_key rl = Key name"
    "windowed (rl_algorithm rl) \<longrightarrow> 1 \<le> c \<and> c \<le> 2 ^ 53 - 1 \<and> (\<forall>impl. 1 \<le> Milliseconds (window impl rl) \<and> Milliseconds (window impl rl) \<le> 9223372036854)"
    by (rule limiter_fields [OF ctor])
  show ?thesis
  proof (cases "valid_request rl n")
    case True
    obtain script where script: "limiter_script impl t (request_count rl n) rl = Inr script" using limiter_script_ok [OF ctor] by blast
    obtain ok d err s' where al: "allow rl (rt_net t) script s = ((ok, d, err), s')" by (metis prod_cases3 prod.exhaust)
    obtain finish w1 where "t_Start (tracer (rl_client rl)) ''distsync.ratelimit.allow'' w = (finish, w1)" by fastforce
    then have "Allow impl t n rl s w = (Inr (ok, d, err), s', finish err w1)" using Allow_valid [OF True script] al by simp
    moreover have "err \<noteq> None \<longrightarrow> \<not> ok" using allow_error [of rl "rt_net t" script s ok d _ s'] al by (cases err) auto
    moreover have "n \<noteq> Fin 0" using True by (auto simp: valid_request_def)
    ultimately show ?thesis using True script al by blast
  next
    case False
    then have "n = Fin 0 \<or> f64_less n (Fin 0) \<or> n = NaN \<or> IsInf n \<or> f64_less (rl_capacity rl) (request_count rl n)"
      using c(1) by (cases n) (auto simp: valid_request_def IsInf_def request_count_def split: if_splits)
    then show ?thesis using False by (auto simp: Allow_def Let_def)
  qed
qed

section \<open>Waiting for the next window\<close>

lemma floor_quotient:
  assumes "0 \<le> now" "now < 2 ^ 52" "1 \<le> W" "W < 2 ^ 50"
  shows "f64_floor (f64_div (Ms now) (Ms W)) = Ms (now div W)"
proof -
  define y :: rat where "y = of_int now / of_int W"
  define k where "k = now div W"
  have W0: "(0 :: rat) < of_int W" using assms(3) by simp
  have "k * 1 \<le> k * W" using assms(1,3) by (intro mult_left_mono) (simp_all add: k_def pos_imp_zdiv_nonneg_iff)
  then have "k \<le> now" using mult_div_bounds(1) [of W now] assms(3) by (simp add: k_def mult.commute)
  have k: "0 \<le> k" "k < 2 ^ 53" "k * W \<le> now" "now + 1 \<le> (k + 1) * W"
    using assms \<open>k \<le> now\<close> mult_div_bounds [of W now] unfolding k_def by (simp_all add: pos_imp_zdiv_nonneg_iff algebra_simps)
  have "(of_int (k * W) :: rat) \<le> of_int now" "(of_int (now + 1) :: rat) \<le> of_int ((k + 1) * W)" using k by (simp_all only: of_int_le_iff)
  then have y: "of_int k \<le> y" "y + 1 / of_int W \<le> of_int (k + 1)" using W0 by (simp_all add: y_def field_simps)
  have lo: "of_int k \<le> nearest y" using nearest_ge [OF y(1)] nearest_of_int [of k] k by simp
  have "nearest y < of_int (k + 1)"
  proof (cases "now = 0")
    case True
    then show ?thesis using k by (simp add: y_def)
  next
    case False
    have "(1 :: rat) / 2 ^ 900 \<le> 1 / 2 ^ 50" by (rule divide_left_mono) (auto intro: power_increasing)
    also have "\<dots> \<le> of_int now / of_int W"
    proof (rule frac_le)
      show "(1 :: rat) \<le> of_int now" using False assms(1) by simp
      have "(of_int W :: rat) \<le> of_int (2 ^ 50)" using assms(4) by (simp only: of_int_le_iff)
      then show "(of_int W :: rat) \<le> 2 ^ 50" by simp
    qed (use W0 assms(1) in simp_all)
    finally have "nearest y \<le> y * (1 + eps)" unfolding y_def by (rule nearest_between)
    moreover have "y * eps < 1 / of_int W"
    proof -
      have "(of_int now :: rat) < of_int (2 ^ 52)" using assms(2) by (simp only: of_int_less_iff)
      then have "of_int now * eps < 1" by (simp add: eps_num)
      then show ?thesis using W0 by (simp add: y_def field_simps)
    qed
    ultimately show ?thesis using y(2) by (simp add: algebra_simps)
  qed
  then have "\<lfloor>nearest y\<rfloor> = k" using lo by (intro floor_unique) simp_all
  moreover have "f64_div (Ms now) (Ms W) = Fin (nearest y)"
  proof -
    have "0 < 1 / (of_int W :: rat)" using W0 by simp
    then have "y \<le> of_int (k + 1)" using y(2) by linarith
    also have "\<dots> \<le> of_int (2 ^ 53)" using k(2) by (simp only: of_int_le_iff)
    finally have "y \<le> of_int (2 ^ 53)" .
    then have "y \<le> 2 ^ 53" by simp
    then have "y \<le> 2 ^ 200" by (rule order_trans) (rule power_increasing, simp_all)
    moreover have "0 \<le> y" using assms(1) W0 by (simp add: y_def)
    ultimately have "f64_round y = Fin (nearest y)" by (intro f64_round_small)
    then show ?thesis using W0 by (simp add: y_def)
  qed
  ultimately show ?thesis by (simp add: k_def)
qed

lemma window_end:
  assumes "0 \<le> now" "now < 2 ^ 52" "1 \<le> W" "W < 2 ^ 50"
  shows "f64_sub (f64_mul (f64_add (f64_floor (f64_div (Ms now) (Ms W))) (Fin 1)) (Ms W)) (Ms now) = Ms ((now div W + 1) * W - now)"
    and "0 < (now div W + 1) * W - now" "(now div W + 1) * W - now \<le> W"
proof -
  define k where "k = now div W"
  have k: "0 \<le> k" "k * W \<le> now" "now < (k + 1) * W" "(k + 1) * W \<le> now + W"
    using assms mult_div_bounds [of W now] unfolding k_def by (simp_all add: pos_imp_zdiv_nonneg_iff algebra_simps)
  have "k * 1 \<le> k * W" using k(1) assms(3) by (intro mult_left_mono) simp_all
  then have kn: "k \<le> now" using k(2) by simp
  have "f64_add (Ms k) (Fin 1) = f64_round (of_int (k + 1))" by simp
  also have "\<dots> = Ms (k + 1)" using k kn assms by (intro f64_of_int_exact) simp
  finally have a: "f64_add (Ms k) (Fin 1) = Ms (k + 1)" .
  have "f64_mul (Ms (k + 1)) (Ms W) = f64_round (of_int ((k + 1) * W))" by simp
  also have "\<dots> = Ms ((k + 1) * W)" using k assms by (intro f64_of_int_exact) simp
  finally have m: "f64_mul (Ms (k + 1)) (Ms W) = Ms ((k + 1) * W)" .
  have "\<bar>(k + 1) * W - now\<bar> < 2 ^ 53" using k assms by simp
  then show "f64_sub (f64_mul (f64_add (f64_floor (f64_div (Ms now) (Ms W))) (Fin 1)) (Ms W)) (Ms now) = Ms ((now div W + 1) * W - now)"
    by (simp only: floor_quotient [OF assms] k_def [symmetric] a m f64_sub_ms)
  show "0 < (now div W + 1) * W - now" "(now div W + 1) * W - now \<le> W" using k unfolding k_def by simp_all
qed

definition window_key :: "(f64 \<Rightarrow> int) \<Rightarrow> ('s, 'w) limiter \<Rightarrow> int \<Rightarrow> string" where
  "window_key impl rl now = rl_key rl @ '':'' @ FormatInt (quot now (Milliseconds (window impl rl)))"

lemma window_key_inject:
  assumes "1 \<le> Milliseconds (window impl rl)" "0 \<le> a" "0 \<le> b" "window_key impl rl a = window_key impl rl b"
  shows "a div Milliseconds (window impl rl) = b div Milliseconds (window impl rl)"
proof -
  let ?W = "Milliseconds (window impl rl)"
  have "0 \<le> a div ?W" "0 \<le> b div ?W" using assms(1-3) by (simp_all add: pos_imp_zdiv_nonneg_iff)
  moreover from this have "Itoa (nat (a div ?W)) = Itoa (nat (b div ?W))" using assms by (simp add: window_key_def FormatInt_def)
  then have "nat (a div ?W) = nat (b div ?W)" by (rule inj_Itoa)
  ultimately show ?thesis by simp
qed

lemma table3_ms:
  assumes "a = Fin 0 \<or> a = Fin 1" "0 \<le> d" "d < 2 ^ 63"
  shows "\<exists>b'. table3 impl (a, b, Ms d) = SInts [if a = Fin 1 then 1 else 0, b', d]"
  using assms by (auto simp: table3_def f64_to_int64_def trunc_def)

context redis_server
begin

lemma fixed_allow:
  assumes R: "rdb (rl_client rl) = R" and rl: "rl_algorithm rl = AlgorithmFixedWindow" "rl_capacity rl = Fin L" "L \<le> 2 ^ 53 - 1"
    and W: "W = Milliseconds (window impl rl)" "1 \<le> W" "W \<le> 9223372036854"
    and x: "0 < x" "of_int \<lceil>x\<rceil> \<le> L" and now: "now = UnixMilli (rt_now t)" "0 \<le> now" "now < 2 ^ 52"
    and net: "rt_net t = Reply [] T" "clock s \<le> T"
    and cnt: "counter (db (elapse R T s)) (window_key impl rl now) = Some n0" "0 \<le> n0" "of_int n0 \<le> L"
  shows "\<exists>s' w'. Allow impl t (Fin x) rl s w = (Inr (of_int (n0 + \<lceil>x\<rceil>) \<le> L, ((now div W + 1) * W - now) * Millisecond, None), s', w') \<and>
    clock s' = T \<and> (\<forall>k. k \<noteq> window_key impl rl now \<longrightarrow> db s' k = db (elapse R T s) k)"
proof -
  let ?key = "window_key impl rl now" and ?q = "\<lceil>x\<rceil>"
  define d where "d = (now div W + 1) * W - now"
  have W50: "W < 2 ^ 50" using W(3) by simp
  note we = window_end [OF now(2,3) W(2) W50, folded d_def]
  have valid: "valid_request rl (Fin x)" using x rl by (simp add: valid_request_def windowed_def)
  have q0: "0 \<le> ?q" using x(1) by simp
  have "(of_int ?q :: rat) \<le> 2 ^ 53 - 1" using x(2) rl(3) by (rule order_trans)
  then have "(of_int ?q :: rat) < of_int (2 ^ 53)" by (rule le_less_trans) simp
  then have q1: "?q < 2 ^ 53" by (simp only: of_int_less_iff)
  have L: "L < 2 ^ 53" using rl(3) by simp
  have qi: "f64_to_int64 impl (f64_ceil (Fin x)) = ?q" using q0 q1 by (simp add: f64_to_int64_def trunc_def)
  have fl: "f64_of_int W = Ms W" "f64_of_int now = Ms now"
    unfolding f64_of_int_def using W50 W(2) now by (simp_all only: f64_of_int_exact abs_of_nonneg) (simp_all add: f64_of_int_exact)
  let ?sc = "ratelimit_fixed R impl ?key (Fin L) (Ms W) (Ms now) ?q"
  have script: "limiter_script impl t (request_count rl (Fin x)) rl = Inr ?sc"
    using W rl(1,2) R qi fl now(1)
    by (simp add: limiter_script_def request_count_def windowed_def fixedWindowKey_ok window_key_def Let_def del: f64_ceil.simps)
  obtain y s' a b where st: "?sc (elapse R T s) = (y, s')" "clock s' = clock (elapse R T s)"
    "\<forall>k. k \<noteq> ?key \<longrightarrow> db s' k = db (elapse R T s) k" "y = Inr (table3 impl (a, b, Ms d))" "a = (if of_int (n0 + ?q) \<le> L then Fin 1 else Fin 0)"
    using ratelimit_fixed_step [OF cnt(1,2) q0 cnt(3) x(2) L W(2) W50, of impl "Ms now"] unfolding we(1) by blast
  have d63: "d < 2 ^ 63" "d * Millisecond < 2 ^ 63" using we(3) W(3) by simp_all
  have a01: "a = Fin 0 \<or> a = Fin 1" using st(5) by (cases "of_int (n0 + ?q) \<le> L") simp_all
  obtain b' where b': "table3 impl (a, b, Ms d) = SInts [if a = Fin 1 then 1 else 0, b', d]"
    using table3_ms [of a d impl b] a01 we(2) d63(1) by auto
  have "allow rl (rt_net t) ?sc s = ((of_int (n0 + ?q) \<le> L, d * Millisecond, None), s')"
    using st(1,4,5) b' we(2) d63(2) by (simp add: allow_def R net(1))
  moreover obtain finish w1 where "t_Start (tracer (rl_client rl)) ''distsync.ratelimit.allow'' w = (finish, w1)" by fastforce
  ultimately have "Allow impl t (Fin x) rl s w = (Inr (of_int (n0 + ?q) \<le> L, d * Millisecond, None), s', finish None w1)"
    using Allow_valid [OF valid script] by simp
  then show ?thesis using st(2,3) clock_elapse [OF net(2)] by (simp add: d_def)
qed

end

text \<open>
  C24: On a fixed window one wait is enough. When \<^verbatim>\<open>Acquire\<close> is refused, the time it then sleeps is
  exactly what is left of the window, positive and at most a window. When it tries again after
  that time and nobody has used the new window yet, it is admitted and returns nil: it ends with
  its second attempt and never spins.
\<close>

theorem fixed_acquire_ends:
  assumes server: "redis_server R clock db" and ctor: "Client_RateLimiter cl name rate opts = Inr rl" "rdb cl = R"
    and rl: "rl_algorithm rl = AlgorithmFixedWindow" "rl_capacity rl = Fin L" and W: "W = Milliseconds (window impl rl)"
    and x: "0 < x" "of_int \<lceil>x\<rceil> \<le> L" and now: "now1 = UnixMilli (rt_now t1)" "now2 = UnixMilli (rt_now t2)" "0 \<le> now1" "now2 < 2 ^ 52"
    and net: "rt_net t1 = Reply [] T1" "rt_net t2 = Reply [] T2" "clock s \<le> T1" "T1 \<le> T2"
    and ctx: "rt_ctx t1 = None" "rt_select t1 = None"
    and full: "counter (db (elapse R T1 s)) (window_key impl rl now1) = Some n0" "0 \<le> n0" "of_int n0 \<le> L" "L < of_int (n0 + \<lceil>x\<rceil>)"
    and waited: "d = (now1 div W + 1) * W - now1" "now1 + d \<le> now2" and unused: "db s (window_key impl rl now2) = None"
  shows "0 < d \<and> d \<le> W \<and> (\<exists>s' w'. RateLimiter_Acquire impl (t1 # t2 # ts) (Fin x) rl s w = (Ends None, s', w', [d * Millisecond]))"
proof -
  obtain c r where f: "rl_capacity rl = Fin c" "rl_rate rl = Fin r" "0 < c" "0 < r" "rl_client rl = cl" "rl_key rl = Key name"
    "windowed (rl_algorithm rl) \<longrightarrow> 1 \<le> c \<and> c \<le> 2 ^ 53 - 1 \<and> (\<forall>impl. 1 \<le> Milliseconds (window impl rl) \<and> Milliseconds (window impl rl) \<le> 9223372036854)"
    by (rule limiter_fields [OF ctor(1)])
  have "windowed (rl_algorithm rl)" using rl(1) by (simp add: windowed_def)
  then have Wb: "1 \<le> W" "W \<le> 9223372036854" and L: "L \<le> 2 ^ 53 - 1" using f(1,7) W rl(2) by auto
  have R: "rdb (rl_client rl) = R" using f(5) ctor(2) by simp
  have W50: "W < 2 ^ 50" using Wb by simp
  have ends: "now1 < now1 + d" "now1 + d = (now1 div W + 1) * W" "d \<le> W"
    using mult_div_bounds [of W now1] Wb(1) unfolding waited(1) by (simp_all add: algebra_simps)
  have n1: "now1 < 2 ^ 52" "0 \<le> now2" using ends(1) waited(2) now(3,4) by simp_all
  have "now1 div W + 1 \<le> now2 div W" using zdiv_mono1 [OF waited(2), of W] ends(2) Wb(1) by simp
  then have keys: "window_key impl rl now2 \<noteq> window_key impl rl now1"
    using window_key_inject [of impl rl now2 now1] Wb(1) W now(3) n1(2) by auto
  obtain s1 w1 where a1: "Allow impl t1 (Fin x) rl s w = (Inr (of_int (n0 + \<lceil>x\<rceil>) \<le> L, d * Millisecond, None), s1, w1)" "clock s1 = T1"
    "\<forall>k. k \<noteq> window_key impl rl now1 \<longrightarrow> db s1 k = db (elapse R T1 s) k"
    using redis_server.fixed_allow [OF server R rl L W Wb x now(1,3) n1(1) net(1,3) full(1,2,3), of w] waited(1) by blast
  have "db s1 (window_key impl rl now2) = None" using a1(3) keys redis_server.elapse_absent [OF server net(3) unused] by simp
  then have "db (elapse R T2 s1) (window_key impl rl now2) = None" using redis_server.elapse_absent [OF server, of s1 T2] a1(2) net(4) by simp
  then have "counter (db (elapse R T2 s1)) (window_key impl rl now2) = Some 0" by (simp add: counter_def)
  moreover have "clock s1 \<le> T2" "of_int 0 \<le> L" using a1(2) net(4) full(2,3) order_trans [of 0 "of_int n0" L] by simp_all
  ultimately obtain s2 w2 where "Allow impl t2 (Fin x) rl s1 w1 = (Inr (of_int (0 + \<lceil>x\<rceil>) \<le> L, ((now2 div W + 1) * W - now2) * Millisecond, None), s2, w2)"
    using redis_server.fixed_allow [OF server R rl L W Wb x now(2) n1(2) now(4) net(2), of s1 0 w1] by blast
  then show ?thesis using a1(1) full(4) ctx ends x(2) by (simp add: poll_delay_def)
qed

section \<open>Witnesses\<close>

definition wit_rate :: Rate where "wit_rate = \<lparr>rate_PerSecond = Fin 4, rate_Capacity = Fin 2\<rparr>"

definition wit_limiter :: "(mem, unit) limiter" where
  "wit_limiter = \<lparr>rl_client = New mem_redis [], rl_name = ''api'', rl_key = Key ''api'', rl_capacity = Fin 2, rl_rate = Fin 4,
     rl_algorithm = AlgorithmFixedWindow\<rparr>"

lemma nearest_half: "nearest (1 / 2) = 1 / 2" using nearest_grid [of 1 "- 1"] by (simp add: power_int_minus)

lemma wit_period:
  "f64_div (Fin 2) (Fin 4) = Fin (1 / 2)" "f64_mul (Fin (1 / 2)) (Fin 1000) = Fin 500" "f64_mul (Fin (1 / 2)) (Fin 1000000000) = Fin 500000000"
proof -
  have r: "f64_round q = Fin (nearest q)" if "0 \<le> q" "q \<le> 2 ^ 30" for q
    using that by (intro f64_round_small) (auto intro: order_trans [of _ "2 ^ 30"] power_increasing)
  show "f64_div (Fin 2) (Fin 4) = Fin (1 / 2)" using r [of "1 / 2"] nearest_half by simp
  show "f64_mul (Fin (1 / 2)) (Fin 1000) = Fin 500" using r [of 500] nearest_of_int [of 500] by simp
  show "f64_mul (Fin (1 / 2)) (Fin 1000000000) = Fin 500000000" using r [of 500000000] nearest_of_int [of 500000000] by simp
qed

lemma wit_ctor: "Client_RateLimiter (New mem_redis []) ''api'' wit_rate [FixedWindow] = Inr wit_limiter"
  by (simp add: Client_RateLimiter_def wit_rate_def wit_limiter_def FixedWindow_def IsInf_def wit_period Let_def del: f64_div.simps f64_mul.simps)

lemma wit_limiter_simps: "rl_algorithm wit_limiter = AlgorithmFixedWindow" "rl_capacity wit_limiter = Fin 2"
  by (simp_all add: wit_limiter_def)

lemma wit_window: "Milliseconds (window impl wit_limiter) = 500"
  by (simp add: window_def wit_limiter_def wit_period f64_to_int64_def trunc_def Milliseconds_nonneg del: f64_div.simps f64_mul.simps)

theorem limiter_well_formed_witness:
  "1 \<le> Milliseconds (window (\<lambda>_. 0) wit_limiter) \<and> (\<exists>key. fixedWindowKey (\<lambda>_. 0) wit_limiter 700 = Inr key)"
  using limiter_well_formed [OF wit_ctor, of "\<lambda>_. 0" 700] by (simp add: windowed_def wit_limiter_def)

definition wit_rt :: "instant \<Rightarrow> int \<Rightarrow> rl_turn" where
  "wit_rt t T = \<lparr>rt_now = t, rt_token = ''a'', rt_net = Reply [] T, rt_ctx = None, rt_select = None\<rparr>"

theorem allow_total_witness:
  "\<exists>err. Allow (\<lambda>_. 0) (wit_rt 0 0) (Fin 3) wit_limiter empty_mem () = (Inr (False, 0, Some err), empty_mem, ())"
proof -
  have "\<not> valid_request wit_limiter (Fin 3)" by (simp add: valid_request_def wit_limiter_def windowed_def)
  then show ?thesis using allow_total [OF wit_ctor, of "\<lambda>_. 0" "wit_rt 0 0" "Fin 3" empty_mem "()"]
    by auto
qed

definition wit_full :: mem where
  "wit_full = \<lparr>mclock = 0, mdata = [window_key (\<lambda>_. 0) wit_limiter 700 \<mapsto> (VStr (inum 2), Some 5000)]\<rparr>"

theorem fixed_acquire_ends_witness:
  "\<exists>s'. RateLimiter_Acquire (\<lambda>_. 0) [wit_rt (700 * Millisecond) 10, wit_rt (1001 * Millisecond) 320] (Fin 1) wit_limiter wit_full () =
     (Ends None, s', (), [300 * Millisecond])"
proof -
  have k: "window_key (\<lambda>_. 0) wit_limiter 1001 \<noteq> window_key (\<lambda>_. 0) wit_limiter 700"
    using window_key_inject [of "\<lambda>_. 0" wit_limiter 1001 700] by (auto simp: wit_window)
  have db: "mem_db wit_full = [window_key (\<lambda>_. 0) wit_limiter 700 \<mapsto> (VStr (inum 2), Some 5000)]"
    "mem_db (mem_elapse 10 wit_full) = [window_key (\<lambda>_. 0) wit_limiter 700 \<mapsto> (VStr (inum 2), Some 5000)]"
    by (simp_all add: mem_db_elapse fun_eq_iff mem_db_def wit_full_def)
  have clk: "mclock wit_full = 0" by (simp add: wit_full_def)
  have c: "counter (mem_db (elapse mem_redis 10 wit_full)) (window_key (\<lambda>_. 0) wit_limiter 700) = Some 2"
    by (simp add: mem_redis_def db counter_def inum_def)
  show ?thesis
    using fixed_acquire_ends [OF mem_server wit_ctor, of 2 500 "\<lambda>_. 0" 1 700 "wit_rt (700 * Millisecond) 10" 1001 "wit_rt (1001 * Millisecond) 320"
        10 320 wit_full 2 300 "[]" "()"] c k
    by (simp add: wit_window wit_rt_def UnixMilli_def New_def db wit_limiter_simps clk del: RateLimiter_Acquire.simps)
qed

end
