(* ===== verification/Registry.thy ===== *)
theory Registry
  imports Rwmutex Semaphore Leader RateLimiter
begin

text \<open>
  \<^verbatim>\<open>internal/lua/scripts.go\<close>: the registry of the scripts, and how the Go code calls them. A call
  names a script and sends two lists, \<^verbatim>\<open>KEYS\<close> and \<^verbatim>\<open>ARGV\<close>, which the script takes apart by
  position. Shown are that a script uses the keys it is sent and no others, so that a primitive
  with a proper name never leaves its cluster slot, and that primitives of different names do
  not interfere.
\<close>

section \<open>The registry\<close>

datatype script =
    SingleAcquire | SingleRenew | SingleRelease
  | RWWriteLock | RWReadLock
  | SemAcquire | SemRenew | SemRelease
  | RateLimit | RateLimitFixed | RateLimitSliding | RateLimitLeaky

text \<open>
  What go-redis writes for a string, an integer and a \<^verbatim>\<open>float64\<close>; \<^verbatim>\<open>tonumber\<close> reads a number back
  as the \<^verbatim>\<open>float64\<close> it denotes.
\<close>

datatype arg = AText string | AInt int | AFloat f64

fun arg_text :: "arg \<Rightarrow> string option" where
  "arg_text (AText t) = Some t"
| "arg_text _ = None"

text \<open>
  The source a registry entry embeds, from its \<^verbatim>\<open>KEYS\<close> and \<^verbatim>\<open>ARGV\<close>. \<^term>\<open>None\<close> is a call with lists
  of another shape than the header of the script documents.
\<close>

definition exclusive_source ::
  "script \<Rightarrow> 's redis \<Rightarrow> string list \<Rightarrow> arg list \<Rightarrow> ('s, sreply) lua option" where
  "exclusive_source sc R KEYS ARGV =
     (case (sc, KEYS, ARGV) of
        (SingleAcquire, [lockKey, fencingKey], [AText token, AInt lt, AText flag]) \<Rightarrow>
          Some (single_acquire R lockKey fencingKey token lt flag)
      | (SingleRenew, [key], [AText token, AInt lt]) \<Rightarrow> Some (single_renew R key token lt)
      | (SingleRelease, [key], [AText token]) \<Rightarrow> Some (single_release R key token)
      | _ \<Rightarrow> None)"

definition counting_source ::
  "script \<Rightarrow> 's redis \<Rightarrow> string list \<Rightarrow> arg list \<Rightarrow> ('s, sreply) lua option" where
  "counting_source sc R KEYS ARGV =
     (case (sc, KEYS, ARGV) of
        (SemAcquire, [zset], AInt now # AInt lt # AInt capacity # members) \<Rightarrow>
          map_option (sem_acquire R zset now lt capacity) (those (map arg_text members))
      | (SemRenew, [zset], AInt now # AInt lt # members) \<Rightarrow>
          map_option (sem_renew R zset now lt) (those (map arg_text members))
      | (SemRelease, [zset], members) \<Rightarrow> map_option (sem_release R zset) (those (map arg_text members))
      | _ \<Rightarrow> None)"

definition rw_source ::
  "script \<Rightarrow> 's redis \<Rightarrow> nat \<Rightarrow> string list \<Rightarrow> arg list \<Rightarrow> ('s, sreply) lua option" where
  "rw_source sc R fuel KEYS ARGV =
     (case (sc, KEYS, ARGV) of
        (RWWriteLock, [writer, readers, fenceKey, waiters, waiterTs, seqKey], [AText token, AInt lt, AInt now, AInt timeout]) \<Rightarrow>
          Some (rw_write_lock R fuel \<lparr>Writer = writer, Readers = readers, Fencing = fenceKey, Waiters = waiters,
            WaiterTS = waiterTs, Seq = seqKey\<rparr> token lt now timeout)
      | (RWReadLock, [writer, readers, waiters, waiterTs, seqKey], [AText token, AInt lt, AInt now, AInt timeout]) \<Rightarrow>
          Some (rw_read_lock R fuel \<lparr>Writer = writer, Readers = readers, Fencing = [], Waiters = waiters,
            WaiterTS = waiterTs, Seq = seqKey\<rparr> token lt now timeout)
      | _ \<Rightarrow> None)"

definition limiter_source ::
  "script \<Rightarrow> 's redis \<Rightarrow> (f64 \<Rightarrow> int) \<Rightarrow> string list \<Rightarrow> arg list \<Rightarrow> ('s, sreply) lua option" where
  "limiter_source sc R impl KEYS ARGV =
     (case (sc, KEYS, ARGV) of
        (RateLimit, [key], [AFloat capacity, AFloat rate, AInt now, AFloat requested]) \<Rightarrow>
          Some (ratelimit R impl key capacity rate (f64_of_int now) requested)
      | (RateLimitLeaky, [key], [AFloat capacity, AFloat rate, AInt now, AFloat requested]) \<Rightarrow>
          Some (ratelimit_leaky R impl key capacity rate (f64_of_int now) requested)
      | (RateLimitFixed, [windowKey], [AFloat limit, AInt windowMs, AInt now, AInt requested]) \<Rightarrow>
          Some (ratelimit_fixed R impl windowKey limit (f64_of_int windowMs) (f64_of_int now) requested)
      | (RateLimitSliding, [key], [AFloat limit, AInt windowMs, AInt now, AInt requested, AText prefix]) \<Rightarrow>
          Some (ratelimit_sliding R impl key limit windowMs now requested prefix)
      | _ \<Rightarrow> None)"

text \<open>A call: the script with the two lists.\<close>

type_synonym request = "script \<times> string list \<times> arg list"

definition Source :: "'s redis \<Rightarrow> (f64 \<Rightarrow> int) \<Rightarrow> nat \<Rightarrow> request \<Rightarrow> ('s, sreply) lua option" where
  "Source R impl fuel q =
     (case q of (sc, KEYS, ARGV) \<Rightarrow>
        if sc \<in> {SingleAcquire, SingleRenew, SingleRelease} then exclusive_source sc R KEYS ARGV
        else if sc \<in> {SemAcquire, SemRenew, SemRelease} then counting_source sc R KEYS ARGV
        else if sc \<in> {RWWriteLock, RWReadLock} then rw_source sc R fuel KEYS ARGV
        else limiter_source sc R impl KEYS ARGV)"

section \<open>The calls\<close>

text \<open>\<^verbatim>\<open>internal/lease/single.go\<close>\<close>

definition single_acquire_call :: "single_owner \<Rightarrow> request" where
  "single_acquire_call l = (SingleAcquire, [so_key l, so_fkey l],
     [AText (so_id l), AInt (Milliseconds (so_ttl l)), AText (if so_fencing l then ''1'' else ''0'')])"

definition single_renew_call :: "single_owner \<Rightarrow> request" where
  "single_renew_call l = (SingleRenew, [so_key l], [AText (so_id l), AInt (Milliseconds (so_ttl l))])"

definition single_release_call :: "single_owner \<Rightarrow> request" where
  "single_release_call l = (SingleRelease, [so_key l], [AText (so_id l)])"

text \<open>\<^verbatim>\<open>internal/lease/permit.go\<close>\<close>

definition permit_acquire_call :: "instant \<Rightarrow> int \<Rightarrow> permit_set \<Rightarrow> request" where
  "permit_acquire_call began n p = (SemAcquire, [ps_key p],
     [AInt (UnixMilli began), AInt (Milliseconds (ps_ttl p)), AInt (ps_capacity p)] @ map AText (permit_tokens (ps_id p) n))"

definition permit_renew_call :: "instant \<Rightarrow> permit_set \<Rightarrow> request" where
  "permit_renew_call began p = (SemRenew, [ps_key p],
     [AInt (UnixMilli began), AInt (Milliseconds (ps_ttl p))] @ map AText (ps_tokens p))"

definition permit_release_call :: "permit_set \<Rightarrow> request" where
  "permit_release_call p = (SemRelease, [ps_key p], map AText (ps_tokens p))"

text \<open>\<^verbatim>\<open>internal/lease/rw.go\<close>\<close>

definition write_acquire_call :: "instant \<Rightarrow> rw_lease \<Rightarrow> request" where
  "write_acquire_call began w = (let K = rw_on w in
     (RWWriteLock, [Writer K, Readers K, Fencing K, Waiters K, WaiterTS K, Seq K],
      [AText (rw_id w), AInt (Milliseconds (rw_ttl w)), AInt (UnixMilli began), AInt (waiterTimeout (rw_ttl w))]))"

definition write_renew_call :: "rw_lease \<Rightarrow> request" where
  "write_renew_call w = (SingleRenew, [Writer (rw_on w)], [AText (rw_id w), AInt (Milliseconds (rw_ttl w))])"

definition write_release_call :: "rw_lease \<Rightarrow> request" where
  "write_release_call w = (SingleRelease, [Writer (rw_on w)], [AText (rw_id w)])"

definition read_acquire_call :: "instant \<Rightarrow> rw_lease \<Rightarrow> request" where
  "read_acquire_call began r = (let K = rw_on r in
     (RWReadLock, [Writer K, Readers K, Waiters K, WaiterTS K, Seq K],
      [AText (rw_id r), AInt (Milliseconds (rw_ttl r)), AInt (UnixMilli began), AInt (waiterTimeout (rw_ttl r))]))"

definition read_renew_call :: "instant \<Rightarrow> rw_lease \<Rightarrow> request" where
  "read_renew_call began r = (SemRenew, [Readers (rw_on r)],
     [AInt (UnixMilli began), AInt (Milliseconds (rw_ttl r)), AText (rw_id r)])"

definition read_release_call :: "rw_lease \<Rightarrow> request" where
  "read_release_call r = (SemRelease, [Readers (rw_on r)], [AText (rw_id r)])"

text \<open>\<^verbatim>\<open>ratelimiter.go\<close>; the left value is the panic of \<^verbatim>\<open>fixedWindowKey\<close>.\<close>

definition limiter_call :: "(f64 \<Rightarrow> int) \<Rightarrow> rl_turn \<Rightarrow> f64 \<Rightarrow> ('s, 'w) limiter \<Rightarrow> string + request" where
  "limiter_call impl t n rl =
     (let now = UnixMilli (rt_now t); W = Milliseconds (window impl rl) in
      case rl_algorithm rl of
        AlgorithmFixedWindow \<Rightarrow>
          (case fixedWindowKey impl rl now of
             Inl p \<Rightarrow> Inl p
           | Inr key \<Rightarrow> Inr (RateLimitFixed, [key], [AFloat (rl_capacity rl), AInt W, AInt now, AInt (f64_to_int64 impl n)]))
      | AlgorithmSlidingWindow \<Rightarrow>
          Inr (RateLimitSliding, [rl_key rl],
            [AFloat (rl_capacity rl), AInt W, AInt now, AInt (f64_to_int64 impl n), AText (rt_token t)])
      | AlgorithmLeakyBucket \<Rightarrow>
          Inr (RateLimitLeaky, [rl_key rl], [AFloat (rl_capacity rl), AFloat (rl_rate rl), AInt now, AFloat n])
      | AlgorithmTokenBucket \<Rightarrow>
          Inr (RateLimit, [rl_key rl], [AFloat (rl_capacity rl), AFloat (rl_rate rl), AInt now, AFloat n]))"

lemmas call_defs = single_acquire_call_def single_renew_call_def single_release_call_def permit_acquire_call_def
  permit_renew_call_def permit_release_call_def write_acquire_call_def write_renew_call_def write_release_call_def
  read_acquire_call_def read_renew_call_def read_release_call_def

lemmas source_defs = Source_def exclusive_source_def counting_source_def rw_source_def limiter_source_def

section \<open>Every call arrives\<close>

lemma those_texts [simp]: "those (map (arg_text \<circ> AText) ts) = Some ts"
  by (induction ts) simp_all

text \<open>Readers have no use for the fence, which their call does not send.\<close>

lemma purge_waiters_fencing [simp]: "purge_waiters R (K\<lparr>Fencing := f\<rparr>) now t fuel k = purge_waiters R K now t fuel k"
  by (induction fuel) (simp_all cong: option.case_cong if_cong)

lemma rw_read_lock_fencing: "rw_read_lock R fuel (K\<lparr>Fencing := f\<rparr>) = rw_read_lock R fuel K"
  by (intro ext) (simp add: rw_read_lock_def rw_join_def rw_refresh_def rw_take_read_def Let_def cong: if_cong)

lemma rw_keys_eq: "\<lparr>Writer = Writer K, Readers = Readers K, Fencing = f, Waiters = Waiters K, WaiterTS = WaiterTS K, Seq = Seq K\<rparr> =
    K\<lparr>Fencing := f\<rparr>"
  by simp

text \<open>
  The computation the registry answers each call with: the three requests of each of the four
  leases, and the decision of a rate limiter. The positions in \<^verbatim>\<open>KEYS\<close> and \<^verbatim>\<open>ARGV\<close> that the Go code
  fills are the positions the Lua code reads.
\<close>

lemma calls_arrive:
  "Source R impl fuel (single_acquire_call l) = Some (single_request R l) \<and>
   Source R impl fuel (single_renew_call l) = Some (single_renew R (so_key l) (so_id l) (Milliseconds (so_ttl l))) \<and>
   Source R impl fuel (single_release_call l) = Some (single_release R (so_key l) (so_id l)) \<and>
   Source R impl fuel (permit_acquire_call began n p) =
     Some (sem_acquire R (ps_key p) (UnixMilli began) (Milliseconds (ps_ttl p)) (ps_capacity p) (permit_tokens (ps_id p) n)) \<and>
   Source R impl fuel (permit_renew_call began p) =
     Some (sem_renew R (ps_key p) (UnixMilli began) (Milliseconds (ps_ttl p)) (ps_tokens p)) \<and>
   Source R impl fuel (permit_release_call p) = Some (sem_release R (ps_key p) (ps_tokens p)) \<and>
   Source R impl fuel (write_acquire_call began w) = Some (write_request R fuel began w) \<and>
   Source R impl fuel (write_renew_call w) = Some (single_renew R (Writer (rw_on w)) (rw_id w) (Milliseconds (rw_ttl w))) \<and>
   Source R impl fuel (write_release_call w) = Some (single_release R (Writer (rw_on w)) (rw_id w)) \<and>
   Source R impl fuel (read_acquire_call began w) = Some (read_request R fuel began w) \<and>
   Source R impl fuel (read_renew_call began w) =
     Some (sem_renew R (Readers (rw_on w)) (UnixMilli began) (Milliseconds (rw_ttl w)) [rw_id w]) \<and>
   Source R impl fuel (read_release_call w) = Some (sem_release R (Readers (rw_on w)) [rw_id w]) \<and>
   map_sum id (Source (rdb (rl_client rl)) impl fuel) (limiter_call impl t x rl) =
     map_sum id Some (limiter_script impl t x (rl :: ('s, 'w) limiter))"
proof -
  have "map_sum id (Source (rdb (rl_client rl)) impl fuel) (limiter_call impl t x rl) = map_sum id Some (limiter_script impl t x rl)"
    by (cases "rl_algorithm rl") (simp_all add: limiter_script_def limiter_call_def source_defs Let_def split: sum.splits)
  then show ?thesis
    by (simp add: call_defs source_defs single_request_def write_request_def read_request_def Let_def rw_keys_eq rw_read_lock_fencing)
qed

section \<open>Scripts use the keys they are sent\<close>

lemma confined_exclusive [confined]:
  "only_keys R {lockKey, fencingKey} (single_acquire R lockKey fencingKey token lt flag)"
  "only_keys R {key} (single_renew R key token lt)"
  "only_keys R {key} (single_release R key token)"
  unfolding single_acquire_def single_renew_def single_release_def
  by (intro confined; simp)+

lemma confined_loops:
  "(\<And>n. only_keys R K (f n)) \<Longrightarrow> z \<in> K \<Longrightarrow> only_keys R K (count_owned R z ms n f)"
  "only_keys R K m \<Longrightarrow> z \<in> K \<Longrightarrow> only_keys R K (zadd_each R z sc ms m)"
  "(\<And>n. only_keys R K (f n)) \<Longrightarrow> z \<in> K \<Longrightarrow> only_keys R K (zrem_each R z ms n f)"
  "only_keys R K m \<Longrightarrow> z \<in> K \<Longrightarrow> only_keys R K (all_live R z now ms m)"
  by (induction ms arbitrary: n) (auto intro!: confined)

lemma confined_counting [confined]:
  "only_keys R {z} (sem_acquire R z now lt capacity ms)"
  "only_keys R {z} (sem_renew R z now lt ms)"
  "only_keys R {z} (sem_release R z ms)"
  unfolding sem_acquire_def sem_renew_def sem_release_def Let_def
  by (intro confined confined_loops; simp)+

lemma confined_join:
  "(\<And>n. only_keys R S (f n)) \<Longrightarrow> {Waiters K, WaiterTS K, Seq K} \<subseteq> S \<Longrightarrow> only_keys R S (rw_join R K m now t f)"
  unfolding rw_join_def rw_refresh_def by (intro confined; simp)

lemma confined_purge:
  "only_keys R S m \<Longrightarrow> {Waiters K, WaiterTS K} \<subseteq> S \<Longrightarrow> only_keys R S (purge_waiters R K now t fuel m)"
  by (induction fuel) (auto intro!: confined)

lemma confined_rw [confined]:
  "only_keys R {w, r, f, q, h, n} (rw_write_lock R fuel \<lparr>Writer = w, Readers = r, Fencing = f, Waiters = q, WaiterTS = h, Seq = n\<rparr> token lt now t)"
  "only_keys R {w, r, q, h, n} (rw_read_lock R fuel \<lparr>Writer = w, Readers = r, Fencing = f, Waiters = q, WaiterTS = h, Seq = n\<rparr> token lt now t)"
  unfolding rw_write_lock_def rw_take_write_def rw_read_lock_def rw_take_read_def Let_def
  by (intro confined confined_join confined_purge; simp)+

lemma confined_pexpire: "only_keys R K m \<Longrightarrow> key \<in> K \<Longrightarrow> only_keys R K (pexpire R key x m)"
  unfolding pexpire_def by (intro confined; simp)

lemma confined_limiters [confined]:
  "only_keys R {key} (ratelimit R impl key c r now x)"
  "only_keys R {key} (ratelimit_leaky R impl key c r now x)"
  "only_keys R {key} (ratelimit_fixed R impl key c W now n)"
  "only_keys R {key} (ratelimit_sliding R impl key c w t n prefix)"
  unfolding ratelimit_def ratelimit_leaky_def ratelimit_fixed_def ratelimit_sliding_def Let_def prod.case_eq_if
  by (intro confined confined_pexpire confined_loops; simp)+

text \<open>
  A script issues commands only on the keys it is sent as \<^verbatim>\<open>KEYS\<close>, whatever they reply: what a
  Redis Cluster demands of scripts.
\<close>

lemma Source_keys:
  assumes "Source R impl fuel (sc, KEYS, ARGV) = Some m"
  shows "only_keys R (set KEYS) m"
  using assms by (auto simp: source_defs split: if_splits list.splits arg.splits script.splits intro: confined)

section \<open>One slot\<close>

text \<open>The calls that the primitives of a client make for a name, during the life of their leases.\<close>

inductive sends :: "('s, 'w) client \<Rightarrow> (f64 \<Rightarrow> int) \<Rightarrow> string \<Rightarrow> request \<Rightarrow> bool" for c impl name where
  mutex: "m = Client_Mutex c name opts \<Longrightarrow> so_key l = mu_key m \<Longrightarrow> so_fkey l = mu_fkey m \<Longrightarrow>
    q \<in> {single_acquire_call l, single_renew_call l, single_release_call l} \<Longrightarrow> sends c impl name q"
| leader: "L = Client_Leader c name opts \<Longrightarrow> so_key l = ld_key L \<Longrightarrow> so_fkey l = ld_fkey L \<Longrightarrow>
    q \<in> {single_acquire_call l, single_renew_call l, single_release_call l} \<Longrightarrow> sends c impl name q"
| semaphore: "Client_Semaphore c name capacity opts = Some se \<Longrightarrow> ps_key p = se_key se \<Longrightarrow>
    q \<in> {permit_acquire_call began n p, permit_renew_call began p, permit_release_call p} \<Longrightarrow> sends c impl name q"
| writer: "m = Client_RWMutex c name opts \<Longrightarrow> rw_on w = rm_keys m \<Longrightarrow>
    q \<in> {write_acquire_call began w, write_renew_call w, write_release_call w} \<Longrightarrow> sends c impl name q"
| reader: "m = Client_RWMutex c name opts \<Longrightarrow> rw_on r = rm_keys m \<Longrightarrow>
    q \<in> {read_acquire_call began r, read_renew_call began r, read_release_call r} \<Longrightarrow> sends c impl name q"
| limiter: "Client_RateLimiter c name rate opts = Inr rl \<Longrightarrow> limiter_call impl t x rl = Inr q \<Longrightarrow> sends c impl name q"

text \<open>Every key of such a call is the primary key of the name or derived from it.\<close>

definition in_family :: "string \<Rightarrow> string \<Rightarrow> bool" where
  "in_family name k = (k = Key name \<or> (\<exists>suffix. k = Derived (Key name) suffix))"

lemma in_family_simps [simp]: "in_family name (Key name)" "in_family name (Derived (Key name) suffix)"
  by (auto simp: in_family_def)

lemma limiter_family:
  assumes "Client_RateLimiter c name rate opts = Inr rl" and "limiter_call impl t x rl = Inr (sc, KEYS, ARGV)"
  shows "\<forall>k \<in> set KEYS. in_family name k"
proof -
  have "rl_key rl = Key name" using assms(1) by (auto simp: Client_RateLimiter_def Let_def split: if_splits)
  then show ?thesis using assms(2)
    by (auto simp: limiter_call_def Let_def fixedWindowKey_def in_family_def Derived_def split: Algorithm.splits sum.splits if_splits)
qed

lemma primitive_keys [simp]:
  "mu_key (Client_Mutex c name opts) = Key name" "mu_fkey (Client_Mutex c name opts) = Derived (Key name) ''fencing''"
  "ld_key (Client_Leader c name opts) = Key name" "ld_fkey (Client_Leader c name opts) = Derived (Key name) ''fencing''"
  "rm_keys (Client_RWMutex c name opts) = \<lparr>Writer = Derived (Key name) ''writer'', Readers = Derived (Key name) ''readers'',
     Fencing = Derived (Key name) ''fencing'', Waiters = Derived (Key name) ''waiters'',
     WaiterTS = Derived (Key name) ''waiter-ts'', Seq = Derived (Key name) ''seq''\<rparr>"
  by (simp_all add: Client_Mutex_def Client_Leader_def Client_RWMutex_def Let_def)

lemma semaphore_key: "Client_Semaphore c name capacity opts = Some se \<Longrightarrow> se_key se = Key name"
  by (auto simp: Client_Semaphore_def split: if_splits)

lemma sends_family: "sends c impl name q \<Longrightarrow> \<forall>k \<in> set (fst (snd q)). in_family name k"
proof (induction rule: sends.induct)
  case (mutex m opts l q)
  then show ?case by (elim insertE) (simp_all add: call_defs)
next
  case (leader L opts l q)
  then show ?case by (elim insertE) (simp_all add: call_defs)
next
  case (semaphore capacity opts se p q began n)
  then show ?case by (elim insertE) (simp_all add: call_defs semaphore_key)
next
  case (writer m opts w q began)
  then show ?case by (elim insertE) (simp_all add: call_defs Let_def)
next
  case (reader m opts r q began)
  then show ?case by (elim insertE) (simp_all add: call_defs Let_def)
next
  case (limiter rate opts rl t x q)
  then show ?case using limiter_family [of c name rate opts rl impl t x] by (cases q) auto
qed

lemma sends_arrive: "sends c impl name q \<Longrightarrow> \<exists>m. Source R impl fuel q = Some m"
proof (induction rule: sends.induct)
  case (limiter rate opts rl t x q)
  then show ?case
    by (cases "rl_algorithm rl") (auto simp: limiter_call_def source_defs Let_def split: sum.splits)
qed (elim insertE; simp add: calls_arrive)+

text \<open>
  The commands the Go code issues itself, outside a script: \<^verbatim>\<open>Held\<close> of the four leases, \<^verbatim>\<open>Available\<close> of
  a semaphore, \<^verbatim>\<open>Dequeue\<close> of the two sides of a read-write lock and \<^verbatim>\<open>Reset\<close> of a rate limiter.
\<close>

inductive issues :: "('s, 'w) client \<Rightarrow> (f64 \<Rightarrow> int) \<Rightarrow> string \<Rightarrow> cmd \<Rightarrow> bool" for c impl name where
  mutex: "m = Client_Mutex c name opts \<Longrightarrow> so_key (l :: single_owner) = mu_key m \<Longrightarrow> issues c impl name (GET (so_key l))"
| leader: "L = Client_Leader c name opts \<Longrightarrow> so_key (l :: single_owner) = ld_key L \<Longrightarrow> issues c impl name (GET (so_key l))"
| semaphore: "Client_Semaphore c name capacity opts = Some se \<Longrightarrow> ps_key (p :: permit_set) = se_key se \<Longrightarrow>
    cmd \<in> {ZCARD (se_key se), ZSCORE (ps_key p) t} \<Longrightarrow> issues c impl name cmd"
| writer: "m = Client_RWMutex c name opts \<Longrightarrow> rw_on (w :: rw_lease) = rm_keys m \<Longrightarrow>
    cmd \<in> {GET (Writer (rw_on w)), ZREM (Waiters (rw_on w)) (RWWriter_member w), HDEL (WaiterTS (rw_on w)) (RWWriter_member w)} \<Longrightarrow>
    issues c impl name cmd"
| reader: "m = Client_RWMutex c name opts \<Longrightarrow> rw_on (w :: rw_lease) = rm_keys m \<Longrightarrow>
    cmd \<in> {ZSCORE (Readers (rw_on w)) (rw_id w), ZREM (Waiters (rw_on w)) (RWReader_member w), HDEL (WaiterTS (rw_on w)) (RWReader_member w)} \<Longrightarrow>
    issues c impl name cmd"
| limiter: "Client_RateLimiter c name rate opts = Inr rl \<Longrightarrow>
    (if rl_algorithm rl = AlgorithmFixedWindow then fixedWindowKey impl rl (UnixMilli now) else Inr (rl_key rl)) = Inr key \<Longrightarrow>
    issues c impl name (DEL key)"

lemma issues_family: "issues c impl name cmd \<Longrightarrow> in_family name (cmd_key cmd)"
proof (induction rule: issues.induct)
  case (limiter rate opts rl now key)
  have "rl_key rl = Key name" using limiter(1) by (auto simp: Client_RateLimiter_def Let_def split: if_splits)
  then show ?case using limiter(2) by (auto simp: fixedWindowKey_def in_family_def Derived_def Let_def split: if_splits)
qed (auto simp: semaphore_key)

lemma family_tag:
  assumes "good_name name" and "in_family name k"
  shows "hash_tag k = hash_tag (Key name)"
proof -
  obtain a t b where k: "Key name = a @ CHR ''{'' # t @ CHR ''}'' # b" "CHR ''{'' \<notin> set a" "CHR ''}'' \<notin> set t" "t \<noteq> []"
    using assms(1) by (rule good_name_tagged)
  have "hash_tag (Derived (Key name) suffix) = hash_tag (Key name)" for suffix
    using hash_tag_split [OF k(2-4), of b] hash_tag_split [OF k(2-4), of "b @ '':'' @ suffix"] by (simp add: k(1) Derived_def)
  then show ?thesis using assms(2) by (auto simp: in_family_def)
qed

text \<open>
  C18: No primitive with a proper name ever gets a \<^verbatim>\<open>CROSSSLOT\<close> error. In a cluster whose slot of a key
  depends on its hash tag only, every call that a mutex, leader, semaphore, read-write lock or rate
  limiter of that name makes is answered by its script, and the script issues commands only on keys
  of one slot, that of the primary key; so do the methods that issue commands without a script.
\<close>

theorem no_crossslot:
  assumes cluster: "\<And>k. slot k = crc (hash_tag k)" and name: "good_name name" and q: "sends c impl name q"
  shows "(\<exists>m. Source R impl fuel q = Some m \<and> only_keys R {k. slot k = slot (Key name)} m) \<and>
    (issues c impl name cmd \<longrightarrow> slot (cmd_key cmd) = slot (Key name))"
proof -
  obtain sc KEYS ARGV where q': "q = (sc, KEYS, ARGV)" by (metis prod_cases3)
  obtain m where m: "Source R impl fuel q = Some m" using sends_arrive [OF q] by blast
  have "slot k = slot (Key name)" if "k \<in> set KEYS" for k
    using sends_family [OF q] family_tag [OF name, of k] that by (simp add: q' cluster)
  then have sub: "set KEYS \<subseteq> {k. slot k = slot (Key name)}" by blast
  have "only_keys R (set KEYS) m" using Source_keys [of R impl fuel sc KEYS ARGV m] m q' by simp
  then have "only_keys R {k. slot k = slot (Key name)} m" using sub by (rule only_keys_mono)
  moreover have "slot (cmd_key cmd) = slot (Key name)" if "issues c impl name cmd"
    using issues_family [OF that] family_tag [OF name, of "cmd_key cmd"] by (simp add: cluster)
  ultimately show ?thesis using m by simp
qed

section \<open>Names\<close>

text \<open>A name without braces, which \<^verbatim>\<open>Key\<close> wraps.\<close>

definition plain_name :: "string \<Rightarrow> bool" where
  "plain_name name = (CHR ''{'' \<notin> set name \<and> CHR ''}'' \<notin> set name)"

lemma family_inject:
  assumes "plain_name a" "plain_name b" "in_family a k" "in_family b k"
  shows "a = b"
proof -
  have tag: "\<exists>r. k = CHR ''{'' # n @ CHR ''}'' # r" if "plain_name n" "in_family n k" for n
    using that by (auto simp: plain_name_def in_family_def Derived_def Key_def)
  obtain r r' where "k = CHR ''{'' # a @ CHR ''}'' # r" "k = CHR ''{'' # b @ CHR ''}'' # r'" using tag assms by metis
  then have "a @ CHR ''}'' # r = b @ CHR ''}'' # r'" by simp
  moreover have "takeWhile (\<lambda>c. c \<noteq> CHR ''}'') (n @ CHR ''}'' # x) = n" if "plain_name n" for n x
    using that by (subst takeWhile_append2) (auto simp: plain_name_def)
  ultimately show ?thesis using assms(1,2) by metis
qed

text \<open>
  C17: Primitives of different names do not interfere. When neither name has braces of its own, no
  call of a primitive of one name, and no command it issues without a script, changes any key that
  a primitive of the other uses: not its value, not its time to live.
\<close>

theorem names_isolated:
  assumes server: "redis_server R clock db" and names: "plain_name a" "plain_name b" "a \<noteq> b"
    and q: "sends c impl a q" "Source R impl fuel q = Some m" and k: "in_family b k"
  shows "db (snd (m s)) k = db s k \<and> (issues c impl a cmd \<longrightarrow> db (snd (redis_call R cmd s)) k = db s k)"
proof -
  obtain sc KEYS ARGV where q': "q = (sc, KEYS, ARGV)" by (metis prod_cases3)
  have "k \<notin> set KEYS" using sends_family [OF q(1)] q' family_inject [OF names(1,2) _ k] names(3) by auto
  then have "db (snd (m s)) k = db s k"
    using redis_server.only_keys_frame [OF server] Source_keys [of R impl fuel sc KEYS ARGV m] q(2) q' by blast
  moreover have "db (snd (redis_call R cmd s)) k = db s k" if "issues c impl a cmd"
  proof -
    have "cmd_key cmd \<noteq> k" using issues_family [OF that] family_inject [OF names(1,2) _ k] names(3) by auto
    then show ?thesis
      using redis_server.only_keys_frame [OF server only_keys_call [of cmd "{cmd_key cmd}" R], of k s] by simp
  qed
  ultimately show ?thesis by blast
qed

lemma invoke_wrong_type:
  assumes "redis_server R clock db" and "\<not> well_typed (db s) c"
  shows "\<exists>msg s'. invoke R c f s = (Inl msg, s') \<and> db s' = db s"
proof -
  obtain msg where v: "view db (call R c s) = (RErr msg, db s)" using redis_server.wrong_type [OF assms] by blast
  then show ?thesis using invoke_error [OF v] after_view [OF v] by blast
qed

text \<open>
  C40: Primitives of one name may interfere. A mutex, a semaphore and a token bucket use the same
  primary key: while a mutex is held, a semaphore and a token bucket of the same name fail with
  an error of the script, and leave the lock as it is.
\<close>

theorem same_name_fails:
  assumes server: "redis_server R clock db" and R: "rdb c = R" and T: "clock s \<le> T"
    and held: "holder (lock_abs (db (elapse R T s)) (mu_key (Client_Mutex c name opts)) (mu_fkey (Client_Mutex c name opts))) \<noteq> None"
    and se: "Client_Semaphore c name capacity opts' = Some se" and net: "acq_net env = Reply [] T" and n: "1 \<le> n"
    and rl: "Client_RateLimiter c name rate [] = Inr rl" and t: "rt_net t = Reply [] T" and x: "valid_request rl x"
  shows "(\<exists>msg s' w'. Semaphore_TryAcquire ge token env n se s w = (Inl (ScriptError msg), s', w') \<and> db s' = db (elapse R T s)) \<and>
    (\<exists>msg s' w'. Allow impl t x rl s w = (Inr (False, 0, Some (ScriptError msg)), s', w') \<and> db s' = db (elapse R T s))"
proof
  let ?s = "elapse R T s"
  have k: "is_str (db ?s) (Key name)" "db ?s (Key name) \<noteq> None"
    using held by (auto simp: lock_abs_def is_str_def split: option.splits rval.splits bulk.splits)
  then have bad: "\<not> well_typed (db ?s) (ZREMRANGEBYSCORE (Key name) hi)" "\<not> well_typed (db ?s) (HGET (Key name) f)" for hi f
    by (auto simp: is_str_def is_zset_def is_hash_def split: option.splits rval.splits)
  have se': "se_key se = Key name" "rdb (se_client se) = R" using se R by (auto simp: Client_Semaphore_def split: if_splits)
  obtain msg s' where "sem_acquire R (Key name) (UnixMilli (acq_started env)) (Milliseconds (ttl (se_cfg se))) (se_capacity se)
      (permit_tokens token n) ?s = (Inl msg, s')" "db s' = db ?s"
    using invoke_wrong_type [OF server bad(1)] unfolding sem_acquire_def by blast
  then show "\<exists>msg s' w'. Semaphore_TryAcquire ge token env n se s w = (Inl (ScriptError msg), s', w') \<and> db s' = db ?s"
    using se' net n by (simp add: Semaphore_TryAcquire_def PermitSet_TryAcquire_def Let_def)
  have rl': "rl_key rl = Key name" "rdb (rl_client rl) = R" "rl_algorithm rl = AlgorithmTokenBucket"
    using rl R by (auto simp: Client_RateLimiter_def Let_def split: if_splits)
  obtain script where script: "limiter_script impl t (request_count rl x) rl = Inr script" using limiter_script_ok [OF rl] by blast
  then have "script = ratelimit R impl (Key name) (rl_capacity rl) (rl_rate rl) (f64_of_int (UnixMilli (rt_now t))) (request_count rl x)"
    using rl' by (simp add: limiter_script_def Let_def)
  then obtain msg s' where "script ?s = (Inl msg, s')" "db s' = db ?s"
    using invoke_wrong_type [OF server bad(2)] unfolding ratelimit_def by blast
  then have "allow rl (rt_net t) script s = ((False, 0, Some (ScriptError msg)), s')" using rl' t by (simp add: allow_def)
  moreover obtain finish w1 where "t_Start (tracer (rl_client rl)) ''distsync.ratelimit.allow'' w = (finish, w1)" by fastforce
  ultimately show "\<exists>msg s' w'. Allow impl t x rl s w = (Inr (False, 0, Some (ScriptError msg)), s', w') \<and> db s' = db ?s"
    using Allow_valid [OF x script] \<open>db s' = db ?s\<close> by auto
qed

section \<open>Witnesses\<close>

definition wit_bucket :: "(mem, unit) limiter" where
  "wit_bucket = \<lparr>rl_client = New mem_redis [], rl_name = ''order'', rl_key = Key ''order'', rl_capacity = Fin 2, rl_rate = Fin 4,
     rl_algorithm = AlgorithmTokenBucket\<rparr>"

lemma wit_bucket_ctor: "Client_RateLimiter (New mem_redis []) ''order'' wit_rate [] = Inr wit_bucket"
  by (simp add: Client_RateLimiter_def wit_rate_def wit_bucket_def windowed_def IsInf_def wit_period Let_def del: f64_div.simps f64_mul.simps)

lemma wit_sends: "sends (New mem_redis [] :: (mem, unit) client) impl ''order'' (single_acquire_call (Mutex_newLease ''a'' wit_mutex))"
  by (rule sends.mutex [where m = "Client_Mutex (New mem_redis []) ''order'' []" and opts = "[]" and l = "Mutex_newLease ''a'' wit_mutex"]) (simp_all add: wit_mutex_def)

lemma wit_issues: "issues (New mem_redis [] :: (mem, unit) client) impl ''order'' (DEL (Key ''order''))"
  using issues.limiter [where now = 0, OF wit_bucket_ctor] by (simp add: wit_bucket_def)

theorem no_crossslot_witness:
  "(\<exists>m. Source mem_redis (\<lambda>_. 0) 9 (single_acquire_call (Mutex_newLease ''a'' wit_mutex)) = Some m \<and>
     only_keys mem_redis {k. length (hash_tag k) = length (hash_tag ''{order}'')} m) \<and>
   issues (New mem_redis [] :: (mem, unit) client) (\<lambda>_. 0) ''order'' (DEL (Key ''order''))"
  using no_crossslot [where slot = "\<lambda>k. length (hash_tag k)" and crc = length, OF refl _ wit_sends, of mem_redis "\<lambda>_. 0" 9 "DEL (Key ''order'')"]
    wit_issues by (simp add: good_name_def Key_def)

definition wit_jobs :: mem where
  "wit_jobs = \<lparr>mclock = 0, mdata = [Key ''jobs'' \<mapsto> (VStr (Text ''b''), Some 5000)]\<rparr>"

theorem names_isolated_witness:
  "mem_db (snd (single_request mem_redis (Mutex_newLease ''a'' wit_mutex) wit_jobs)) (Key ''jobs'') = Some (VStr (Text ''b''), Some 5000) \<and>
   mem_db (snd (redis_call mem_redis (DEL (Key ''order'')) wit_jobs)) (Key ''jobs'') = Some (VStr (Text ''b''), Some 5000)"
proof -
  have src: "Source mem_redis (\<lambda>_. 0) 9 (single_acquire_call (Mutex_newLease ''a'' wit_mutex)) =
      Some (single_request mem_redis (Mutex_newLease ''a'' wit_mutex))"
    by (simp add: call_defs source_defs single_request_def)
  show ?thesis
    using names_isolated [OF mem_server _ _ _ wit_sends src, of "''jobs''" "Key ''jobs''" wit_jobs "DEL (Key ''order'')"] wit_issues
    by (simp add: plain_name_def wit_jobs_def mem_db_def)
qed

theorem same_name_fails_witness:
  "\<exists>se msg s'. Client_Semaphore (New mem_redis []) ''order'' 3 [] = Some se \<and>
     Semaphore_TryAcquire wit_genv ''a'' wit_env 1 se wit_taken () = (Inl (ScriptError msg), s', ())"
proof -
  obtain se :: "(mem, unit) semaphore" where se: "Client_Semaphore (New mem_redis []) ''order'' 3 [] = Some se"
    by (simp add: Client_Semaphore_def)
  have held: "holder (lock_abs (mem_db (elapse mem_redis 3 wit_taken)) (Key ''order'') (Derived (Key ''order'') ''fencing'')) \<noteq> None"
    by (simp add: mem_redis_def wit_taken_db lock_abs_def)
  have x: "valid_request wit_bucket (Fin 1)" by (simp add: valid_request_def wit_bucket_def windowed_def)
  have R: "rdb (New mem_redis [] :: (mem, unit) client) = mem_redis" by (simp add: New_def)
  show ?thesis
    using same_name_fails [OF mem_server R _ _ se _ _ wit_bucket_ctor _ x, of wit_taken 3 "[]" wit_env 1 "wit_rt 0 3" wit_genv "''a''" "()" "\<lambda>_. 0"]
      held se by (auto simp: wit_taken_def wit_env_def wit_rt_def)
qed

end
