(* ===== verification/Scenario.thy ===== *)
theory Scenario
  imports Registry
begin

text \<open>
  The primitives on names that nobody uses, over a network that delivers every request and reply in
  time: each lease is granted at its first attempt, its release succeeds, and the keys of other
  names that were absent stay absent. So a program that uses several names can be followed one
  primitive at a time.
\<close>

section \<open>Names\<close>

definition unused :: "keyspace \<Rightarrow> string \<Rightarrow> bool" where
  "unused d name = (\<forall>k. in_family name k \<longrightarrow> d k = None)"

lemma unused_keys [simp]:
  assumes "unused d name"
  shows "d (Key name) = None" "d (Derived (Key name) suffix) = None"
  using assms by (simp_all add: unused_def)

text \<open>The server has come to \<open>T\<close>, and nothing has appeared outside the keys of \<open>name\<close>.\<close>

definition did :: "('s \<Rightarrow> int) \<Rightarrow> ('s \<Rightarrow> keyspace) \<Rightarrow> string \<Rightarrow> int \<Rightarrow> 's \<Rightarrow> 's \<Rightarrow> bool" where
  "did clock db name T s s' = (clock s' = T \<and> (\<forall>k. \<not> in_family name k \<longrightarrow> db s k = None \<longrightarrow> db s' k = None))"

lemma did_trans: "did clock db name T s s1 \<Longrightarrow> did clock db name T' s1 s2 \<Longrightarrow> did clock db name T' s s2"
  by (simp add: did_def)

lemma did_clock: "did clock db name T s s' \<Longrightarrow> clock s' = T"
  by (simp add: did_def)

lemma did_unused:
  assumes "did clock db name T s s'" "plain_name name" "plain_name other" "name \<noteq> other" "unused (db s) other"
  shows "unused (db s') other"
  using assms family_inject [of name other] by (auto simp: did_def unused_def)

lemma did_absent: "did clock db name T s s' \<Longrightarrow> \<not> in_family name k \<Longrightarrow> db s k = None \<Longrightarrow> db s' k = None"
  by (simp add: did_def)

lemma other_family: "plain_name a \<Longrightarrow> plain_name b \<Longrightarrow> a \<noteq> b \<Longrightarrow> in_family b k \<Longrightarrow> \<not> in_family a k"
  using family_inject [of a b k] by blast

section \<open>Leases\<close>

text \<open>The state a release leaves is that of its one request.\<close>

lemma Int64_state: "Int64 x = (r, s') \<Longrightarrow> s' = snd x"
  by (cases x rule: Int64.cases) auto

lemma Release_state:
  "SingleOwner_Release R tr l s = (e, l', s') \<Longrightarrow> s' = snd (Run R tr (single_release R (so_key l) (so_id l)) s)"
  "ps_tokens p \<noteq> [] \<Longrightarrow> PermitSet_Release R tr p s = (e, p', s') \<Longrightarrow> s' = snd (Run R tr (sem_release R (ps_key p) (ps_tokens p)) s)"
  "RWWriter_Release R tr w s = (e, w', s') \<Longrightarrow> s' = snd (Run R tr (single_release R (Writer (rw_on w)) (rw_id w)) s)"
  "RWReader_Release R tr w s = (e, w', s') \<Longrightarrow> s' = snd (Run R tr (sem_release R (Readers (rw_on w)) [rw_id w]) s)"
  by (auto simp: SingleOwner_Release_def PermitSet_Release_def RWWriter_Release_def RWReader_Release_def Let_def
      dest!: Int64_state split: prod.splits sum.splits option.splits if_splits)

context redis_server
begin

lemma Run_did:
  assumes "only_keys R K m" "\<forall>k \<in> K. in_family name k" "clock s \<le> T"
  shows "did clock db name T s (snd (Run R (Reply [] T) m s))"
proof -
  have "clock (snd (m (elapse R T s))) = T" using only_keys_clock [OF assms(1)] clock_elapse [OF assms(3)] by simp
  then have "clock (snd (Run R (Reply [] T) m s)) = T" by (cases "m (elapse R T s)") (auto split: sum.splits)
  then show ?thesis using Run_absent [OF assms(1), of _ s "Reply [] T"] assms(2,3) by (auto simp: did_def)
qed

text \<open>The exclusive lease, with and without a fence.\<close>

lemma lock_unused:
  assumes "unused (db s) name" "clock s \<le> T"
  shows "lock_wf (db s) (Key name) (Derived (Key name) ''fencing'')"
    "lock_abs (db (elapse R T s)) (Key name) (Derived (Key name) ''fencing'') = \<lparr>holder = None, fence = 0\<rparr>"
  using assms elapse_absent [OF assms(2), of "Key name"] elapse_absent [OF assms(2), of "Derived (Key name) ''fencing''"]
  by (simp_all add: lock_wf_def lock_abs_def ttlv_def counter_def)

lemma exclusive_session:
  assumes name: "unused (db s) name" and l: "so_key l = Key name" "so_fkey l = Derived (Key name) ''fencing''"
    and T: "clock s \<le> T" "T \<le> T'" "T' < T + Milliseconds (so_ttl l)"
    and env: "acq_net env = Reply [] T" "acq_replied env < requestExpiry (acq_started env) (so_ttl l)"
  shows "\<exists>s1 s2. SingleOwner_TryAcquire R env l s = (Inr (if so_fencing l then 1 else 0),
      l\<lparr>so_expiresAt := Some (requestExpiry (acq_started env) (so_ttl l))\<rparr>, s1) \<and> did clock db name T s s1 \<and>
    SingleOwner_Release R (Reply [] T') (l\<lparr>so_expiresAt := Some (requestExpiry (acq_started env) (so_ttl l))\<rparr>) s1 =
      (None, l\<lparr>so_expiresAt := None\<rparr>, s2) \<and> did clock db name T' s1 s2 \<and> db s2 (Key name) = None"
proof -
  let ?k = "Key name" and ?f = "Derived (Key name) ''fencing''" and ?n = "if so_fencing l then 1 else 0 :: int"
  let ?l1 = "l\<lparr>so_expiresAt := Some (requestExpiry (acq_started env) (so_ttl l))\<rparr>"
  have wf: "lock_wf (db s) (so_key l) (so_fkey l)" and ms: "0 < Milliseconds (so_ttl l)"
    using lock_unused(1) [OF name T(1)] l T by simp_all
  obtain s1 where run: "Run R (Reply [] T) (single_request R l) s = (Inr (fence_reply (Some ?n)), s1)"
    and held: "lock_abs (db s1) ?k ?f = \<lparr>holder = Some (so_id l, T + Milliseconds (so_ttl l)), fence = ?n\<rparr>"
      "lock_wf (db s1) ?k ?f"
    using Run_request [OF wf T(1) ms] lock_unused(2) [OF name T(1)] l by (auto simp: lock_acquire_def)
  have "only_keys R {?k, ?f} (single_request R l)" unfolding single_request_def l by (rule confined_exclusive)
  from Run_did [OF this, of name, OF _ T(1)] have d1: "did clock db name T s s1" using run by simp
  have acq: "SingleOwner_TryAcquire R env l s = (Inr (word_of_int ?n), ?l1, s1)"
    using Int64_fence_reply [OF run] env by (simp add: SingleOwner_TryAcquire_def)
  have c1: "clock s1 = T" using d1 by (rule did_clock)
  obtain s2 where rel: "SingleOwner_Release R (Reply [] T') ?l1 s1 = (None, ?l1\<lparr>so_expiresAt := None\<rparr>, s2)"
    "lock_abs (db s2) ?k ?f = \<lparr>holder = None, fence = ?n\<rparr>" "lock_wf (db s2) ?k ?f"
    using Release_held [of s1 ?l1 T' "T + Milliseconds (so_ttl l)" ?n] held l T c1 by auto
  have "s2 = snd (Run R (Reply [] T') (single_release R ?k (so_id l)) s1)"
    using Release_state(1) [OF rel(1)] l by simp
  then have d2: "did clock db name T' s1 s2"
    using Run_did [OF confined_exclusive(3) [of R ?k "so_id l"], of name s1 T'] c1 T(2) by simp
  have "db s2 ?k = None" using rel(2,3)
    by (auto simp: lock_abs_def lock_wf_def split: option.splits rval.splits bulk.splits)
  then show ?thesis using acq d1 rel(1) d2 by (intro exI [of _ s1] exI [of _ s2]) simp
qed

text \<open>One permit of a semaphore: taking it, counting, and giving it back.\<close>

lemma counting_acquire:
  assumes name: "unused (db s) name" and p: "ps_key p = Key name" "1 \<le> ps_capacity p" and T: "clock s \<le> T"
    and env: "acq_net env = Reply [] T" "acq_replied env < requestExpiry (acq_started env) (ps_ttl p)"
    and p1: "p1 = p\<lparr>ps_tokens := permit_tokens (ps_id p) 1, ps_acquired := True,
      ps_expiresAt := Some (requestExpiry (acq_started env) (ps_ttl p))\<rparr>"
  shows "\<exists>s1 m t. PermitSet_TryAcquire R env 1 p s = (None, p1, s1) \<and> did clock db name T s s1 \<and> ps_tokens p1 = [m] \<and>
    pool_at (db s1) (Key name) [(m, t)]"
proof -
  let ?k = "Key name" and ?ms = "permit_tokens (ps_id p) 1" and ?now = "UnixMilli (acq_started env)"
  let ?q = "sem_acquire R ?k ?now (Milliseconds (ps_ttl p)) (ps_capacity p) ?ms"
  obtain m where m: "?ms = [m]" using length_permit_tokens [of "ps_id p" 1] by (auto simp: length_Suc_conv)
  have pool: "pool_at (db s) ?k []" using name by (simp add: pool_at_def is_zset_def ttlv_def zsetv_def)
  have out: "pool_acquire ?now (Milliseconds (ps_ttl p)) (ps_capacity p) ?ms [] = (Some 1, [(m, ?now + Milliseconds (ps_ttl p))])"
    using p(2) by (simp add: pool_acquire_def m owned_of_def zadd_def)
  obtain s1 where run: "Run R (Reply [] T) ?q s = (Inr (fence_reply (Some 1)), s1)" and pool1: "pool_at (db s1) ?k [(m, ?now + Milliseconds (ps_ttl p))]"
    using Run_sem_acquire [OF pool T out] by blast
  have "did clock db name T s s1" using Run_did [OF confined_counting(1), of ?k name s T] T run by (metis in_family_simps(1) singletonD snd_conv)
  moreover have "PermitSet_TryAcquire R env 1 p s = (None, p1, s1)"
    using Int64_fence_reply [OF run] env p by (simp add: PermitSet_TryAcquire_def Let_def p1)
  ultimately show ?thesis using pool1 m by (simp add: p1) blast
qed

lemma counting_look:
  assumes "pool_at (db s) (Key name) z" "clock s \<le> T"
  shows "\<exists>s'. Run R (Reply [] T) (redis_call R (ZCARD (Key name))) s = (Inr (RInt (int (length z))), s') \<and>
    pool_at (db s') (Key name) z \<and> did clock db name T s s'"
proof -
  have "only_keys R {Key name} (redis_call R (ZCARD (Key name)))" by (intro confined) simp
  from Run_did [OF this, of name s T] show ?thesis using pool_elapse [OF assms] zcard_law [of "elapse R T s" "Key name"] assms(2)
    by (cases "call R (ZCARD (Key name)) (elapse R T s)") (auto simp: redis_call_def view_def pool_at_def)
qed

lemma counting_release:
  assumes pool: "pool_at (db s) (Key name) [(m, t)]" and p: "ps_key p = Key name" "ps_tokens p = [m]" and T: "clock s \<le> T"
  shows "\<exists>p' s'. PermitSet_Release R (Reply [] T) p s = (None, p', s') \<and> did clock db name T s s' \<and> db s' (Key name) = None"
proof -
  obtain s' where run: "Run R (Reply [] T) (sem_release R (Key name) [m]) s = (Inr (SInt 1), s')" and pool': "pool_at (db s') (Key name) []"
    using Run_sem_release [OF pool T, of "[m]"] by (auto simp: owned_of_def pool_release_def zrem_def)
  have "did clock db name T s s'" using Run_did [OF confined_counting(3) [of R "Key name" "[m]"], of name s T] run T by simp
  moreover have "db s' (Key name) = None" using pool' zsetv_empty [of s' "Key name"] by (simp add: pool_at_def)
  ultimately show ?thesis using run p by (simp add: PermitSet_Release_def)
qed

end

section \<open>The read-write lock\<close>

text \<open>A lock nobody holds or waits for, after at most one grant.\<close>

definition rw_idle :: "rw_state \<Rightarrow> bool" where
  "rw_idle st = (wr st = None \<and> rd st = [] \<and> queue st = [] \<and> beats st = [] \<and> wfence st = 0 \<and> 0 \<le> seqn st \<and> seqn st \<le> 1)"

lemma rw_idle_ok: "rw_idle st \<Longrightarrow> rw_ok st \<and> rw_room st"
  by (simp add: rw_idle_def rw_ok_def rw_room_def zwf_def)

lemma joined_idle:
  assumes "rw_idle st" "0 < timeout"
  shows "purge (now - timeout) (joined m now e st) =
    st\<lparr>queue := [(m, seqn st + 1)], beats := [(m, inum now)], seqn := seqn st + 1, qexp := Some e\<rparr>" "arrival m st = seqn st + 1"
  using assms by (simp_all add: rw_idle_def joined_def arrival_def Let_def purge_def stale_def older_def bulk_reply_def zadd_def)

lemma rw_read_idle:
  assumes "rw_idle st" "0 < timeout"
  shows "rw_read token lt now timeout T st =
    (Some 1, st\<lparr>rd := [(token, now + lt)], seqn := seqn st + 1, qexp := Some (T + timeout)\<rparr>)"
  using assms joined_idle(1) [OF assms, where e = "T + timeout" and now = now and m = "''R:'' @ token"]
    joined_idle(2) [OF assms, of "''R:'' @ token"]
  by (simp add: rw_read_def Let_def writer_before_def leave_def rw_idle_def zadd_def zrem_def)

lemma rw_write_idle:
  assumes "rw_idle st" "0 < timeout"
  shows "rw_write token lt now timeout T st =
    (Some 1, st\<lparr>wr := Some (token, T + lt), wfence := 1, seqn := seqn st + 1, qexp := Some (T + timeout)\<rparr>)"
  using assms joined_idle(1) [OF assms, where e = "T + timeout" and now = now and m = "''W:'' @ token"]
    joined_idle(2) [OF assms, of "''W:'' @ token"]
  by (simp add: rw_write_def Let_def behind_def leave_def rw_idle_def zrem_def)

context redis_server
begin

lemma rw_unused:
  assumes name: "unused (db s) name" and K: "K = rm_keys (Client_RWMutex c name opts)"
  shows "\<exists>st. shows_rw (db s) K st \<and> rw_idle st \<and> seqn st = 0"
  using name unfolding K
  by (intro exI [of _ "\<lparr>wr = None, rd = [], wfence = 0, queue = [], beats = [], seqn = 0, qexp = None\<rparr>"])
    (simp add: shows_rw_def rw_idle_def kv_defs counter_def)

lemma rw_idle_elapsed: "rw_elapsed T st st' \<Longrightarrow> rw_idle st \<Longrightarrow> rw_idle st'"
  by (auto simp: rw_elapsed_def rw_idle_def)

text \<open>A reader comes and goes.\<close>

lemma reader_session:
  assumes name: "unused (db s) name" and K: "K = rm_keys (Client_RWMutex c name opts)"
    and lt: "0 < waiterTimeout lt" and fuel: "1 < fuel" and T: "clock s \<le> T" "T \<le> T'"
    and env: "acq_net env = Reply [] T" "acq_replied env < requestExpiry (acq_started env) lt"
    and r: "r = NewRWReader token K lt"
  shows "\<exists>s1 s2 r2. RWReader_Acquire R fuel env r s = (None, r\<lparr>rw_expiresAt := Some (requestExpiry (acq_started env) lt)\<rparr>, s1) \<and>
    did clock db name T s s1 \<and>
    RWReader_Release R (Reply [] T') (r\<lparr>rw_expiresAt := Some (requestExpiry (acq_started env) lt)\<rparr>) s1 = (None, r2, s2) \<and>
    did clock db name T' s1 s2 \<and> (\<exists>st. shows_rw (db s2) K st \<and> rw_idle st)"
proof -
  let ?now = "UnixMilli (acq_started env)"
  have D: "rw_distinct K" unfolding K by (rule Client_RWMutex_distinct)
  obtain st where st: "shows_rw (db (elapse R T s)) K st" "rw_idle st" "seqn st = 0"
    using rw_unused [OF _ K, of "elapse R T s"] name elapse_absent [OF T(1)] by (auto simp: unused_def)
  define st1 where "st1 = st\<lparr>rd := [(token, ?now + Milliseconds lt)], seqn := 1, qexp := Some (T + waiterTimeout lt)\<rparr>"
  have q: "Suc (length (queue st)) < fuel" using st(2) fuel by (simp add: rw_idle_def)
  have c: "clock (elapse R T s) = T" by (rule clock_elapse [OF T(1)])
  obtain s1 where s1: "rw_read_lock R fuel K token (Milliseconds lt) ?now (waiterTimeout lt) (elapse R T s) = (Inr (SInt 1), s1)"
      "clock s1 = T" "shows_rw (db s1) K st1"
    using rw_read_refines [OF D st(1) _ _ lt q, of token "Milliseconds lt" ?now] rw_idle_ok [OF st(2)]
      rw_read_idle [OF st(2) lt] c st(3) by (auto simp: fence_reply_def st1_def)
  have run1: "Run R (Reply [] T) (read_request R fuel (acq_started env) r) s = (Inr (SInt 1), s1)"
    using s1(1) by (simp add: read_request_def r NewRWReader_def)
  have "only_keys R {Writer K, Readers K, Waiters K, WaiterTS K, Seq K} (read_request R fuel (acq_started env) r)"
    unfolding read_request_def r NewRWReader_def K primitive_keys rw_lease.simps rw_keys.simps by (rule confined_rw)
  from Run_did [OF this, of name s T] have d1: "did clock db name T s s1" using run1 T(1) by (simp add: K)
  obtain st1' where e: "shows_rw (db (elapse R T' s1)) K st1'" "rw_elapsed T' st1 st1'"
    using rw_elapse_refines [OF s1(3), of T'] s1(2) T(2) by auto
  obtain s2 where s2: "sem_release R (Readers K) [token] (elapse R T' s1) = (Inr (SInt 1), s2)" "shows_rw (db s2) K (st1'\<lparr>rd := []\<rparr>)"
    using reader_release_exec [OF D e(1), of token] e(2)
    by (auto simp: rw_elapsed_def st1_def owned_of_def pool_release_def zrem_def)
  have "rw_idle (st1'\<lparr>rd := []\<rparr>)" using e(2) st(2) by (auto simp: rw_elapsed_def rw_idle_def st1_def)
  moreover have run2: "Run R (Reply [] T') (sem_release R (Readers K) [token]) s1 = (Inr (SInt 1), s2)" using s2(1) by simp
  then have "did clock db name T' s1 s2"
    using Run_did [OF confined_counting(3) [of R "Readers K" "[token]"], of name s1 T'] s1(2) T(2) by (simp add: K)
  moreover have "RWReader_Acquire R fuel env r s = (None, r\<lparr>rw_expiresAt := Some (requestExpiry (acq_started env) lt)\<rparr>, s1)"
    using run1 env by (simp add: RWReader_Acquire_def) (simp add: r NewRWReader_def)
  ultimately show ?thesis using d1 run2 s2(2)
    by (intro exI [of _ s1] exI [of _ s2] exI [of _ "r\<lparr>rw_expiresAt := None\<rparr>"])
      (auto simp: RWReader_Release_def r NewRWReader_def)
qed

text \<open>A writer comes after it and goes.\<close>

lemma writer_session:
  assumes idle: "shows_rw (db s) K st0" "rw_idle st0" and K: "K = rm_keys (Client_RWMutex c name opts)"
    and lt: "0 < waiterTimeout lt" and fuel: "1 < fuel" and T: "clock s \<le> T" "T \<le> T'" "T' < T + Milliseconds lt"
    and env: "acq_net env = Reply [] T" "acq_replied env < requestExpiry (acq_started env) lt"
    and w: "w = NewRWWriter token K lt"
  shows "\<exists>s1 s2 w2. RWWriter_TryAcquire R fuel env w s = (Inr 1, w\<lparr>rw_expiresAt := Some (requestExpiry (acq_started env) lt)\<rparr>, s1) \<and>
    did clock db name T s s1 \<and>
    RWWriter_Release R (Reply [] T') (w\<lparr>rw_expiresAt := Some (requestExpiry (acq_started env) lt)\<rparr>) s1 = (None, w2, s2) \<and>
    did clock db name T' s1 s2 \<and> db s2 (Writer K) = None \<and> db s2 (Readers K) = None \<and> db s2 (Waiters K) = None"
proof -
  let ?now = "UnixMilli (acq_started env)"
  have D: "rw_distinct K" unfolding K by (rule Client_RWMutex_distinct)
  obtain st where st: "shows_rw (db (elapse R T s)) K st" "rw_idle st"
    using rw_elapse_refines [OF idle(1) T(1)] rw_idle_elapsed [OF _ idle(2)] by blast
  define st1 where "st1 = st\<lparr>wr := Some (token, T + Milliseconds lt), wfence := 1, seqn := seqn st + 1, qexp := Some (T + waiterTimeout lt)\<rparr>"
  have q: "Suc (length (queue st)) < fuel" and ms: "0 < Milliseconds lt" using st(2) fuel T by (simp_all add: rw_idle_def)
  have c: "clock (elapse R T s) = T" by (rule clock_elapse [OF T(1)])
  obtain s1 where s1: "rw_write_lock R fuel K token (Milliseconds lt) ?now (waiterTimeout lt) (elapse R T s) = (Inr (SInt 1), s1)"
      "clock s1 = T" "shows_rw (db s1) K st1"
    using rw_write_refines [OF D st(1) _ _ ms lt q, of token ?now] rw_idle_ok [OF st(2)] rw_write_idle [OF st(2) lt] c
    by (auto simp: fence_reply_def st1_def)
  have run1: "Run R (Reply [] T) (write_request R fuel (acq_started env) w) s = (Inr (SInt 1), s1)"
    using s1(1) by (simp add: write_request_def w NewRWWriter_def)
  have "only_keys R {Writer K, Readers K, Fencing K, Waiters K, WaiterTS K, Seq K} (write_request R fuel (acq_started env) w)"
    unfolding write_request_def w NewRWWriter_def K primitive_keys rw_lease.simps rw_keys.simps by (rule confined_rw)
  from Run_did [OF this, of name s T] have d1: "did clock db name T s s1" using run1 T(1) by (simp add: K)
  obtain st1' where e: "shows_rw (db (elapse R T' s1)) K st1'" "rw_elapsed T' st1 st1'"
    using rw_elapse_refines [OF s1(3), of T'] s1(2) T(2) by auto
  have wr: "wr st1' = Some (token, T + Milliseconds lt)" "rd st1' = []" "queue st1' = []"
    using e(2) T(3) st(2) by (auto simp: rw_elapsed_def st1_def rw_idle_def)
  obtain s2 where s2: "single_release R (Writer K) token (elapse R T' s1) = (Inr (SInt 1), s2)" "shows_rw (db s2) K (st1'\<lparr>wr := None\<rparr>)"
    using writer_release_exec [OF D e(1), of token] wr(1) by (auto simp: bool_reply_def)
  have run2: "Run R (Reply [] T') (single_release R (Writer K) token) s1 = (Inr (SInt 1), s2)" using s2(1) by simp
  then have d2: "did clock db name T' s1 s2"
    using Run_did [OF confined_exclusive(3) [of R "Writer K" token], of name s1 T'] s1(2) T(2) by (simp add: K)
  have "db s2 (Writer K) = None" "db s2 (Readers K) = None" "db s2 (Waiters K) = None"
    using s2(2) wr zsetv_empty [of s2] by (auto simp: shows_rw_def)
  moreover have "RWWriter_TryAcquire R fuel env w s = (Inr 1, w\<lparr>rw_expiresAt := Some (requestExpiry (acq_started env) lt)\<rparr>, s1)"
    using run1 env by (simp add: RWWriter_TryAcquire_def) (simp add: w NewRWWriter_def)
  ultimately show ?thesis using d1 run2 d2
    by (intro exI [of _ s1] exI [of _ s2] exI [of _ "w\<lparr>rw_expiresAt := None\<rparr>"])
      (auto simp: RWWriter_Release_def w NewRWWriter_def)
qed

end

section \<open>The rate limiters\<close>

text \<open>A hundred per second: all numbers that occur are integers.\<close>

lemma whole [simp]:
  "f64_round 0 = Fin 0" "f64_round 1 = Fin 1" "f64_round 99 = Fin 99" "f64_round 100 = Fin 100" "f64_round 1000 = Fin 1000"
  "f64_round 2000 = Fin 2000" "f64_round 1000000000 = Fin 1000000000"
  using f64_of_int_exact [of 0] f64_of_int_exact [of 1] f64_of_int_exact [of 99] f64_of_int_exact [of 100]
    f64_of_int_exact [of 1000] f64_of_int_exact [of 2000] f64_of_int_exact [of 1000000000] by simp_all

definition hundred :: "('s, 'w) client \<Rightarrow> string \<Rightarrow> Algorithm \<Rightarrow> ('s, 'w) limiter" where
  "hundred c name a = \<lparr>rl_client = c, rl_name = name, rl_key = Key name, rl_capacity = Fin 100, rl_rate = Fin 100, rl_algorithm = a\<rparr>"

lemma hundred_constructed:
  "Client_RateLimiter c name (PerSecond (Fin 100)) [] = Inr (hundred c name AlgorithmTokenBucket)"
  "Client_RateLimiter c name (PerSecond (Fin 100)) [SlidingWindow] = Inr (hundred c name AlgorithmSlidingWindow)"
  by (simp_all add: Client_RateLimiter_def hundred_def PerSecond_def SlidingWindow_def windowed_def IsInf_def Let_def)

lemma hundred_window: "Milliseconds (window impl (hundred c name a)) = 1000"
  by (simp add: window_def hundred_def f64_to_int64_def trunc_def Milliseconds_nonneg)

lemma hundred_script:
  "limiter_script impl t (request_count (hundred c name AlgorithmTokenBucket) (Fin 1)) (hundred c name AlgorithmTokenBucket) =
     Inr (ratelimit (rdb c) impl (Key name) (Fin 100) (Fin 100) (f64_of_int (UnixMilli (rt_now t))) (Fin 1))"
  "limiter_script impl t (request_count (hundred c name AlgorithmSlidingWindow) (Fin 1)) (hundred c name AlgorithmSlidingWindow) =
     Inr (ratelimit_sliding (rdb c) impl (Key name) (Fin 100) 1000 (UnixMilli (rt_now t)) 1 (rt_token t))"
  using hundred_window [of impl c name]
  by (simp_all add: limiter_script_def request_count_def windowed_def Let_def) (simp_all add: hundred_def f64_to_int64_def trunc_def)

lemma hundred_valid: "valid_request (hundred c name a) (Fin 1)"
  by (simp add: valid_request_def hundred_def)

context redis_server
begin

lemma token_first:
  assumes "db s key = None" "\<bar>now\<bar> < 2 ^ 53"
  shows "\<exists>s'. ratelimit R impl key (Fin 100) (Fin 100) (f64_of_int now) (Fin 1) s = (Inr (SInts [1, 99, 0]), s')"
proof -
  have h: "is_hash (db s) key" "hashv (db s) key = []" using assms(1) by (simp_all add: is_hash_def hashv_def)
  have now: "f64_of_int now = Ms now" unfolding f64_of_int_def by (rule f64_of_int_exact [OF assms(2)])
  let ?s2 = "after R (HGET key ''ts'') (after R (HGET key ''tokens'') s)"
  have L: "bucket_life (Fin 100) (Fin 100) = Ms 2000" "integer_arg (Ms 2000) = Some 2000"
    by (simp_all add: bucket_life_def integer_arg_def)
  have "is_hash (db ?s2) key" using h(1) bucket_reads(2) [OF h(1)] by simp
  from bucket_writes [OF this L, of "''tokens''" "''ts''" "Num 99" "Num (of_int now)" "SInts [1, 99, 0]"]
  show ?thesis
    by (auto simp: ratelimit_def bucket_reads [OF h(1)] h(2) bulk_reply_def now refill_def f64_sub_def table3_def f64_to_int64_def trunc_def Let_def)
qed

lemma sliding_first:
  assumes "db s key = None"
  shows "\<exists>s'. ratelimit_sliding R impl key (Fin 100) 1000 now 1 p s = (Inr (SInts [1, 99, 0]), s')"
proof -
  let ?s2 = "after R (ZCARD key) (after R (ZREMRANGEBYSCORE key (now - 1000)) s)"
  have h: "is_zset (db s) key" "zsetv (db s) key = []" using assms by (simp_all add: is_zset_def zsetv_def)
  have s2: "is_zset (db ?s2) key" "zsetv (db ?s2) key = []" using h by (simp_all add: redis_step kv)
  have ms: "sliding_members p 1 \<noteq> []" by (simp add: sliding_members_def)
  have f: "\<not> f64_less (Fin 100) (f64_add (f64_of_int 0) (Ms 1))" "f64_sub (f64_sub (Fin 100) (f64_of_int 0)) (Ms 1) = Fin 99"
    by (simp_all add: f64_of_int_def f64_sub_def)
  have t: "table3 impl (Fin 1, Fin 99, Fin 0) = SInts [1, 99, 0]" by (simp add: table3_def f64_to_int64_def trunc_def)
  obtain s' where "zadd_each R key now (sliding_members p 1) (pexpire R key (f64_mul (Ms 1000) (Fin 2)) (lua_return (SInts [1, 99, 0]))) ?s2 = (Inr (SInts [1, 99, 0]), s')"
    using sliding_admit [OF s2 _ _ ms, of 1000 now "SInts [1, 99, 0]"] by auto
  then show ?thesis using h f t by (simp add: ratelimit_sliding_def redis_step kv del: f64_mul.simps f64_less.simps f64_add.simps)
qed

text \<open>So the first request of a limiter is admitted, and nothing but its key is used.\<close>

lemma limiter_session:
  assumes name: "unused (db s) name" and R: "rdb c = R" and T: "clock s \<le> T" and t: "rt_net t = Reply [] T" "\<bar>UnixMilli (rt_now t)\<bar> < 2 ^ 53"
    and a: "a = AlgorithmTokenBucket \<or> a = AlgorithmSlidingWindow"
    and tr: "t_Start (tracer c) ''distsync.ratelimit.allow'' w = (finish, w1)"
  shows "\<exists>s1. Allow impl t (Fin 1) (hundred c name a) s w = (Inr (True, 0, None), s1, finish None w1) \<and> did clock db name T s s1"
proof -
  let ?rl = "hundred c name a"
  obtain q where q: "limiter_script impl t (request_count ?rl (Fin 1)) ?rl = Inr q" "only_keys R {Key name} q"
      "\<exists>s1. q (elapse R T s) = (Inr (SInts [1, 99, 0]), s1)"
    using a
  proof
    assume "a = AlgorithmTokenBucket"
    then show ?thesis using that hundred_script(1) [of impl t c name] R t(2)
        confined_limiters(1) [of R "Key name" impl "Fin 100" "Fin 100" "f64_of_int (UnixMilli (rt_now t))" "Fin 1"] token_first [of "elapse R T s" "Key name"] elapse_absent [OF T] name by auto
  next
    assume "a = AlgorithmSlidingWindow"
    then show ?thesis using that hundred_script(2) [of impl t c name] R
        confined_limiters(4) [of R "Key name" impl "Fin 100" 1000 "UnixMilli (rt_now t)" 1 "rt_token t"] sliding_first [of "elapse R T s" "Key name"] elapse_absent [OF T] name by auto
  qed
  then obtain s1 where s1: "Run R (Reply [] T) q s = (Inr (SInts [1, 99, 0]), s1)" by auto
  have cl: "rl_client ?rl = c" by (simp add: hundred_def)
  have "allow ?rl (rt_net t) q s = ((True, 0, None), s1)" using s1 R t(1) by (simp add: allow_def cl int64_def)
  then have "Allow impl t (Fin 1) ?rl s w = (Inr (True, 0, None), s1, finish None w1)"
    using Allow_valid [OF hundred_valid q(1), of w finish w1 s] tr cl by simp
  moreover have "did clock db name T s s1" using Run_did [OF q(2), of name s T] s1 T by simp
  ultimately show ?thesis by blast
qed

end

end
