(* ===== verification/Sinks.thy ===== *)
theory Sinks
  imports Options
begin

text \<open>
  \<^verbatim>\<open>metrics/prometheus.go\<close> and \<^verbatim>\<open>telemetry/telemetry.go\<close>: the implementations of \<^verbatim>\<open>Metrics\<close> and
  \<^verbatim>\<open>Tracer\<close> the repository ships. The Prometheus client and OpenTelemetry are not part of the
  repository: their operations are the fields of a record, over the state \<open>'w\<close> they keep.
\<close>

section \<open>Prometheus\<close>

datatype collector = Acquires | AcquireWait | Releases | Renews | RenewStopped

text \<open>Namespace, name and label names of a collector.\<close>

fun collector_opts :: "collector \<Rightarrow> string \<times> string \<times> string list" where
  "collector_opts Acquires = (''distsync'', ''acquires_total'', [''primitive'', ''resource'', ''result''])"
| "collector_opts AcquireWait = (''distsync'', ''acquire_wait_seconds'', [''primitive'', ''resource''])"
| "collector_opts Releases = (''distsync'', ''releases_total'', [''primitive'', ''resource''])"
| "collector_opts Renews = (''distsync'', ''renews_total'', [''primitive'', ''resource'', ''result''])"
| "collector_opts RenewStopped = (''distsync'', ''renewal_stopped_total'', [''primitive'', ''resource'', ''reason''])"

text \<open>
  \<^verbatim>\<open>WithLabelValues(...).Inc()\<close>, \<^verbatim>\<open>WithLabelValues(...).Observe(x)\<close>, and \<^verbatim>\<open>MustRegister\<close> on a registry,
  which panics (\<^term>\<open>None\<close>) when a collector is registered already.
\<close>

record ('r, 'w) prom_api =
  api_Inc :: "collector \<Rightarrow> string list \<Rightarrow> 'w \<Rightarrow> 'w"
  api_Observe :: "collector \<Rightarrow> string list \<Rightarrow> f64 \<Rightarrow> 'w \<Rightarrow> 'w"
  api_MustRegister :: "'r \<Rightarrow> (string \<times> string \<times> string list) list \<Rightarrow> 'w \<Rightarrow> 'w option"
  api_DefaultRegisterer :: 'r

record ('r, 'w) prometheus =
  pr_resources :: "string list"
  pr_api :: "('r, 'w) prom_api"

text \<open>The allowlist is a map to the empty struct; its keys are listed here without repetition.\<close>

definition NewWithResources ::
  "('r, 'w) prom_api \<Rightarrow> 'r option \<Rightarrow> string list \<Rightarrow> 'w \<Rightarrow> (('r, 'w) prometheus \<times> 'w) option" where
  "NewWithResources api reg resources w =
     (let reg' = (case reg of None \<Rightarrow> api_DefaultRegisterer api | Some x \<Rightarrow> x);
          p = \<lparr>pr_resources = fold List.insert resources [], pr_api = api\<rparr>
      in case api_MustRegister api reg' (map collector_opts [Acquires, AcquireWait, Releases, Renews, RenewStopped]) w of
           None \<Rightarrow> None
         | Some w' \<Rightarrow> Some (p, w'))"

definition Prometheus_New :: "('r, 'w) prom_api \<Rightarrow> 'r option \<Rightarrow> 'w \<Rightarrow> (('r, 'w) prometheus \<times> 'w) option" where
  "Prometheus_New api reg w = NewWithResources api reg [] w"

definition resourceLabel :: "('r, 'w) prometheus \<Rightarrow> string \<Rightarrow> string" where
  "resourceLabel p resource = (if resource \<in> set (pr_resources p) then resource else ''other'')"

text \<open>\<^verbatim>\<open>Duration.Seconds\<close> of the standard library.\<close>

definition Seconds :: "duration \<Rightarrow> f64" where
  "Seconds d = f64_add (f64_of_int (quot d Second)) (f64_div (f64_of_int (d - Second * quot d Second)) (Fin 1000000000))"

definition result_label :: "bool \<Rightarrow> string" where
  "result_label ok = (if \<not> ok then ''failure'' else ''success'')"

definition Prometheus_Acquire :: "('r, 'w) prometheus \<Rightarrow> string \<Rightarrow> string \<Rightarrow> bool \<Rightarrow> duration \<Rightarrow> 'w \<Rightarrow> 'w" where
  "Prometheus_Acquire p primitive resource ok wait w =
     (let resource' = resourceLabel p resource;
          w1 = api_Inc (pr_api p) Acquires [primitive, resource', result_label ok] w
      in api_Observe (pr_api p) AcquireWait [primitive, resource'] (Seconds wait) w1)"

definition Prometheus_Release :: "('r, 'w) prometheus \<Rightarrow> string \<Rightarrow> string \<Rightarrow> 'w \<Rightarrow> 'w" where
  "Prometheus_Release p primitive resource w = api_Inc (pr_api p) Releases [primitive, resourceLabel p resource] w"

definition Prometheus_Renew :: "('r, 'w) prometheus \<Rightarrow> string \<Rightarrow> string \<Rightarrow> bool \<Rightarrow> 'w \<Rightarrow> 'w" where
  "Prometheus_Renew p primitive resource ok w =
     api_Inc (pr_api p) Renews [primitive, resourceLabel p resource, result_label ok] w"

definition Prometheus_RenewalStopped :: "('r, 'w) prometheus \<Rightarrow> string \<Rightarrow> string \<Rightarrow> string \<Rightarrow> 'w \<Rightarrow> 'w" where
  "Prometheus_RenewalStopped p primitive resource reason w =
     api_Inc (pr_api p) RenewStopped [primitive, resourceLabel p resource, reason] w"

text \<open>The sink as the \<^verbatim>\<open>Metrics\<close> a client takes.\<close>

definition Prometheus_metrics :: "('r, 'w) prometheus \<Rightarrow> 'w metrics" where
  "Prometheus_metrics p = \<lparr>m_Acquire = Prometheus_Acquire p, m_Release = Prometheus_Release p,
     m_Renew = Prometheus_Renew p, m_RenewalStopped = Prometheus_RenewalStopped p\<rparr>"

section \<open>OpenTelemetry\<close>

text \<open>A tracer provider starts spans, \<open>'p\<close>, and a span takes an error, a status and an end.\<close>

record ('p, 'w) otel =
  ot_Start :: "string \<Rightarrow> string \<Rightarrow> 'w \<Rightarrow> 'p \<times> 'w"
  ot_RecordError :: "'p \<Rightarrow> goerr \<Rightarrow> 'w \<Rightarrow> 'w"
  ot_SetStatusError :: "'p \<Rightarrow> goerr \<Rightarrow> 'w \<Rightarrow> 'w"
  ot_End :: "'p \<Rightarrow> 'w \<Rightarrow> 'w"

record ('p, 'w) otel_tracer = ot_provider :: "('p, 'w) otel"

definition NewTracer :: "('p, 'w) otel \<Rightarrow> ('p, 'w) otel option \<Rightarrow> ('p, 'w) otel_tracer" where
  "NewTracer global provider = \<lparr>ot_provider = (case provider of None \<Rightarrow> global | Some x \<Rightarrow> x)\<rparr>"

definition Tracer_Start :: "('p, 'w) otel_tracer \<Rightarrow> string \<Rightarrow> 'w \<Rightarrow> (goerr option \<Rightarrow> 'w \<Rightarrow> 'w) \<times> 'w" where
  "Tracer_Start t name w =
     (let (span, w1) = ot_Start (ot_provider t) ''distsync'' name w
      in (\<lambda>err w2. ot_End (ot_provider t) span
            (case err of
               None \<Rightarrow> w2
             | Some e \<Rightarrow> ot_SetStatusError (ot_provider t) span e (ot_RecordError (ot_provider t) span e w2)), w1))"

definition Tracer_tracer :: "('p, 'w) otel_tracer \<Rightarrow> 'w tracer" where
  "Tracer_tracer t = \<lparr>t_Start = Tracer_Start t\<rparr>"

section \<open>The series of a collector\<close>

text \<open>
  What the Prometheus client documents: a vector has one series for each combination of label
  values that was used, and using one leaves the series of other collectors alone.
\<close>

locale prom_client =
  fixes api :: "('r, 'w) prom_api"
    and series :: "collector \<Rightarrow> 'w \<Rightarrow> string list set"
  assumes inc_law: "series c (api_Inc api c' ls w) = (if c = c' then insert ls (series c w) else series c w)"
    and observe_law: "series c (api_Observe api c' ls x w) = (if c = c' then insert ls (series c w) else series c w)"
    and register_law: "api_MustRegister api reg cs w = Some w' \<Longrightarrow> series c w' = series c w"

text \<open>The events a sink receives.\<close>

datatype event =
    EvAcquire string string bool duration
  | EvRelease string string
  | EvRenew string string bool
  | EvRenewalStopped string string string

fun emit :: "'w metrics \<Rightarrow> event \<Rightarrow> 'w \<Rightarrow> 'w" where
  "emit m (EvAcquire p r ok d) w = m_Acquire m p r ok d w"
| "emit m (EvRelease p r) w = m_Release m p r w"
| "emit m (EvRenew p r ok) w = m_Renew m p r ok w"
| "emit m (EvRenewalStopped p r reason) w = m_RenewalStopped m p r reason w"

definition labelled :: "string set \<Rightarrow> string list set \<Rightarrow> bool" where
  "labelled A S = (\<forall>ls \<in> S. 2 \<le> length ls \<and> ls ! 1 \<in> insert ''other'' A)"

lemma resourceLabel_in: "resourceLabel p r \<in> insert ''other'' (set (pr_resources p))"
  by (simp add: resourceLabel_def)

lemma set_fold_insert: "set (fold List.insert xs ys) = set xs \<union> set ys"
  by (induction xs arbitrary: ys) auto

context prom_client
begin

lemmas sink_defs = Prometheus_metrics_def Prometheus_Acquire_def Prometheus_Release_def Prometheus_Renew_def
  Prometheus_RenewalStopped_def

lemma emit_labelled:
  assumes "labelled (set (pr_resources p)) (series c w)" and "pr_api p = api"
  shows "labelled (set (pr_resources p)) (series c (emit (Prometheus_metrics p) ev w))"
  using assms resourceLabel_in [of p]
  by (cases ev) (auto simp: sink_defs Let_def labelled_def inc_law observe_law)

lemma emits_labelled:
  "labelled (set (pr_resources p)) (series c w) \<Longrightarrow> pr_api p = api \<Longrightarrow>
    labelled (set (pr_resources p)) (series c (fold (emit (Prometheus_metrics p)) evs w))"
  by (induction evs arbitrary: w) (simp_all add: emit_labelled)

end

text \<open>
  C36: The labels of the Prometheus sink stay bounded. Whatever events it receives, for whatever
  resources, every series of every collector carries an allowed name or \<open>other\<close> as its resource,
  so that a collector has at most one more resource label than there are distinct allowed names.
\<close>

theorem label_cardinality:
  assumes client: "prom_client api series" and new: "NewWithResources api reg resources w0 = Some (p, w)"
    and fresh: "series c w0 = {}"
  shows "let S = series c (fold (emit (Prometheus_metrics p)) evs w) in
    (\<lambda>ls. ls ! 1) ` S \<subseteq> insert ''other'' (set resources) \<and> card ((\<lambda>ls. ls ! 1) ` S) \<le> card (set resources) + 1"
proof -
  have p: "set (pr_resources p) = set resources" "pr_api p = api" "series c w = {}"
    using new fresh prom_client.register_law [OF client]
    by (auto simp: NewWithResources_def Let_def set_fold_insert split: option.splits)
  let ?S = "series c (fold (emit (Prometheus_metrics p)) evs w)"
  have "labelled (set resources) ?S"
    using prom_client.emits_labelled [OF client, of p c w evs] p by (simp add: labelled_def)
  then have sub: "(\<lambda>ls. ls ! 1) ` ?S \<subseteq> insert ''other'' (set resources)" by (auto simp: labelled_def)
  have "card ((\<lambda>ls. ls ! 1) ` ?S) \<le> card (insert ''other'' (set resources))" by (rule card_mono [OF _ sub]) simp
  also have "\<dots> \<le> card (set resources) + 1" using card_insert_le_m1 [of "card (set resources) + 1" "set resources" "''other''"] by simp
  finally show ?thesis using sub by (simp add: Let_def)
qed

section \<open>A concrete client and the witness\<close>

type_synonym prom_log = "(collector \<times> string list) list"

definition log_api :: "(unit, prom_log) prom_api" where
  "log_api = \<lparr>api_Inc = \<lambda>c ls w. (c, ls) # w, api_Observe = \<lambda>c ls x w. (c, ls) # w, api_MustRegister = \<lambda>_ _ w. Some w,
     api_DefaultRegisterer = ()\<rparr>"

definition log_series :: "collector \<Rightarrow> prom_log \<Rightarrow> string list set" where
  "log_series c w = snd ` set (filter (\<lambda>e. fst e = c) w)"

interpretation logged: prom_client log_api log_series
  by unfold_locales (auto simp: log_api_def log_series_def)

theorem label_cardinality_witness:
  "card ((\<lambda>ls. ls ! 1) ` log_series Releases (fold (emit (Prometheus_metrics \<lparr>pr_resources = [''order''], pr_api = log_api\<rparr>))
     [EvRelease ''mutex'' ''order'', EvRelease ''mutex'' ''user:1'', EvRelease ''mutex'' ''user:2''] [])) \<le> 2"
  using label_cardinality [OF logged.prom_client_axioms, of None "[''order'']" "[]" "\<lparr>pr_resources = [''order''], pr_api = log_api\<rparr>" "[]" Releases
      "[EvRelease ''mutex'' ''order'', EvRelease ''mutex'' ''user:1'', EvRelease ''mutex'' ''user:2'']"]
  by (simp add: NewWithResources_def log_api_def log_series_def Let_def)

end
