(* ===== verification/Examples.thy ===== *)
theory Examples
  imports Scenario Sinks
begin

text \<open>
  \<^verbatim>\<open>examples/basic/main.go\<close> and \<^verbatim>\<open>examples/cluster/main.go\<close>: programs that use every primitive in
  turn, on top of the models of the library. A program ends by returning, by \<^verbatim>\<open>log.Fatalf\<close>, or by a
  panic; it may also be waiting in a call. What each call observes (tokens, clocks, networks, the
  deadline of the context the leader runs under) is in the environment of the program. While the program sleeps or its callback waits, the
  background loop may do anything to the guard and the server; between two calls no heartbeat
  is due.
\<close>

section \<open>Programs\<close>

text \<open>Standard output, as format strings with their arguments, beside the state of the sinks.\<close>

datatype printed = PUint "64 word" | PInt int | PBool bool | PDuration duration

record 'v world =
  stdout :: "(string \<times> printed list) list"
  sink :: 'v

definition Printf :: "string \<Rightarrow> printed list \<Rightarrow> 'v world \<Rightarrow> 'v world" where
  "Printf format args w = w\<lparr>stdout := stdout w @ [(format, args)]\<rparr>"

definition Println :: "string \<Rightarrow> 'v world \<Rightarrow> 'v world" where "Println line w = Printf line [] w"

text \<open>Metrics and traces go to the sink and not to standard output.\<close>

definition on_sink :: "('v \<Rightarrow> 'v) \<Rightarrow> 'v world \<Rightarrow> 'v world" where "on_sink f w = w\<lparr>sink := f (sink w)\<rparr>"

definition sink_metrics :: "'v metrics \<Rightarrow> 'v world metrics" where
  "sink_metrics m = \<lparr>m_Acquire = \<lambda>p r ok d. on_sink (m_Acquire m p r ok d), m_Release = \<lambda>p r. on_sink (m_Release m p r),
     m_Renew = \<lambda>p r ok. on_sink (m_Renew m p r ok), m_RenewalStopped = \<lambda>p r reason. on_sink (m_RenewalStopped m p r reason)\<rparr>"

definition sink_tracer :: "'v tracer \<Rightarrow> 'v world tracer" where
  "sink_tracer t = \<lparr>t_Start = \<lambda>name w. case t_Start t name (sink w) of (finish, v) \<Rightarrow> (\<lambda>err. on_sink (finish err), w\<lparr>sink := v\<rparr>)\<rparr>"

datatype exit = Fatalf string goerr | Panic string | Blocked

type_synonym ('s, 'v, 'a) prog = "'s \<Rightarrow> 'v world \<Rightarrow> (exit + 'a) \<times> 's \<times> 'v world"

definition followed_by :: "('s, 'v, 'a) prog \<Rightarrow> ('a \<Rightarrow> ('s, 'v, 'b) prog) \<Rightarrow> ('s, 'v, 'b) prog" where
  "followed_by m k s w = (case m s w of (Inl x, s', w') \<Rightarrow> (Inl x, s', w') | (Inr a, s', w') \<Rightarrow> k a s' w')"

text \<open>\<^verbatim>\<open>if err != nil { log.Fatalf(...) }\<close> after a call that returns a value or an error, and may not return.\<close>

definition checked :: "string \<Rightarrow> (goerr + 'a) option \<Rightarrow> ('s, 'v, 'a) prog" where
  "checked format r s w =
     (case r of None \<Rightarrow> (Inl Blocked, s, w) | Some (Inl e) \<Rightarrow> (Inl (Fatalf format e), s, w) | Some (Inr x) \<Rightarrow> (Inr x, s, w))"

definition must :: "goerr + 'a \<Rightarrow> ('s, 'v, 'a) prog" where
  "must r = checked ''call failed: %v'' (Some r)"

definition checked_acquire :: "string \<Rightarrow> acquired \<Rightarrow> ('s, 'v, unit) prog" where
  "checked_acquire format r s w =
     (case r of Polling \<Rightarrow> (Inl Blocked, s, w) | Panics p \<Rightarrow> (Inl (Panic p), s, w)
      | Ends (Some e) \<Rightarrow> (Inl (Fatalf format e), s, w) | Ends None \<Rightarrow> (Inr (), s, w))"

text \<open>What a call that acquires a lease observes, and what happens to a guard and a server meanwhile.\<close>

record acquiring =
  aq_ge :: guard_env
  aq_token :: string
  aq_turns :: "turn list"

section \<open>The basic example\<close>

record ('s, 'v) basic_env =
  be_ping :: "goerr option"
  be_lock :: acquiring
  be_sleep :: "(single_owner, 'v world) store \<Rightarrow> 's \<Rightarrow> 'v \<Rightarrow> (single_owner, 'v world) store \<times> 's \<times> 'v"
  be_unlock :: transport
  be_acquire :: acquiring
  be_available :: transport
  be_release :: transport
  be_rlock :: acquiring
  be_runlock :: transport
  be_wlock :: acquiring
  be_wunlock :: transport
  be_rate :: "rl_turn list"
  be_strict :: rl_turn
  be_lead :: acquiring
  be_lead_wait :: "'v world handles \<Rightarrow> 's \<Rightarrow> 'v \<Rightarrow> 'v world handles \<times> 's \<times> 'v"
  be_lead_done :: bool
  be_lead_release :: transport

definition basic_mutex :: "('s, 'v) basic_env \<Rightarrow> ('s, 'v world) client \<Rightarrow> ('s, 'v, unit) prog" where
  "basic_mutex e c s w =
     (let mu = Client_Mutex c ''order:10001'' [Lease_ttl (10 * Second), Fencing_on] in
      case Mutex_Lock (aq_ge (be_lock e)) (aq_token (be_lock e)) (aq_turns (be_lock e)) mu [] s w of
        (r, mu', st, s1, w1) \<Rightarrow>
          followed_by (checked ''lock: %v'' r) (\<lambda>g s2 w2.
            let w3 = Printf ''locked order:10001, fencing token = %d'' [PUint (Guard_FencingToken (st ! g))] w2 in
            case be_sleep e st s2 (sink w3) of
              (st4, s4, v4) \<Rightarrow>
                (case unlock_at (SingleOwner_ops (rdb c)) (be_unlock e) g st4 s4 (w3\<lparr>sink := v4\<rparr>) of
                   (Some err, _, s5, w5) \<Rightarrow> (Inl (Fatalf ''unlock: %v'' err), s5, w5)
                 | (None, _, s5, w5) \<Rightarrow> (Inr (), s5, Println ''unlocked'' w5))) s1 w1)"

definition basic_semaphore :: "('s, 'v) basic_env \<Rightarrow> ('s, 'v world) client \<Rightarrow> ('s, 'v, unit) prog" where
  "basic_semaphore e c s w =
     (case Client_Semaphore c ''openai:gpt5'' 20 [] of
        None \<Rightarrow> (Inl (Panic ''distsync: semaphore capacity must be >= 1''), s, w)
      | Some sem \<Rightarrow>
          (case Semaphore_Acquire (aq_ge (be_acquire e)) (aq_token (be_acquire e)) (aq_turns (be_acquire e)) 1 sem s w of
             (r, s1, w1) \<Rightarrow>
               followed_by (checked ''acquire: %v'' r) (\<lambda>p s2 w2.
                 case Semaphore_Available (be_available e) sem s2 of
                   (n, s3) \<Rightarrow>
                     followed_by (must n) (\<lambda>free s4 w4.
                       let w5 = Printf ''acquired 1 AI permit, %d still free'' [PInt free] w4 in
                       case Permit_Release (rdb c) (be_release e) p s4 w5 of
                         (_, _, s6, w6) \<Rightarrow> (Inr (), s6, Println ''released permit'' w6)) s3 w2) s1 w1))"

definition basic_rwmutex :: "nat \<Rightarrow> ('s, 'v) basic_env \<Rightarrow> ('s, 'v world) client \<Rightarrow> ('s, 'v, unit) prog" where
  "basic_rwmutex fuel e c s w =
     (let rw = Client_RWMutex c ''config:tenant:1001'' [] in
      case RWMutex_RLock fuel (aq_ge (be_rlock e)) (aq_token (be_rlock e)) (aq_turns (be_rlock e)) rw [] s w of
        (r, rw1, st1, s1, w1) \<Rightarrow>
          followed_by (checked ''rlock: %v'' r) (\<lambda>rg s2 w2.
            case unlock_at (RWReader_ops (rdb c) fuel) (be_runlock e) rg st1 s2 (Println ''read lock held'' w2) of
              (_, st3, s3, w3) \<Rightarrow>
                (case RWMutex_Lock fuel (aq_ge (be_wlock e)) (aq_token (be_wlock e)) (aq_turns (be_wlock e)) rw1 st3 s3 w3 of
                   (r', rw2, st4, s4, w4) \<Rightarrow>
                     followed_by (checked ''wlock: %v'' r') (\<lambda>wg s5 w5.
                       case unlock_at (RWWriter_ops (rdb c) fuel) (be_wunlock e) wg st4 s5 (Println ''write lock held'' w5) of
                         (_, _, s6, w6) \<Rightarrow> (Inr (), s6, w6)) s4 w4)) s1 w1)"

definition basic_limiter :: "(f64 \<Rightarrow> int) \<Rightarrow> ('s, 'v) basic_env \<Rightarrow> ('s, 'v world) client \<Rightarrow> ('s, 'v, unit) prog" where
  "basic_limiter impl e c s w =
     (case Client_RateLimiter c ''tenant:1001'' (PerSecond (Fin 100)) [] of
        Inl p \<Rightarrow> (Inl (Panic p), s, w)
      | Inr rl \<Rightarrow>
          (case RateLimiter_Acquire impl (be_rate e) (Fin 1) rl s w of
             (r, s1, w1, _) \<Rightarrow>
               followed_by (checked_acquire ''rate limit: %v'' r) (\<lambda>_ s2 w2.
                 (Inr (), s2, Println ''rate limiter allowed 1 request'' w2)) s1 w1))"

definition basic_strict :: "(f64 \<Rightarrow> int) \<Rightarrow> ('s, 'v) basic_env \<Rightarrow> ('s, 'v world) client \<Rightarrow> ('s, 'v, unit) prog" where
  "basic_strict impl e c s w =
     (case Client_RateLimiter c ''tenant:1001:strict'' (PerSecond (Fin 100)) [SlidingWindow] of
        Inl p \<Rightarrow> (Inl (Panic p), s, w)
      | Inr rl \<Rightarrow>
          (case Allow impl (be_strict e) (Fin 1) rl s w of
             (Inl p, s1, w1) \<Rightarrow> (Inl (Panic p), s1, w1)
           | (Inr (ok, wait, Some err), s1, w1) \<Rightarrow> (Inl (Fatalf ''sliding allow: %v'' err), s1, w1)
           | (Inr (ok, wait, None), s1, w1) \<Rightarrow>
               (Inr (), s1, Printf ''sliding-window allow: ok=%v retryAfter=%v'' [PBool ok, PDuration wait] w1)))"

text \<open>The callback waits until its timer fires or its context is done; it returns nil in both cases.\<close>

definition basic_callback :: "('s, 'v) basic_env \<Rightarrow> ('s, 'v world) callback" where
  "basic_callback e p L st s w =
     (let w1 = Println ''I am the leader; running cron for 1.5s...'' w in
      case be_lead_wait e st s (sink w1) of
        (st2, s2, v2) \<Rightarrow>
          let w2 = w1\<lparr>sink := v2\<rparr>
          in (Returned None, L, st2, s2, if be_lead_done e then Println ''leadership lost mid-run'' w2 else w2))"

definition basic_leader :: "('s, 'v) basic_env \<Rightarrow> ('s, 'v world) client \<Rightarrow> ('s, 'v, unit) prog" where
  "basic_leader e c s w =
     (let leader = Client_Leader c ''scheduler'' [] in
      case Leader_Run (aq_ge (be_lead e)) (aq_token (be_lead e)) (aq_turns (be_lead e)) (be_lead_release e)
             (Some (basic_callback e)) leader [] s w of
        (None, _, _, s1, w1) \<Rightarrow> (Inl Blocked, s1, w1)
      | (Some Panicked, _, _, s1, w1) \<Rightarrow> (Inl (Panic ''callback''), s1, w1)
      | (Some (Returned err), _, _, s1, w1) \<Rightarrow>
          (case err of
             Some x \<Rightarrow> if \<not> errors_Is x ErrLeadershipLost then (Inl (Fatalf ''leader run: %v'' x), s1, w1)
                else (Inr (), s1, Println ''demo done'' w1)
           | None \<Rightarrow> (Inr (), s1, Println ''demo done'' w1)))"

text \<open>
  \<^verbatim>\<open>main\<close>: the address, the ping, the client with its sinks, and the parts in turn. \<open>dial\<close> is the
  constructor of go-redis. \<^verbatim>\<open>metrics.New\<close> panics when its collectors are registered already.
\<close>

definition basic_addr :: "string \<Rightarrow> string" where
  "basic_addr REDIS_ADDR = (if REDIS_ADDR = [] then ''localhost:6379'' else REDIS_ADDR)"

definition basic_client :: "('r, 'v) prometheus \<Rightarrow> ('p, 'v) otel \<Rightarrow> 's redis \<Rightarrow> ('s, 'v world) client" where
  "basic_client pm global R =
     New R [WithMetrics (Some (sink_metrics (Prometheus_metrics pm))),
            WithTracer (Some (sink_tracer (Tracer_tracer (NewTracer global None))))]"

definition basic_main ::
  "('r, 'v) prom_api \<Rightarrow> ('p, 'v) otel \<Rightarrow> (string \<Rightarrow> 's redis) \<Rightarrow> (f64 \<Rightarrow> int) \<Rightarrow> nat \<Rightarrow> ('s, 'v) basic_env \<Rightarrow> string \<Rightarrow>
     ('s, 'v, unit) prog" where
  "basic_main api global dial impl fuel e REDIS_ADDR s w =
     (let R = dial (basic_addr REDIS_ADDR) in
      case be_ping e of
        Some err \<Rightarrow> (Inl (Fatalf ''cannot reach redis at %s (%v)'' err), s, w)
      | None \<Rightarrow>
          (case Prometheus_New api None (sink w) of
             None \<Rightarrow> (Inl (Panic ''duplicate metrics collector registration attempted''), s, w)
           | Some (pm, v) \<Rightarrow>
               let c = basic_client pm global R in
               followed_by (basic_mutex e c) (\<lambda>_. followed_by (basic_semaphore e c) (\<lambda>_.
               followed_by (basic_rwmutex fuel e c) (\<lambda>_. followed_by (basic_limiter impl e c) (\<lambda>_.
               followed_by (basic_strict impl e c) (\<lambda>_. basic_leader e c))))) s (w\<lparr>sink := v\<rparr>)))"

section \<open>The cluster example\<close>

record ('s, 'v) cluster_env =
  ce_ping :: "goerr option"
  ce_lock :: acquiring
  ce_unlock :: transport
  ce_acquire :: acquiring
  ce_release :: transport
  ce_rlock :: acquiring
  ce_runlock :: transport
  ce_wlock :: acquiring
  ce_wunlock :: transport
  ce_rate :: "rl_turn list"
  ce_lead :: acquiring
  ce_lead_wait :: "'v world handles \<Rightarrow> 's \<Rightarrow> 'v \<Rightarrow> 'v world handles \<times> 's \<times> 'v"
  ce_lead_release :: transport

definition cluster_mutex :: "('s, 'v) cluster_env \<Rightarrow> ('s, 'v world) client \<Rightarrow> ('s, 'v, unit) prog" where
  "cluster_mutex e c s w =
     (case Mutex_Lock (aq_ge (ce_lock e)) (aq_token (ce_lock e)) (aq_turns (ce_lock e)) (Client_Mutex c ''order:10001'' []) [] s w of
        (r, mu, st, s1, w1) \<Rightarrow>
          followed_by (checked ''mutex: %v'' r) (\<lambda>g s2 w2.
            let w3 = Printf ''mutex locked, fencing token = %d'' [PUint (Guard_FencingToken (st ! g))] w2 in
            case unlock_at (SingleOwner_ops (rdb c)) (ce_unlock e) g st s2 w3 of
              (_, _, s4, w4) \<Rightarrow> (Inr (), s4, w4)) s1 w1)"

definition cluster_semaphore :: "('s, 'v) cluster_env \<Rightarrow> ('s, 'v world) client \<Rightarrow> ('s, 'v, unit) prog" where
  "cluster_semaphore e c s w =
     (case Client_Semaphore c ''ai:gpt5'' 20 [] of
        None \<Rightarrow> (Inl (Panic ''distsync: semaphore capacity must be >= 1''), s, w)
      | Some sem \<Rightarrow>
          (case Semaphore_Acquire (aq_ge (ce_acquire e)) (aq_token (ce_acquire e)) (aq_turns (ce_acquire e)) 1 sem s w of
             (r, s1, w1) \<Rightarrow>
               followed_by (checked ''semaphore: %v'' r) (\<lambda>p s2 w2.
                 case Permit_Release (rdb c) (ce_release e) p s2 (Println ''semaphore permit acquired'' w2) of
                   (_, _, s3, w3) \<Rightarrow> (Inr (), s3, w3)) s1 w1))"

definition cluster_rwmutex :: "nat \<Rightarrow> ('s, 'v) cluster_env \<Rightarrow> ('s, 'v world) client \<Rightarrow> ('s, 'v, unit) prog" where
  "cluster_rwmutex fuel e c s w =
     (let rw = Client_RWMutex c ''config:tenant:1001'' [] in
      case RWMutex_RLock fuel (aq_ge (ce_rlock e)) (aq_token (ce_rlock e)) (aq_turns (ce_rlock e)) rw [] s w of
        (r, rw1, st1, s1, w1) \<Rightarrow>
          followed_by (checked ''rwmutex: %v'' r) (\<lambda>rg s2 w2.
            case unlock_at (RWReader_ops (rdb c) fuel) (ce_runlock e) rg st1 s2 w2 of
              (_, st3, s3, w3) \<Rightarrow>
                (case RWMutex_Lock fuel (aq_ge (ce_wlock e)) (aq_token (ce_wlock e)) (aq_turns (ce_wlock e)) rw1 st3 s3 w3 of
                   (r', rw2, st4, s4, w4) \<Rightarrow>
                     followed_by (checked ''rwmutex write: %v'' r') (\<lambda>wg s5 w5.
                       case unlock_at (RWWriter_ops (rdb c) fuel) (ce_wunlock e) wg st4 s5 w5 of
                         (_, _, s6, w6) \<Rightarrow> (Inr (), s6, w6)) s4 w4)) s1 w1)"

definition cluster_limiter :: "(f64 \<Rightarrow> int) \<Rightarrow> ('s, 'v) cluster_env \<Rightarrow> ('s, 'v world) client \<Rightarrow> ('s, 'v, unit) prog" where
  "cluster_limiter impl e c s w =
     (case Client_RateLimiter c ''tenant:1001'' (PerSecond (Fin 100)) [SlidingWindow] of
        Inl p \<Rightarrow> (Inl (Panic p), s, w)
      | Inr rl \<Rightarrow>
          (case RateLimiter_Acquire impl (ce_rate e) (Fin 1) rl s w of
             (r, s1, w1, _) \<Rightarrow> checked_acquire ''ratelimit: %v'' r s1 w1))"

text \<open>The callback waits for the end of its context, which its deadline or the loss of the lease brings.\<close>

definition cluster_callback :: "('s, 'v) cluster_env \<Rightarrow> ('s, 'v world) callback" where
  "cluster_callback e p L st s w =
     (let w1 = Println ''leader elected'' w in
      case ce_lead_wait e st s (sink w1) of (st2, s2, v2) \<Rightarrow> (Returned None, L, st2, s2, w1\<lparr>sink := v2\<rparr>))"

definition cluster_leader :: "('s, 'v) cluster_env \<Rightarrow> ('s, 'v world) client \<Rightarrow> ('s, 'v, unit) prog" where
  "cluster_leader e c s w =
     (let leader = Client_Leader c ''scheduler'' []; finished = ''all primitives OK on a real Redis Cluster'' in
      case Leader_Run (aq_ge (ce_lead e)) (aq_token (ce_lead e)) (aq_turns (ce_lead e)) (ce_lead_release e)
             (Some (cluster_callback e)) leader [] s w of
        (None, _, _, s1, w1) \<Rightarrow> (Inl Blocked, s1, w1)
      | (Some Panicked, _, _, s1, w1) \<Rightarrow> (Inl (Panic ''callback''), s1, w1)
      | (Some (Returned err), _, _, s1, w1) \<Rightarrow>
          (case err of
             Some x \<Rightarrow> if x \<noteq> ErrLeadershipLost then (Inl (Fatalf ''leader: %v'' x), s1, w1)
                else (Inr (), s1, Println finished w1)
           | None \<Rightarrow> (Inr (), s1, Println finished w1)))"

text \<open>\<^verbatim>\<open>strings.Split(s, ",")\<close>, which gives one empty string for an empty one.\<close>

fun Split :: "string \<Rightarrow> string list" where
  "Split [] = [[]]"
| "Split (x # xs) = (if x = CHR '','' then [] # Split xs
     else case Split xs of [] \<Rightarrow> [[x]] | y # ys \<Rightarrow> (x # y) # ys)"

definition cluster_addrs :: "string \<Rightarrow> string list" where
  "cluster_addrs REDIS_CLUSTER_ADDRS =
     (let addrs = Split REDIS_CLUSTER_ADDRS
      in if length addrs = 1 \<and> addrs ! 0 = [] then [''127.0.0.1:7000'', ''127.0.0.1:7001'', ''127.0.0.1:7002''] else addrs)"

definition cluster_main ::
  "(string list \<Rightarrow> 's redis) \<Rightarrow> (f64 \<Rightarrow> int) \<Rightarrow> nat \<Rightarrow> ('s, 'v) cluster_env \<Rightarrow> string \<Rightarrow> ('s, 'v, unit) prog" where
  "cluster_main dial impl fuel e REDIS_CLUSTER_ADDRS s w =
     (let R = dial (cluster_addrs REDIS_CLUSTER_ADDRS) in
      case ce_ping e of
        Some err \<Rightarrow> (Inl (Fatalf ''cannot reach cluster (start it first, see the header): %v'' err), s, w)
      | None \<Rightarrow>
          let c = New R [] in
          followed_by (cluster_mutex e c) (\<lambda>_. followed_by (cluster_semaphore e c) (\<lambda>_.
          followed_by (cluster_rwmutex fuel e c) (\<lambda>_. followed_by (cluster_limiter impl e c) (\<lambda>_. cluster_leader e c)))) s w)"

section \<open>Sinks do not print\<close>

definition silent :: "'v world metrics \<Rightarrow> 'v world tracer \<Rightarrow> bool" where
  "silent m t =
     ((\<forall>p r ok d w. stdout (m_Acquire m p r ok d w) = stdout w) \<and> (\<forall>p r w. stdout (m_Release m p r w) = stdout w) \<and>
      (\<forall>p r ok w. stdout (m_Renew m p r ok w) = stdout w) \<and> (\<forall>p r x w. stdout (m_RenewalStopped m p r x w) = stdout w) \<and>
      (\<forall>n w. stdout (snd (t_Start t n w)) = stdout w \<and> (\<forall>err w'. stdout (fst (t_Start t n w) err w') = stdout w')))"

lemma silent_sinks: "silent (sink_metrics m) (sink_tracer t)" "silent noopMetrics noopTracer"
  by (auto simp: silent_def sink_metrics_def sink_tracer_def on_sink_def noopMetrics_def noopTracer_def split: prod.splits)

lemma silentD:
  assumes "silent m t"
  shows "stdout (m_Acquire m p r ok d w) = stdout w" "stdout (m_Release m p r w) = stdout w" "stdout (m_RenewalStopped m p r x w) = stdout w"
    "t_Start t n w = (finish, w1) \<Longrightarrow> stdout w1 = stdout w" "t_Start t n w = (finish, w1) \<Longrightarrow> stdout (finish err w') = stdout w'"
  using assms by (auto simp: silent_def) (metis fst_conv snd_conv)+

text \<open>A client of the examples: on the server, with the default configuration, and silent.\<close>

definition demo_client :: "'s redis \<Rightarrow> ('s, 'v world) client \<Rightarrow> bool" where
  "demo_client R c = (rdb c = R \<and> defaults c = defaults (New R [] :: ('s, 'v world) client) \<and> silent (metrics c) (tracer c))"

lemma demo_clients: "demo_client R (basic_client pm global R)" "demo_client R (New R [])"
  by (simp_all add: demo_client_def basic_client_def New_def WithMetrics_def WithTracer_def silent_sinks)

lemma demo_config:
  assumes "demo_client R c"
  shows "rdb c = R" "ttl (resolved c []) = 10 * Second" "\<not> fencing (resolved c [])"
    "ttl (resolved c [Lease_ttl (10 * Second), Fencing_on]) = 10 * Second"
  using assms by (simp_all add: demo_client_def New_def resolved_def Lease_ttl_def Fencing_on_def Let_def)

lemma start_background_sinks [simp]:
  "h_metrics (start_background ops impl r now cfg h) = h_metrics h" "h_tracer (start_background ops impl r now cfg h) = h_tracer h"
  by (auto simp: start_background_def startRenewal_def startWatchdog_def checkDeadline_def split: option.splits)

lemma stop_silent:
  assumes "silent (h_metrics h) (h_tracer h)" "stop h w = (h1, w1)"
  shows "stdout w1 = stdout w" "silent (h_metrics h1) (h_tracer h1)"
  using assms silentD(3) [OF assms(1)] by (auto simp: stop_def markLost_def Let_def split: if_splits)

lemma release_silent:
  assumes "silent (h_metrics h) (h_tracer h)" "handle_release ops tr h s w = (e, h', s', w')"
  shows "stdout w' = stdout w"
proof (cases "h_releaseDone h")
  case False
  obtain h1 w1 where st: "stop h w = (h1, w1)" by fastforce
  obtain finish w2 where tr: "t_Start (h_tracer h1) ''distsync.release'' w1 = (finish, w2)" by fastforce
  note q = stop_silent [OF assms(1) st]
  show ?thesis using assms(2) False st tr q(1) silentD(2) [OF q(2)] silentD(4,5) [OF q(2) tr]
    by (auto simp: handle_release_def Let_def split: prod.splits)
qed (use assms(2) in \<open>simp add: handle_release_def\<close>)

lemma runHeld_silent:
  assumes fn: "fn (length st) (L\<lparr>ld_active := Some (length st), ld_fence := f\<rparr>) (st @ [lead_handle ge L le]) s w = (r, L2, st2, s2, w2)"
    and sil: "silent (h_metrics (st2 ! length st)) (h_tracer (st2 ! length st))"
    and run: "runHeld ge tr le f fn L st s w = (r', L', st', s', w')"
  shows "stdout w' = stdout w2"
proof -
  let ?ops = "SingleOwner_ops (rdb (ld_client L))"
  obtain h1 w1 where h1: "stop (st2 ! length st) w2 = (h1, w1)" by fastforce
  obtain e h' s3 w3 where rel: "handle_release ?ops tr h1 s2 w1 = (e, h', s3, w3)" by (metis prod_cases4)
  have "w' = w3" using run fn h1 rel by (simp add: runHeld_def Let_def)
  then show ?thesis using stop_silent [OF sil h1] release_silent [OF _ rel] by simp
qed

text \<open>Unlocking a guard that has not been released: one release of its lease, and nothing printed.\<close>

lemma unlock_silent:
  assumes "p < length st" "g_handle (st ! p) = h" "\<not> h_releaseDone h" "silent (h_metrics h) (h_tracer h)" "Release ops tr (h_leas h) s = (e, l, s')"
  obtains st' w' where "unlock_at ops tr p st s w = (e, st', s', w')" "stdout w' = stdout w" "length st' = length st"
proof -
  obtain h' w' where r: "handle_release ops tr h s w = (e, h', s', w')"
    using handle_release_run [OF assms(3,5), of w] by blast
  then show ?thesis using that [of "st[p := (st ! p)\<lparr>g_handle := h'\<rparr>]" w'] release_silent [OF assms(4) r] assms(2)
    by (simp add: unlock_at_def Guard_Unlock_def)
qed

section \<open>Acquisitions\<close>

text \<open>The first attempt is answered by the server at time \<open>T\<close>, and the reply arrives in time.\<close>

definition prompt :: "acquiring \<Rightarrow> int \<Rightarrow> duration \<Rightarrow> bool" where
  "prompt q T lt = (case aq_turns q of [] \<Rightarrow> False
     | a # _ \<Rightarrow> acq_net (tn_env a) = Reply [] T \<and> acq_replied (tn_env a) < requestExpiry (acq_started (tn_env a)) lt \<and>
         ge_now (aq_ge q) < requestExpiry (acq_started (tn_env a)) lt)"

lemma promptE:
  assumes "prompt q T lt"
  obtains a as where "aq_turns q = a # as" "acq_net (tn_env a) = Reply [] T"
    "acq_replied (tn_env a) < requestExpiry (acq_started (tn_env a)) lt" "ge_now (aq_ge q) < requestExpiry (acq_started (tn_env a)) lt"
  using assms that by (auto simp: prompt_def split: list.splits)

lemma Lock_silent:
  assumes "silent (metrics (mu_client m)) (tracer (mu_client m))"
    and "SingleOwner_TryAcquire (rdb (mu_client m)) (tn_env a) (Mutex_newLease token m) s = (Inr f, l, s1)"
  obtains w1 where "Mutex_Lock ge token (a # as) m st s w =
      (Some (Inr (length st)), Mutex_setHolder (length st) m, st @ [Mutex_guard ge m l f], s1, w1)" "stdout w1 = stdout w"
proof -
  obtain finish w0 where tr: "t_Start (tracer (mu_client m)) ''distsync.mutex.lock'' w = (finish, w0)" by fastforce
  show ?thesis using that assms(2) silentD(1) [OF assms(1)] silentD(4,5) [OF assms(1) tr] by (simp add: Mutex_Lock_def tr)
qed

lemma Acquire_silent:
  assumes "silent (metrics (se_client se)) (tracer (se_client se))"
    and "PermitSet_TryAcquire (rdb (se_client se)) (tn_env a) 1 (Semaphore_newLease token se) s = (None, l, s1)"
  obtains w1 where "Semaphore_Acquire ge token (a # as) 1 se s w = (Some (Inr (Semaphore_permit ge se l 1)), s1, w1)" "stdout w1 = stdout w"
proof -
  obtain finish w0 where tr: "t_Start (tracer (se_client se)) ''distsync.semaphore.acquire'' w = (finish, w0)" by fastforce
  show ?thesis using that assms(2) silentD(1) [OF assms(1)] silentD(4,5) [OF assms(1) tr]
    by (simp add: Semaphore_Acquire_def tr plain_try_def)
qed

lemma RLock_silent:
  assumes "silent (metrics (rm_client m)) (tracer (rm_client m))"
    and "RWReader_Acquire (rdb (rm_client m)) fuel (tn_env a) (NewRWReader token (rm_keys m) (ttl (rm_cfg m))) s = (None, l, s1)"
  obtains w1 where "RWMutex_RLock fuel ge token (a # as) m st s w = (Some (Inr (length st)), RWMutex_setReadHolder (length st) m,
      st @ [RWMutex_guard (RWReader_ops (rdb (rm_client m)) fuel) ge m l 0], s1, w1)" "stdout w1 = stdout w"
proof -
  obtain finish w0 where tr: "t_Start (tracer (rm_client m)) ''distsync.rwmutex.rlock'' w = (finish, w0)" by fastforce
  show ?thesis using that assms(2) silentD(1) [OF assms(1)] silentD(4,5) [OF assms(1) tr]
    by (simp add: RWMutex_RLock_def tr plain_try_def Let_def)
qed

lemma WLock_silent:
  assumes "silent (metrics (rm_client m)) (tracer (rm_client m))"
    and "RWWriter_TryAcquire (rdb (rm_client m)) fuel (tn_env a) (NewRWWriter token (rm_keys m) (ttl (rm_cfg m))) s = (Inr f, l, s1)"
  obtains w1 where "RWMutex_Lock fuel ge token (a # as) m st s w = (Some (Inr (length st)), RWMutex_setWriteHolder (length st) m,
      st @ [RWMutex_guard (RWWriter_ops (rdb (rm_client m)) fuel) ge m l f], s1, w1)" "stdout w1 = stdout w"
proof -
  obtain finish w0 where tr: "t_Start (tracer (rm_client m)) ''distsync.rwmutex.lock'' w = (finish, w0)" by fastforce
  show ?thesis using that assms(2) silentD(1) [OF assms(1)] silentD(4,5) [OF assms(1) tr]
    by (simp add: RWMutex_Lock_def tr Let_def)
qed

section \<open>The parts of the basic example\<close>

lemma followed_simps [simp]:
  "followed_by (checked f (Some (Inr x))) k s w = k x s w" "followed_by (must (Inr x)) k s w = k x s w"
  "followed_by (checked_acquire f (Ends None)) k' s w = k' () s w"
  "m s w = (Inr x, s', w') \<Longrightarrow> followed_by m k s w = k x s' w'"
  by (simp_all add: followed_by_def checked_def must_def checked_acquire_def)

lemma Printf_simps [simp]: "stdout (Printf f xs w) = stdout w @ [(f, xs)]" "stdout (Println f w) = stdout w @ [(f, [])]"
  by (simp_all add: Printf_def Println_def)

lemma lease_length [simp]: "Milliseconds 10000000000 = 10000" "0 < waiterTimeout 10000000000"
  by (simp_all add: Milliseconds_nonneg waiterTimeout_def)

lemma guard_sinks [simp]:
  "h_metrics (g_handle (Mutex_guard ge m l f)) = metrics (mu_client m)" "h_tracer (g_handle (Mutex_guard ge m l f)) = tracer (mu_client m)"
  "h_metrics (g_handle (RWMutex_guard ops ge rw r f)) = metrics (rm_client rw)" "h_tracer (g_handle (RWMutex_guard ops ge rw r f)) = tracer (rm_client rw)"
  "h_leas (g_handle (RWMutex_guard ops ge rw r f)) = r" "\<not> h_releaseDone (g_handle (RWMutex_guard ops ge rw r f))"
  by (simp_all add: Mutex_guard_def RWMutex_guard_def newHandle_def)

lemma primitive_clients [simp]:
  "mu_client (Client_Mutex c n opts) = c" "mu_cfg (Client_Mutex c n opts) = resolved c opts"
  "rm_client (Client_RWMutex c n opts) = c" "rm_cfg (Client_RWMutex c n opts) = resolved c opts"
  "ld_client (Client_Leader c n opts) = c" "ld_cfg (Client_Leader c n opts) = resolved c opts"
  "ld_fencing (Client_Leader c n opts) = fencing (resolved c opts)"
  "rm_client (RWMutex_setReadHolder p rw) = rm_client rw" "rm_cfg (RWMutex_setReadHolder p rw) = rm_cfg rw"
  "rm_keys (RWMutex_setReadHolder p rw) = rm_keys rw"
  by (simp_all add: Client_Mutex_def Client_RWMutex_def Client_Leader_def RWMutex_setReadHolder_def Let_def)

context redis_server
begin

text \<open>Lock and unlock a mutex that nobody uses.\<close>

lemma mutex_part:
  assumes c: "demo_client R c" and m: "m = Client_Mutex c name opts" "ttl (resolved c opts) = 10 * Second"
    and name: "unused (db s) name" and q: "prompt q T (10 * Second)" and T: "clock s \<le> T" "T \<le> T'" "T' < T + 10000"
  obtains m' g s1 w1 s2 where "Mutex_Lock (aq_ge q) (aq_token q) (aq_turns q) m [] s w = (Some (Inr 0), m', [g], s1, w1)"
    "Guard_FencingToken g = 1" "stdout w1 = stdout w"
    "\<And>w. \<exists>st2 w2. unlock_at (SingleOwner_ops R) (Reply [] T') 0 [g] s1 w = (None, st2, s2, w2) \<and> stdout w2 = stdout w"
    "did clock db name T' s s2" "db s2 (Key name) = None"
proof -
  obtain a as where a: "aq_turns q = a # as" "acq_net (tn_env a) = Reply [] T"
      "acq_replied (tn_env a) < requestExpiry (acq_started (tn_env a)) (10 * Second)"
    using q by (rule promptE)
  let ?l = "Mutex_newLease (aq_token q) m"
  let ?l1 = "?l\<lparr>so_expiresAt := Some (requestExpiry (acq_started (tn_env a)) (10 * Second))\<rparr>"
  note cfg = demo_config(1) [OF c]
  obtain s1 s2 where acq: "SingleOwner_TryAcquire R (tn_env a) ?l s = (Inr 1, ?l1, s1)" "did clock db name T s s1"
    and rel: "SingleOwner_Release R (Reply [] T') ?l1 s1 = (None, ?l\<lparr>so_expiresAt := None\<rparr>, s2)" "did clock db name T' s1 s2" "db s2 (Key name) = None"
    using exclusive_session [OF name, of ?l T T' "tn_env a"] T a m by auto
  have sil: "silent (metrics c) (tracer c)" using c by (simp add: demo_client_def)
  let ?g = "Mutex_guard (aq_ge q) m ?l1 1"
  obtain w1 where lock: "Mutex_Lock (aq_ge q) (aq_token q) (aq_turns q) m [] s w = (Some (Inr 0), Mutex_setHolder 0 m, [?g], s1, w1)" "stdout w1 = stdout w"
    using Lock_silent [of m a "aq_token q" s 1 ?l1 s1 "aq_ge q" as "[]" w] sil acq(1) cfg a(1) m by auto
  have "\<exists>st2 w2. unlock_at (SingleOwner_ops R) (Reply [] T') 0 [?g] s1 w = (None, st2, s2, w2) \<and> stdout w2 = stdout w" for w
    using unlock_silent [of 0 "[?g]" "g_handle ?g" "SingleOwner_ops R" "Reply [] T'" s1 None "?l\<lparr>so_expiresAt := None\<rparr>" s2 w] sil rel(1) m
    by (simp add: SingleOwner_ops_def) blast
  then show ?thesis using that [OF lock(1) _ lock(2) _ did_trans [OF acq(2) rel(2)] rel(3)] by (simp add: Guard_FencingToken_def)
qed

text \<open>One permit of twenty, and its release whenever only this permit is out.\<close>

lemma semaphore_part:
  assumes c: "demo_client R c" and se: "Client_Semaphore c name 20 [] = Some se"
    and name: "unused (db s) name" and q: "prompt q T (10 * Second)" and T: "clock s \<le> T"
  obtains p s1 w1 m t where "Semaphore_Acquire (aq_ge q) (aq_token q) (aq_turns q) 1 se s w = (Some (Inr p), s1, w1)" "stdout w1 = stdout w"
    "did clock db name T s s1" "pool_at (db s1) (Key name) [(m, t)]"
    "\<And>s2 T2. pool_at (db s2) (Key name) [(m, t)] \<Longrightarrow> clock s2 \<le> T2 \<Longrightarrow> \<exists>s3. did clock db name T2 s2 s3 \<and> db s3 (Key name) = None \<and>
       (\<forall>w. \<exists>p2 w2. Permit_Release R (Reply [] T2) p s2 w = (None, p2, s3, w2) \<and> stdout w2 = stdout w)"
proof -
  obtain a as where a: "aq_turns q = a # as" "acq_net (tn_env a) = Reply [] T"
      "acq_replied (tn_env a) < requestExpiry (acq_started (tn_env a)) (10 * Second)"
    using q by (rule promptE)
  have se': "se_client se = c" "se_key se = Key name" "se_capacity se = 20" "se_cfg se = resolved c []"
    using se by (auto simp: Client_Semaphore_def)
  let ?l = "Semaphore_newLease (aq_token q) se"
  define l1 where "l1 = ?l\<lparr>ps_tokens := permit_tokens (aq_token q) 1, ps_acquired := True,
      ps_expiresAt := Some (requestExpiry (acq_started (tn_env a)) (10 * Second))\<rparr>"
  note cfg = demo_config(1,2) [OF c]
  have sil: "silent (metrics c) (tracer c)" using c by (simp add: demo_client_def)
  obtain s1 m t where acq: "PermitSet_TryAcquire R (tn_env a) 1 ?l s = (None, l1, s1)" "did clock db name T s s1" "ps_tokens l1 = [m]" "pool_at (db s1) (Key name) [(m, t)]"
    using counting_acquire [OF name, of ?l T "tn_env a" l1] T a cfg se' by (auto simp: l1_def)
  let ?p = "Semaphore_permit (aq_ge q) se l1 1"
  obtain w1 where lock: "Semaphore_Acquire (aq_ge q) (aq_token q) (aq_turns q) 1 se s w = (Some (Inr ?p), s1, w1)" "stdout w1 = stdout w"
    using Acquire_silent [of se a "aq_token q" s l1 s1 "aq_ge q" as w] sil acq(1) cfg a(1) se' by auto
  have h: "\<not> h_releaseDone (p_handle ?p)" "h_leas (p_handle ?p) = l1" "silent (h_metrics (p_handle ?p)) (h_tracer (p_handle ?p))"
    using sil se' by (simp_all add: Semaphore_permit_def newHandle_def)
  have "\<exists>s3. did clock db name T2 s2 s3 \<and> db s3 (Key name) = None \<and> (\<forall>w. \<exists>p2 w2. Permit_Release R (Reply [] T2) ?p s2 w = (None, p2, s3, w2) \<and> stdout w2 = stdout w)"
    if s2: "pool_at (db s2) (Key name) [(m, t)]" "clock s2 \<le> T2" for s2 T2
  proof -
    obtain l2 s3 where rel: "PermitSet_Release R (Reply [] T2) l1 s2 = (None, l2, s3)" "did clock db name T2 s2 s3" "db s3 (Key name) = None"
      using counting_release [OF s2(1), of l1 T2] s2(2) acq(3) se' by (auto simp: l1_def)
    have "\<exists>p2 w2. Permit_Release R (Reply [] T2) ?p s2 w = (None, p2, s3, w2) \<and> stdout w2 = stdout w" for w
      using handle_release_run [OF h(1), of "PermitSet_ops R" "Reply [] T2" s2 None l2 s3 w] release_silent [OF h(3)] rel(1) h(2)
      by (fastforce simp: Permit_Release_def PermitSet_ops_def)
    then show ?thesis using rel(2,3) by blast
  qed
  then show ?thesis using that [OF lock acq(2,4)] by blast
qed

text \<open>Read lock and unlock of a read-write lock nobody uses.\<close>

lemma reader_part:
  assumes c: "demo_client R c" and m: "m = Client_RWMutex c name []" and fuel: "1 < fuel"
    and name: "unused (db s) name" and q: "prompt q T (10 * Second)" and T: "clock s \<le> T" "T \<le> T'"
  obtains g s1 w1 s2 rst where
    "RWMutex_RLock fuel (aq_ge q) (aq_token q) (aq_turns q) m [] s w = (Some (Inr 0), RWMutex_setReadHolder 0 m, [g], s1, w1)" "stdout w1 = stdout w"
    "\<And>w. \<exists>st2 w2. unlock_at (RWReader_ops R fuel) (Reply [] T') 0 [g] s1 w = (None, st2, s2, w2) \<and> stdout w2 = stdout w"
    "did clock db name T' s s2" "shows_rw (db s2) (rm_keys m) rst" "rw_idle rst"
proof -
  obtain a as where a: "aq_turns q = a # as" "acq_net (tn_env a) = Reply [] T"
      "acq_replied (tn_env a) < requestExpiry (acq_started (tn_env a)) (10 * Second)"
    using q by (rule promptE)
  note cfg = demo_config(1,2) [OF c]
  have sil: "silent (metrics c) (tracer c)" using c by (simp add: demo_client_def)
  have mk: "rm_client m = c" "rm_cfg m = resolved c []" by (simp_all add: m)
  define r where "r = NewRWReader (aq_token q) (rm_keys m) (10 * Second)"
  define r1 where "r1 = r\<lparr>rw_expiresAt := Some (requestExpiry (acq_started (tn_env a)) (10 * Second))\<rparr>"
  have K: "rm_keys m = rm_keys (Client_RWMutex c name [])" and wt: "0 < waiterTimeout (10 * Second)" by (simp_all add: m)
  obtain s1 s2 r2 rst where read: "RWReader_Acquire R fuel (tn_env a) r s = (None, r1, s1)" "did clock db name T s s1"
    "RWReader_Release R (Reply [] T') r1 s1 = (None, r2, s2)" "did clock db name T' s1 s2" "shows_rw (db s2) (rm_keys m) rst" "rw_idle rst"
    using reader_session [OF name K wt fuel T a(2,3) r_def] unfolding r1_def by blast
  let ?g = "RWMutex_guard (RWReader_ops R fuel) (aq_ge q) m r1 0"
  obtain w1 where rl: "RWMutex_RLock fuel (aq_ge q) (aq_token q) (aq_turns q) m [] s w = (Some (Inr 0), RWMutex_setReadHolder 0 m, [?g], s1, w1)" "stdout w1 = stdout w"
    using RLock_silent [of m fuel a "aq_token q" s r1 s1 "aq_ge q" as "[]" w] sil read(1) cfg a(1) mk by (auto simp: r_def)
  have ru: "\<exists>st2 w2. unlock_at (RWReader_ops R fuel) (Reply [] T') 0 [?g] s1 w = (None, st2, s2, w2) \<and> stdout w2 = stdout w" for w
    using unlock_silent [of 0 "[?g]" "g_handle ?g" "RWReader_ops R fuel" "Reply [] T'" s1 None r2 s2 w] sil read(3) mk
    by (simp add: RWReader_ops_def) blast
  show ?thesis using that [OF rl ru did_trans [OF read(2,4)] read(5,6)] .
qed

text \<open>Write lock and unlock after it.\<close>

lemma writer_part:
  assumes c: "demo_client R c" and m: "rm_client m = c" "rm_cfg m = resolved c []" "rm_keys m = rm_keys (Client_RWMutex c name [])"
    and fuel: "1 < fuel" and idle: "shows_rw (db s) (rm_keys m) rst" "rw_idle rst" and q: "prompt q T (10 * Second)"
    and T: "clock s \<le> T" "T \<le> T'" "T' < T + 10000"
  obtains m' g s1 w1 s2 where
    "RWMutex_Lock fuel (aq_ge q) (aq_token q) (aq_turns q) m st s w = (Some (Inr (length st)), m', st @ [g], s1, w1)" "stdout w1 = stdout w"
    "\<And>w. \<exists>st2 w2. unlock_at (RWWriter_ops R fuel) (Reply [] T') (length st) (st @ [g]) s1 w = (None, st2, s2, w2) \<and> stdout w2 = stdout w"
    "did clock db name T' s s2" "db s2 (Writer (rm_keys m)) = None" "db s2 (Readers (rm_keys m)) = None" "db s2 (Waiters (rm_keys m)) = None"
proof -
  obtain a as where a: "aq_turns q = a # as" "acq_net (tn_env a) = Reply [] T"
      "acq_replied (tn_env a) < requestExpiry (acq_started (tn_env a)) (10 * Second)"
    using q by (rule promptE)
  note cfg = demo_config(1,2) [OF c]
  have sil: "silent (metrics c) (tracer c)" using c by (simp add: demo_client_def)
  define v where "v = NewRWWriter (aq_token q) (rm_keys m) (10 * Second)"
  define v1 where "v1 = v\<lparr>rw_expiresAt := Some (requestExpiry (acq_started (tn_env a)) (10 * Second))\<rparr>"
  have wt: "0 < waiterTimeout (10 * Second)" and ms: "T' < T + Milliseconds (10 * Second)" using T(3) by simp_all
  obtain s1 s2 v2 where writ: "RWWriter_TryAcquire R fuel (tn_env a) v s = (Inr 1, v1, s1)" "did clock db name T s s1"
    "RWWriter_Release R (Reply [] T') v1 s1 = (None, v2, s2)" "did clock db name T' s1 s2"
    "db s2 (Writer (rm_keys m)) = None" "db s2 (Readers (rm_keys m)) = None" "db s2 (Waiters (rm_keys m)) = None"
    using writer_session [OF idle m(3) wt fuel T(1,2) ms a(2,3) v_def] unfolding v1_def by blast
  let ?g = "RWMutex_guard (RWWriter_ops R fuel) (aq_ge q) m v1 1"
  obtain w1 where wl: "RWMutex_Lock fuel (aq_ge q) (aq_token q) (aq_turns q) m st s w =
      (Some (Inr (length st)), RWMutex_setWriteHolder (length st) m, st @ [?g], s1, w1)" "stdout w1 = stdout w"
    using WLock_silent [of m fuel a "aq_token q" s 1 v1 s1 "aq_ge q" as st w] sil writ(1) cfg a(1) m by (auto simp: v_def)
  have wu: "\<exists>st2 w2. unlock_at (RWWriter_ops R fuel) (Reply [] T') (length st) (st @ [?g]) s1 w = (None, st2, s2, w2) \<and> stdout w2 = stdout w" for w
    using unlock_silent [of "length st" "st @ [?g]" "g_handle ?g" "RWWriter_ops R fuel" "Reply [] T'" s1 None v2 s2 w] sil writ(3) m
    by (simp add: RWWriter_ops_def) blast
  show ?thesis using that [OF wl wu did_trans [OF writ(2,4)] writ(5-7)] .
qed

text \<open>A leadership that nobody contests, whose callback prints \<open>lines\<close> and returns nil.\<close>

lemma leader_part:
  assumes c: "demo_client R c" and name: "unused (db s) name" and q: "prompt q T (10 * Second)"
    and T: "clock s \<le> T" "T \<le> T'" "T' < T + 10000"
    and fn: "\<And>L st s w. \<exists>w'. fn 0 L st s w = (Returned None, L, st, s, w') \<and> stdout w' = stdout w @ lines"
  obtains L' st' s2 w2 where
    "Leader_Run (aq_ge q) (aq_token q) (aq_turns q) (Reply [] T') (Some fn) (Client_Leader c name []) [] s w = (Some (Returned None), L', st', s2, w2)"
    "stdout w2 = stdout w @ lines" "did clock db name T' s s2" "db s2 (Key name) = None"
proof -
  obtain a as where a: "aq_turns q = a # as" "acq_net (tn_env a) = Reply [] T"
      "acq_replied (tn_env a) < requestExpiry (acq_started (tn_env a)) (10 * Second)"
      "ge_now (aq_ge q) < requestExpiry (acq_started (tn_env a)) (10 * Second)"
    using q by (rule promptE)
  note cfg = demo_config(1-3) [OF c]
  have sil: "silent (metrics c) (tracer c)" using c by (simp add: demo_client_def)
  define L where "L = Client_Leader c name []"
  have ld: "ld_client L = c" "ld_cfg L = resolved c []" "ld_key L = Key name" "ld_fkey L = Derived (Key name) ''fencing''" "\<not> ld_fencing L"
    using cfg(3) by (simp_all add: L_def)
  let ?l = "Leader_newLease (aq_token q) L" and ?d = "requestExpiry (acq_started (tn_env a)) (10 * Second)"
  let ?l1 = "?l\<lparr>so_expiresAt := Some ?d\<rparr>"
  obtain s1 s2 where acq: "SingleOwner_TryAcquire R (tn_env a) ?l s = (Inr 0, ?l1, s1)" "did clock db name T s s1"
    and rel: "SingleOwner_Release R (Reply [] T') ?l1 s1 = (None, ?l\<lparr>so_expiresAt := None\<rparr>, s2)" "did clock db name T' s1 s2" "db s2 (Key name) = None"
    using exclusive_session [OF name, of ?l T T' "tn_env a"] T a cfg ld by auto
  obtain finish w0 where tr: "t_Start (tracer c) ''distsync.leader.run'' w = (finish, w0)" by fastforce
  define w1 where "w1 = m_Acquire (metrics c) ''leader'' (ld_name L) True (tn_since a) w0"
  let ?h = "lead_handle (aq_ge q) L ?l1" and ?L1 = "L\<lparr>ld_active := Some 0, ld_fence := 0\<rparr>"
  have live: "\<not> h_lost ?h" using lead_handle_live [of ?l1 ?d] a(4) by simp
  have hs: "silent (h_metrics ?h) (h_tracer ?h)" using sil ld by (simp add: lead_handle_def newHandle_def)
  obtain w2 where w2: "fn 0 ?L1 [?h] s1 w1 = (Returned None, ?L1, [?h], s1, w2)" "stdout w2 = stdout w1 @ lines" using fn by blast
  obtain L' st' w3 where held: "runHeld (aq_ge q) (Reply [] T') ?l1 0 fn L [] s1 w1 = (Returned None, L', st', s2, w3)"
    using runHeld_eq [of fn "[]" 0 L "aq_ge q" ?l1 s1 w1 "Returned None" ?L1 "[?h]" s1 w2 "Reply [] T'" None "?l\<lparr>so_expiresAt := None\<rparr>" s2]
      w2(1) live rel(1) cfg ld by (auto simp: end_error_def)
  have out: "stdout w3 = stdout w @ lines"
    using runHeld_silent [of fn "[]" 0 L "aq_ge q" ?l1 s1 w1 "Returned None" ?L1 "[?h]" s1 w2, OF _ _ held] w2 hs
      silentD(1) [OF sil] silentD(4) [OF sil tr] by (simp add: w1_def)
  show ?thesis
    using that [of L' st' s2 "finish None w3"] acq held cfg ld a(1) tr out silentD(5) [OF sil tr] did_trans [OF acq(2) rel(2)] rel(3)
    by (simp add: Leader_Run_def L_def [symmetric] w1_def named_result_def)
qed

end

section \<open>The basic example runs through\<close>

text \<open>
  The server answers the thirteen requests of the program at the times \<open>ts\<close>, replies arrive in
  time, and the three exclusive leases are released before they expire.
\<close>

definition basic_on_time :: "('s, 'v) basic_env \<Rightarrow> int \<Rightarrow> int list \<Rightarrow> bool" where
  "basic_on_time e now ts =
     (length ts = 13 \<and> sorted (now # ts) \<and>
      prompt (be_lock e) (ts ! 0) (10 * Second) \<and> be_unlock e = Reply [] (ts ! 1) \<and> ts ! 1 < ts ! 0 + 10000 \<and>
      prompt (be_acquire e) (ts ! 2) (10 * Second) \<and> be_available e = Reply [] (ts ! 3) \<and> be_release e = Reply [] (ts ! 4) \<and>
      prompt (be_rlock e) (ts ! 5) (10 * Second) \<and> be_runlock e = Reply [] (ts ! 6) \<and>
      prompt (be_wlock e) (ts ! 7) (10 * Second) \<and> be_wunlock e = Reply [] (ts ! 8) \<and> ts ! 8 < ts ! 7 + 10000 \<and>
      be_rate e \<noteq> [] \<and> rt_net (hd (be_rate e)) = Reply [] (ts ! 9) \<and> \<bar>UnixMilli (rt_now (hd (be_rate e)))\<bar> < 2 ^ 53 \<and>
      rt_net (be_strict e) = Reply [] (ts ! 10) \<and> \<bar>UnixMilli (rt_now (be_strict e))\<bar> < 2 ^ 53 \<and>
      prompt (be_lead e) (ts ! 11) (10 * Second) \<and> be_lead_release e = Reply [] (ts ! 12) \<and> ts ! 12 < ts ! 11 + 10000)"

lemma sorted_steps: "sorted (now # ts) \<Longrightarrow> Suc i < length ts \<Longrightarrow> ts ! i \<le> ts ! Suc i" "sorted (now # ts) \<Longrightarrow> ts \<noteq> [] \<Longrightarrow> now \<le> ts ! 0"
  by (auto simp: sorted_iff_nth_Suc hd_conv_nth)

lemma basic_times:
  assumes "basic_on_time e now ts"
  shows "now \<le> ts ! 0" "ts ! 0 \<le> ts ! 1" "ts ! 1 \<le> ts ! 2" "ts ! 2 \<le> ts ! 3" "ts ! 3 \<le> ts ! 4" "ts ! 4 \<le> ts ! 5" "ts ! 5 \<le> ts ! 6"
    "ts ! 6 \<le> ts ! 7" "ts ! 7 \<le> ts ! 8" "ts ! 8 \<le> ts ! 9" "ts ! 9 \<le> ts ! 10" "ts ! 10 \<le> ts ! 11" "ts ! 11 \<le> ts ! 12"
  using assms sorted_steps(1) [of now ts] sorted_steps(2) [of now ts]
  by (simp_all add: basic_on_time_def eval_nat_numeral del: sorted_simps)

text \<open>The background loop has nothing to do while the program sleeps and its callback waits.\<close>

definition undisturbed :: "('s, 'v) basic_env \<Rightarrow> bool" where
  "undisturbed e = ((\<forall>st s v. be_sleep e st s v = (st, s, v)) \<and> (\<forall>st s v. be_lead_wait e st s v = (st, s, v)) \<and> \<not> be_lead_done e)"

context redis_server
begin

lemma basic_mutex_runs:
  assumes "demo_client R c" "undisturbed e" "basic_on_time e now ts" "unused (db s) ''order:10001''" "clock s \<le> ts ! 0"
  obtains s' w' where "basic_mutex e c s w = (Inr (), s', w')" "did clock db ''order:10001'' (ts ! 1) s s'" "db s' (Key ''order:10001'') = None"
    "stdout w' = stdout w @ [(''locked order:10001, fencing token = %d'', [PUint 1]), (''unlocked'', [])]"
proof -
  have t: "prompt (be_lock e) (ts ! 0) (10 * Second)" "be_unlock e = Reply [] (ts ! 1)" "ts ! 1 < ts ! 0 + 10000"
    using assms(3) by (simp_all add: basic_on_time_def)
  obtain m' g s1 w1 s2 where lock: "Mutex_Lock (aq_ge (be_lock e)) (aq_token (be_lock e)) (aq_turns (be_lock e))
        (Client_Mutex c ''order:10001'' [Lease_ttl (10 * Second), Fencing_on]) [] s w = (Some (Inr 0), m', [g], s1, w1)"
      "Guard_FencingToken g = 1" "stdout w1 = stdout w"
    and unlock: "\<And>w. \<exists>st2 w2. unlock_at (SingleOwner_ops R) (Reply [] (ts ! 1)) 0 [g] s1 w = (None, st2, s2, w2) \<and> stdout w2 = stdout w"
    and did: "did clock db ''order:10001'' (ts ! 1) s s2" "db s2 (Key ''order:10001'') = None"
    by (rule mutex_part [OF assms(1) refl demo_config(4) [OF assms(1)] assms(4) t(1) assms(5) basic_times(2) [OF assms(3)] t(3), of w]) blast
  define w3 where "w3 = Printf ''locked order:10001, fencing token = %d'' [PUint 1] w1"
  obtain st2 w4 where u: "unlock_at (SingleOwner_ops R) (Reply [] (ts ! 1)) 0 [g] s1 w3 = (None, st2, s2, w4)" "stdout w4 = stdout w3"
    using unlock by blast
  have "basic_mutex e c s w = (Inr (), s2, Println ''unlocked'' w4)"
    using assms(2) u(1) t(2) lock(1,2) demo_config(1) [OF assms(1)] by (simp add: basic_mutex_def w3_def undisturbed_def)
  then show ?thesis using that did u(2) lock(3) by (simp add: w3_def)
qed

lemma basic_semaphore_runs:
  assumes "demo_client R c" "basic_on_time e now ts" "unused (db s) ''openai:gpt5''" "clock s \<le> ts ! 2"
  obtains s' w' where "basic_semaphore e c s w = (Inr (), s', w')" "did clock db ''openai:gpt5'' (ts ! 4) s s'" "db s' (Key ''openai:gpt5'') = None"
    "stdout w' = stdout w @ [(''acquired 1 AI permit, %d still free'', [PInt 19]), (''released permit'', [])]"
proof -
  have t: "prompt (be_acquire e) (ts ! 2) (10 * Second)" "be_available e = Reply [] (ts ! 3)" "be_release e = Reply [] (ts ! 4)"
    using assms(2) by (simp_all add: basic_on_time_def)
  obtain se where se: "Client_Semaphore c ''openai:gpt5'' 20 [] = Some se" by (simp add: Client_Semaphore_def)
  note le = basic_times [OF assms(2)]
  obtain p s1 w1 m t0 where acq: "Semaphore_Acquire (aq_ge (be_acquire e)) (aq_token (be_acquire e)) (aq_turns (be_acquire e)) 1 se s w = (Some (Inr p), s1, w1)"
      "stdout w1 = stdout w" "did clock db ''openai:gpt5'' (ts ! 2) s s1" "pool_at (db s1) (Key ''openai:gpt5'') [(m, t0)]"
    and rel: "\<And>s2 T2. pool_at (db s2) (Key ''openai:gpt5'') [(m, t0)] \<Longrightarrow> clock s2 \<le> T2 \<Longrightarrow> \<exists>s3. did clock db ''openai:gpt5'' T2 s2 s3 \<and>
       db s3 (Key ''openai:gpt5'') = None \<and> (\<forall>w. \<exists>p2 w2. Permit_Release R (Reply [] T2) p s2 w = (None, p2, s3, w2) \<and> stdout w2 = stdout w)"
    by (rule semaphore_part [OF assms(1) se assms(3) t(1) assms(4), of w]) blast
  obtain s2 where look: "Run R (Reply [] (ts ! 3)) (redis_call R (ZCARD (Key ''openai:gpt5''))) s1 = (Inr (RInt 1), s2)"
      "pool_at (db s2) (Key ''openai:gpt5'') [(m, t0)]" "did clock db ''openai:gpt5'' (ts ! 3) s1 s2"
    using counting_look [OF acq(4), of "ts ! 3"] did_clock [OF acq(3)] le(4) by auto
  define w3 where "w3 = Printf ''acquired 1 AI permit, %d still free'' [PInt 19] w1"
  obtain s3 p2 w4 where r: "did clock db ''openai:gpt5'' (ts ! 4) s2 s3" "db s3 (Key ''openai:gpt5'') = None"
      "Permit_Release R (Reply [] (ts ! 4)) p s2 w3 = (None, p2, s3, w4)" "stdout w4 = stdout w3"
    using rel [OF look(2), of "ts ! 4"] did_clock [OF look(3)] le(5) by (metis (no_types))
  have "Semaphore_Available (Reply [] (ts ! 3)) se s1 = (Inr 19, s2)"
    using look(1) se demo_config(1) [OF assms(1)] by (auto simp: Semaphore_Available_def Client_Semaphore_def)
  then have "basic_semaphore e c s w = (Inr (), s3, Println ''released permit'' w4)"
    using se acq(1) r(3) t demo_config(1) [OF assms(1)] by (simp add: basic_semaphore_def w3_def)
  then show ?thesis using that [OF _ did_trans [OF did_trans [OF acq(3) look(3)] r(1)] r(2)] r(4) acq(2) by (simp add: w3_def)
qed

lemma basic_rwmutex_runs:
  assumes "demo_client R c" "basic_on_time e now ts" "unused (db s) ''config:tenant:1001''" "clock s \<le> ts ! 5" "1 < fuel"
  obtains s' w' where "basic_rwmutex fuel e c s w = (Inr (), s', w')" "did clock db ''config:tenant:1001'' (ts ! 8) s s'"
    "\<forall>x \<in> {''writer'', ''readers'', ''waiters''}. db s' (Derived (Key ''config:tenant:1001'') x) = None"
    "stdout w' = stdout w @ [(''read lock held'', []), (''write lock held'', [])]"
proof -
  let ?n = "''config:tenant:1001''"
  have t: "prompt (be_rlock e) (ts ! 5) (10 * Second)" "be_runlock e = Reply [] (ts ! 6)"
    "prompt (be_wlock e) (ts ! 7) (10 * Second)" "be_wunlock e = Reply [] (ts ! 8)" "ts ! 8 < ts ! 7 + 10000"
    using assms(2) by (simp_all add: basic_on_time_def)
  define m where "m = Client_RWMutex c ?n []"
  note le = basic_times [OF assms(2)]
  obtain g s1 w1 s2 rst where rl: "RWMutex_RLock fuel (aq_ge (be_rlock e)) (aq_token (be_rlock e)) (aq_turns (be_rlock e)) m [] s w =
        (Some (Inr 0), RWMutex_setReadHolder 0 m, [g], s1, w1)" "stdout w1 = stdout w"
    and ru: "\<And>w. \<exists>st2 w2. unlock_at (RWReader_ops R fuel) (Reply [] (ts ! 6)) 0 [g] s1 w = (None, st2, s2, w2) \<and> stdout w2 = stdout w"
    and d2: "did clock db ?n (ts ! 6) s s2" and rst: "shows_rw (db s2) (rm_keys m) rst" "rw_idle rst"
    by (rule reader_part [OF assms(1) m_def assms(5,3) t(1) assms(4) le(7), of w]) blast
  obtain st3 w3 where u: "unlock_at (RWReader_ops R fuel) (Reply [] (ts ! 6)) 0 [g] s1 (Println ''read lock held'' w1) = (None, st3, s2, w3)"
      "stdout w3 = stdout w1 @ [(''read lock held'', [])]" using ru [of "Println ''read lock held'' w1"] by auto
  let ?m' = "RWMutex_setReadHolder 0 m"
  have m': "rm_client ?m' = c" "rm_cfg ?m' = resolved c []" "rm_keys ?m' = rm_keys (Client_RWMutex c ?n [])" by (simp_all add: m_def)
  have idle: "shows_rw (db s2) (rm_keys ?m') rst" "clock s2 \<le> ts ! 7" using rst(1) did_clock [OF d2] le(8) by simp_all
  obtain m'' g' s4 w4 s5 where wl: "RWMutex_Lock fuel (aq_ge (be_wlock e)) (aq_token (be_wlock e)) (aq_turns (be_wlock e)) ?m' st3 s2 w3 =
        (Some (Inr (length st3)), m'', st3 @ [g'], s4, w4)" "stdout w4 = stdout w3"
    and wu: "\<And>w. \<exists>st2 w2. unlock_at (RWWriter_ops R fuel) (Reply [] (ts ! 8)) (length st3) (st3 @ [g']) s4 w = (None, st2, s5, w2) \<and> stdout w2 = stdout w"
    and d5: "did clock db ?n (ts ! 8) s2 s5" and free: "db s5 (Writer (rm_keys ?m')) = None" "db s5 (Readers (rm_keys ?m')) = None" "db s5 (Waiters (rm_keys ?m')) = None"
    by (rule writer_part [OF assms(1) m' assms(5) idle(1) rst(2) t(3) idle(2) le(9) t(5), of st3 w3]) blast
  obtain st6 w6 where v: "unlock_at (RWWriter_ops R fuel) (Reply [] (ts ! 8)) (length st3) (st3 @ [g']) s4 (Println ''write lock held'' w4) = (None, st6, s5, w6)"
      "stdout w6 = stdout w4 @ [(''write lock held'', [])]" using wu [of "Println ''write lock held'' w4"] by auto
  have "basic_rwmutex fuel e c s w = (Inr (), s5, w6)"
    using rl(1) u(1) wl(1) v(1) t demo_config(1) [OF assms(1)] by (simp add: basic_rwmutex_def m_def)
  then show ?thesis using that did_trans [OF d2 d5] free u(2) v(2) rl(2) wl(2) by (simp add: m_def)
qed

lemma basic_limiter_runs:
  assumes "demo_client R c" "basic_on_time e now ts" "unused (db s) ''tenant:1001''" "clock s \<le> ts ! 9"
  obtains s' w' where "basic_limiter impl e c s w = (Inr (), s', w')" "did clock db ''tenant:1001'' (ts ! 9) s s'"
    "stdout w' = stdout w @ [(''rate limiter allowed 1 request'', [])]"
proof -
  obtain t us where t: "be_rate e = t # us" "rt_net t = Reply [] (ts ! 9)" "\<bar>UnixMilli (rt_now t)\<bar> < 2 ^ 53"
    using assms(2) by (cases "be_rate e") (auto simp: basic_on_time_def)
  have sil: "silent (metrics c) (tracer c)" using assms(1) by (simp add: demo_client_def)
  obtain finish w1 where tr: "t_Start (tracer c) ''distsync.ratelimit.allow'' w = (finish, w1)" by fastforce
  obtain s1 where "Allow impl t (Fin 1) (hundred c ''tenant:1001'' AlgorithmTokenBucket) s w = (Inr (True, 0, None), s1, finish None w1)"
    "did clock db ''tenant:1001'' (ts ! 9) s s1"
    using limiter_session [OF assms(3) demo_config(1) [OF assms(1)] assms(4) t(2,3) _ tr] by blast
  then show ?thesis using that t(1) silentD(4,5) [OF sil tr] by (simp add: basic_limiter_def hundred_constructed)
qed

lemma basic_strict_runs:
  assumes "demo_client R c" "basic_on_time e now ts" "unused (db s) ''tenant:1001:strict''" "clock s \<le> ts ! 10"
  obtains s' w' where "basic_strict impl e c s w = (Inr (), s', w')" "did clock db ''tenant:1001:strict'' (ts ! 10) s s'"
    "stdout w' = stdout w @ [(''sliding-window allow: ok=%v retryAfter=%v'', [PBool True, PDuration 0])]"
proof -
  have t: "rt_net (be_strict e) = Reply [] (ts ! 10)" "\<bar>UnixMilli (rt_now (be_strict e))\<bar> < 2 ^ 53"
    using assms(2) by (simp_all add: basic_on_time_def)
  have sil: "silent (metrics c) (tracer c)" using assms(1) by (simp add: demo_client_def)
  obtain finish w1 where tr: "t_Start (tracer c) ''distsync.ratelimit.allow'' w = (finish, w1)" by fastforce
  obtain s1 where "Allow impl (be_strict e) (Fin 1) (hundred c ''tenant:1001:strict'' AlgorithmSlidingWindow) s w = (Inr (True, 0, None), s1, finish None w1)"
    "did clock db ''tenant:1001:strict'' (ts ! 10) s s1"
    using limiter_session [OF assms(3) demo_config(1) [OF assms(1)] assms(4) t _ tr] by blast
  then show ?thesis using that silentD(4,5) [OF sil tr] by (simp add: basic_strict_def hundred_constructed)
qed

lemma basic_leader_runs:
  assumes "demo_client R c" "undisturbed e" "basic_on_time e now ts" "unused (db s) ''scheduler''" "clock s \<le> ts ! 11"
  obtains s' w' where "basic_leader e c s w = (Inr (), s', w')" "did clock db ''scheduler'' (ts ! 12) s s'" "db s' (Key ''scheduler'') = None"
    "stdout w' = stdout w @ [(''I am the leader; running cron for 1.5s...'', []), (''demo done'', [])]"
proof -
  have t: "prompt (be_lead e) (ts ! 11) (10 * Second)" "be_lead_release e = Reply [] (ts ! 12)" "ts ! 12 < ts ! 11 + 10000"
    using assms(3) by (simp_all add: basic_on_time_def)
  have fn: "\<exists>w'. basic_callback e 0 L st s w = (Returned None, L, st, s, w') \<and> stdout w' = stdout w @ [(''I am the leader; running cron for 1.5s...'', [])]"
    for L st s w using assms(2) by (simp add: basic_callback_def undisturbed_def Let_def)
  obtain L' st' s2 w2 where "Leader_Run (aq_ge (be_lead e)) (aq_token (be_lead e)) (aq_turns (be_lead e)) (Reply [] (ts ! 12)) (Some (basic_callback e))
        (Client_Leader c ''scheduler'' []) [] s w = (Some (Returned None), L', st', s2, w2)"
      "stdout w2 = stdout w @ [(''I am the leader; running cron for 1.5s...'', [])]" "did clock db ''scheduler'' (ts ! 12) s s2" "db s2 (Key ''scheduler'') = None"
    by (rule leader_part [where fn = "basic_callback e" and w = w and lines = "[(''I am the leader; running cron for 1.5s...'', [])]",
        OF assms(1,4) t(1) assms(5) basic_times(13) [OF assms(3)] t(3) fn]) blast
  then show ?thesis using that t(2) by (simp add: basic_leader_def)
qed

end

definition basic_output :: "(string \<times> printed list) list" where
  "basic_output = [(''locked order:10001, fencing token = %d'', [PUint 1]), (''unlocked'', []),
     (''acquired 1 AI permit, %d still free'', [PInt 19]), (''released permit'', []),
     (''read lock held'', []), (''write lock held'', []), (''rate limiter allowed 1 request'', []),
     (''sliding-window allow: ok=%v retryAfter=%v'', [PBool True, PDuration 0]),
     (''I am the leader; running cron for 1.5s...'', []), (''demo done'', [])]"

text \<open>What a sequence of parts leaves absent.\<close>

definition spares :: "('s \<Rightarrow> keyspace) \<Rightarrow> string list \<Rightarrow> 's \<Rightarrow> 's \<Rightarrow> bool" where
  "spares db ns s s' = (\<forall>k. (\<forall>n \<in> set ns. \<not> in_family n k) \<longrightarrow> db s k = None \<longrightarrow> db s' k = None)"

lemma spares_did: "did clock db n T s s' \<Longrightarrow> spares db [n] s s'"
  by (simp add: spares_def did_def)

lemma spares_append: "spares db ns s s1 \<Longrightarrow> spares db ms s1 s' \<Longrightarrow> spares db (ns @ ms) s s'"
  by (simp add: spares_def)

lemma spares_absent:
  assumes "spares db ns s s'" "\<forall>n \<in> set ns. plain_name n \<and> n \<noteq> b" "plain_name b" "in_family b k" "db s k = None"
  shows "db s' k = None"
  using assms other_family [of _ b k] by (auto simp: spares_def)

lemma spares_keys:
  assumes "spares db ns s s'" "\<forall>n \<in> set ns. plain_name n \<and> n \<noteq> b" "plain_name b"
  shows "db s (Key b) = None \<Longrightarrow> db s' (Key b) = None" "db s (Derived (Key b) x) = None \<Longrightarrow> db s' (Derived (Key b) x) = None"
  by (rule spares_absent [OF assms], simp, assumption)+

lemma spares_unused:
  assumes "spares db ns s s'" "\<forall>n \<in> set ns. plain_name n \<and> n \<noteq> b" "plain_name b" "unused (db s) b"
  shows "unused (db s') b"
  using assms spares_absent [OF assms(1-3)] by (simp add: unused_def)

lemma demo_plain: "plain_name ''order:10001''" "plain_name ''openai:gpt5''" "plain_name ''config:tenant:1001''" "plain_name ''tenant:1001''"
    "plain_name ''tenant:1001:strict''" "plain_name ''scheduler''"
  by (simp_all add: plain_name_def)

context redis_server
begin

text \<open>The first half, up to the locks.\<close>

lemma basic_locks_run:
  assumes c: "demo_client R c" and fuel: "1 < fuel" and env: "undisturbed e" "basic_on_time e (clock s) ts"
    and names: "unused (db s) ''order:10001''" "unused (db s) ''openai:gpt5''" "unused (db s) ''config:tenant:1001''"
  obtains s3 w3 where "\<And>k :: (_, _, unit) prog. followed_by (basic_mutex e c) (\<lambda>_. followed_by (basic_semaphore e c) (\<lambda>_. followed_by (basic_rwmutex fuel e c) (\<lambda>_. k))) s w = k s3 w3"
    "stdout w3 = stdout w @ take 6 basic_output" "clock s3 = ts ! 8" "spares db [''order:10001'', ''openai:gpt5'', ''config:tenant:1001''] s s3"
    "db s3 (Key ''order:10001'') = None" "db s3 (Key ''openai:gpt5'') = None"
    "\<forall>x \<in> {''writer'', ''readers'', ''waiters''}. db s3 (Derived (Key ''config:tenant:1001'') x) = None"
proof -
  note le = basic_times [OF env(2)]
  obtain s1 w1 where p1: "basic_mutex e c s w = (Inr (), s1, w1)" and d1: "did clock db ''order:10001'' (ts ! 1) s s1" and k1: "db s1 (Key ''order:10001'') = None"
    and o1: "stdout w1 = stdout w @ [(''locked order:10001, fencing token = %d'', [PUint 1]), (''unlocked'', [])]"
    by (rule basic_mutex_runs [OF c env names(1) le(1), of w]) blast
  note sp1 = spares_did [OF d1]
  have "unused (db s1) ''openai:gpt5''" "clock s1 \<le> ts ! 2"
    using spares_unused [OF sp1 _ _ names(2)] demo_plain did_clock [OF d1] le(3) by simp_all
  then obtain s2 w2 where p2: "basic_semaphore e c s1 w1 = (Inr (), s2, w2)" and d2: "did clock db ''openai:gpt5'' (ts ! 4) s1 s2" and k2: "db s2 (Key ''openai:gpt5'') = None"
    and o2: "stdout w2 = stdout w1 @ [(''acquired 1 AI permit, %d still free'', [PInt 19]), (''released permit'', [])]"
    by (rule basic_semaphore_runs [OF c env(2), where w = w1]) blast
  note sp2 = spares_append [OF sp1 spares_did [OF d2]]
  have "unused (db s2) ''config:tenant:1001''" "clock s2 \<le> ts ! 5"
    using spares_unused [OF sp2 _ _ names(3)] demo_plain did_clock [OF d2] le(6) by simp_all
  then obtain s3 w3 where p3: "basic_rwmutex fuel e c s2 w2 = (Inr (), s3, w3)" and d3: "did clock db ''config:tenant:1001'' (ts ! 8) s2 s3"
    and k3: "\<forall>x \<in> {''writer'', ''readers'', ''waiters''}. db s3 (Derived (Key ''config:tenant:1001'') x) = None"
    and o3: "stdout w3 = stdout w2 @ [(''read lock held'', []), (''write lock held'', [])]"
    by (rule basic_rwmutex_runs [OF c env(2) _ _ fuel, where w = w2]) blast
  note r3 = spares_did [OF d3]
  note r2 = spares_append [OF spares_did [OF d2] r3]
  have "db s3 (Key ''order:10001'') = None" by (rule spares_keys(1) [where db = db, OF r2 _ demo_plain(1) k1]) (simp add: demo_plain)
  moreover have "db s3 (Key ''openai:gpt5'') = None" by (rule spares_keys(1) [where db = db, OF r3 _ demo_plain(2) k2]) (simp add: demo_plain)
  moreover have "stdout w3 = stdout w @ take 6 basic_output" by (simp add: o1 o2 o3 basic_output_def)
  moreover have "spares db [''order:10001'', ''openai:gpt5'', ''config:tenant:1001''] s s3" using spares_append [OF sp2 r3] by simp
  ultimately show ?thesis using p1 p2 p3 k3 did_clock [OF d3] by (intro that [of s3 w3]) (simp_all only: followed_simps)
qed

lemma basic_parts_run:
  assumes c: "demo_client R c" and fuel: "1 < fuel" and env: "undisturbed e" "basic_on_time e (clock s) ts"
    and names: "unused (db s) ''order:10001''" "unused (db s) ''openai:gpt5''" "unused (db s) ''config:tenant:1001''" "unused (db s) ''tenant:1001''"
      "unused (db s) ''tenant:1001:strict''" "unused (db s) ''scheduler''"
  obtains s' w' where "followed_by (basic_mutex e c) (\<lambda>_. followed_by (basic_semaphore e c) (\<lambda>_. followed_by (basic_rwmutex fuel e c) (\<lambda>_.
      followed_by (basic_limiter impl e c) (\<lambda>_. followed_by (basic_strict impl e c) (\<lambda>_. basic_leader e c))))) s w = (Inr (), s', w')"
    "stdout w' = stdout w @ basic_output"
    "db s' (Key ''order:10001'') = None" "db s' (Key ''openai:gpt5'') = None" "db s' (Key ''scheduler'') = None"
    "\<forall>x \<in> {''writer'', ''readers'', ''waiters''}. db s' (Derived (Key ''config:tenant:1001'') x) = None"
proof -
  note le = basic_times [OF env(2)]
  obtain s3 w3 where p3: "\<And>k :: (_, _, unit) prog. followed_by (basic_mutex e c) (\<lambda>_. followed_by (basic_semaphore e c) (\<lambda>_. followed_by (basic_rwmutex fuel e c) (\<lambda>_. k))) s w = k s3 w3"
    and o3: "stdout w3 = stdout w @ take 6 basic_output" and c3: "clock s3 = ts ! 8"
    and sp3: "spares db [''order:10001'', ''openai:gpt5'', ''config:tenant:1001''] s s3"
    and k3: "db s3 (Key ''order:10001'') = None" "db s3 (Key ''openai:gpt5'') = None" "\<forall>x \<in> {''writer'', ''readers'', ''waiters''}. db s3 (Derived (Key ''config:tenant:1001'') x) = None"
    by (rule basic_locks_run [OF c fuel env names(1-3), of w]) blast
  have "unused (db s3) ''tenant:1001''" "clock s3 \<le> ts ! 9"
    using spares_unused [OF sp3 _ _ names(4)] demo_plain c3 le(10) by simp_all
  then obtain s4 w4 where p4: "basic_limiter impl e c s3 w3 = (Inr (), s4, w4)" and d4: "did clock db ''tenant:1001'' (ts ! 9) s3 s4"
    and o4: "stdout w4 = stdout w3 @ [(''rate limiter allowed 1 request'', [])]"
    by (rule basic_limiter_runs [OF c env(2), where w = w3 and impl = impl]) blast
  note sp4 = spares_append [OF sp3 spares_did [OF d4]]
  have "unused (db s4) ''tenant:1001:strict''" "clock s4 \<le> ts ! 10"
    using spares_unused [OF sp4 _ _ names(5)] demo_plain did_clock [OF d4] le(11) by simp_all
  then obtain s5 w5 where p5: "basic_strict impl e c s4 w4 = (Inr (), s5, w5)" and d5: "did clock db ''tenant:1001:strict'' (ts ! 10) s4 s5"
    and o5: "stdout w5 = stdout w4 @ [(''sliding-window allow: ok=%v retryAfter=%v'', [PBool True, PDuration 0])]"
    by (rule basic_strict_runs [OF c env(2), where w = w4 and impl = impl]) blast
  note sp5 = spares_append [OF sp4 spares_did [OF d5]]
  have "unused (db s5) ''scheduler''" "clock s5 \<le> ts ! 11"
    using spares_unused [OF sp5 _ _ names(6)] demo_plain did_clock [OF d5] le(12) by simp_all
  then obtain s6 w6 where p6: "basic_leader e c s5 w5 = (Inr (), s6, w6)" and d6: "did clock db ''scheduler'' (ts ! 12) s5 s6" and k6: "db s6 (Key ''scheduler'') = None"
    and o6: "stdout w6 = stdout w5 @ [(''I am the leader; running cron for 1.5s...'', []), (''demo done'', [])]"
    by (rule basic_leader_runs [OF c env, where w = w5]) blast
  note r4 = spares_append [OF spares_did [OF d4] spares_append [OF spares_did [OF d5] spares_did [OF d6]]]
  have "db s6 (Key ''order:10001'') = None" by (rule spares_keys(1) [where db = db, OF r4 _ demo_plain(1) k3(1)]) (simp add: demo_plain)
  moreover have "db s6 (Key ''openai:gpt5'') = None" by (rule spares_keys(1) [where db = db, OF r4 _ demo_plain(2) k3(2)]) (simp add: demo_plain)
  moreover have "db s6 (Derived (Key ''config:tenant:1001'') x) = None" if "x \<in> {''writer'', ''readers'', ''waiters''}" for x
    by (rule spares_keys(2) [where db = db, OF r4 _ demo_plain(3) bspec [OF k3(3) that]]) (simp add: demo_plain)
  moreover have "stdout w6 = stdout w @ basic_output" by (simp add: o3 o4 o5 o6 basic_output_def)
  ultimately show ?thesis using p4 p5 p6 k6 by (intro that [of s6 w6] ballI) (simp_all only: p3 followed_simps)
qed

end

text \<open>
  C19: The basic example does what it demonstrates. On a server where its names are unused, over a
  network that is on time, it runs from the ping to its last line: it gets the first fence, sees
  nineteen of twenty permits free, takes the read and the write lock in turn, is admitted by both
  limiters and leads undisturbed. It prints exactly these lines, and leaves no lock, permit, queue
  or leadership behind.
\<close>

theorem basic_completes:
  assumes server: "redis_server R clock db" and dial: "dial (basic_addr addr) = R" and fuel: "1 < fuel"
    and env: "be_ping e = None" "undisturbed e" "basic_on_time e (clock s) ts"
    and registered: "Prometheus_New api None (sink w) = Some (pm, v)"
    and names: "\<forall>n \<in> {''order:10001'', ''openai:gpt5'', ''config:tenant:1001'', ''tenant:1001'', ''tenant:1001:strict'', ''scheduler''}.
      unused (db s) n"
  shows "\<exists>s' w'. basic_main api global dial impl fuel e addr s w = (Inr (), s', w') \<and> stdout w' = stdout w @ basic_output \<and>
    db s' (Key ''order:10001'') = None \<and> db s' (Key ''openai:gpt5'') = None \<and> db s' (Key ''scheduler'') = None \<and>
    (\<forall>x \<in> {''writer'', ''readers'', ''waiters''}. db s' (Derived (Key ''config:tenant:1001'') x) = None)"
proof -
  obtain s' w' where "followed_by (basic_mutex e (basic_client pm global R)) (\<lambda>_. followed_by (basic_semaphore e (basic_client pm global R)) (\<lambda>_.
      followed_by (basic_rwmutex fuel e (basic_client pm global R)) (\<lambda>_. followed_by (basic_limiter impl e (basic_client pm global R)) (\<lambda>_.
      followed_by (basic_strict impl e (basic_client pm global R)) (\<lambda>_. basic_leader e (basic_client pm global R)))))) s (w\<lparr>sink := v\<rparr>) = (Inr (), s', w')"
    "stdout w' = stdout w @ basic_output" "db s' (Key ''order:10001'') = None" "db s' (Key ''openai:gpt5'') = None" "db s' (Key ''scheduler'') = None"
    "\<forall>x \<in> {''writer'', ''readers'', ''waiters''}. db s' (Derived (Key ''config:tenant:1001'') x) = None"
    by (rule redis_server.basic_parts_run [OF server demo_clients(1) fuel env(2,3), where impl = impl and w = "w\<lparr>sink := v\<rparr>"]) (use names in auto)
  then show ?thesis using dial env(1) registered by (simp add: basic_main_def)
qed

section \<open>Losing the leadership\<close>

text \<open>\<^verbatim>\<open>Run\<close> returns an error that wraps \<^verbatim>\<open>ErrLeadershipLost\<close>, never the value itself.\<close>

lemma Run_lost:
  assumes loop: "acquire_loop (SingleOwner_TryAcquire (rdb (ld_client L))) (ge_impl ge) (retry (ld_cfg L)) 0 turns (Leader_newLease token L) s =
      (Granted f a, l, s1, ds)"
    and fn: "\<And>w. \<exists>L2 st2 s2 w2. fn 0 (L\<lparr>ld_active := Some 0, ld_fence := f\<rparr>) [lead_handle ge L l] s1 w = (Returned None, L2, st2, s2, w2) \<and> h_lost (st2 ! 0)"
  shows "\<exists>x L' st' s' w'. Leader_Run ge token turns tr (Some fn) L [] s w = (Some (Returned (Some x)), L', st', s', w') \<and>
    errors_Is x ErrLeadershipLost \<and> x \<noteq> ErrLeadershipLost"
proof -
  obtain finish w0 where tr: "t_Start (tracer (ld_client L)) ''distsync.leader.run'' w = (finish, w0)" by fastforce
  define w1 where "w1 = m_Acquire (metrics (ld_client L)) ''leader'' (ld_name L) True (tn_since a) w0"
  obtain L2 st2 s2 w2 where cb: "fn 0 (L\<lparr>ld_active := Some 0, ld_fence := f\<rparr>) [lead_handle ge L l] s1 w1 = (Returned None, L2, st2, s2, w2)" "h_lost (st2 ! 0)"
    using fn by blast
  obtain h1 w3 where h1: "stop (st2 ! 0) w2 = (h1, w3)" by fastforce
  obtain rel h2 s3 w4 where rel: "handle_release (SingleOwner_ops (rdb (ld_client L))) tr h1 s2 w3 = (rel, h2, s3, w4)" by (metis prod_cases4)
  let ?x = "end_error True rel None"
  have held: "runHeld ge tr l f fn L [] s1 w1 = (Returned ?x, clear_active 0 L2, st2[0 := h2], s3, w4)"
    using cb h1 rel by (simp add: runHeld_def Let_def end_error_def)
  obtain x where x: "?x = Some x" "\<exists>es. x = Join es"
    by (cases rel) (auto simp: end_error_def Let_def)
  have "err_Is ?x ErrLeadershipLost" by (simp add: err_Is_end_error)
  then show ?thesis using loop tr held x by (auto simp: Leader_Run_def w1_def Let_def)
qed

text \<open>
  C39: The two examples part when a leadership is lost while their callback waits. The basic example
  asks \<^verbatim>\<open>errors.Is\<close> and goes on; the cluster example compares with \<^verbatim>\<open>!=\<close>, takes the loss for
  another error and ends with \<^verbatim>\<open>log.Fatalf\<close>, whatever the release of the lease returns.
\<close>

theorem lost_leadership_verdicts:
  assumes L: "L = Client_Leader c ''scheduler'' []" and q: "be_lead e = q" "ce_lead e' = q"
    and elected: "acquire_loop (SingleOwner_TryAcquire (rdb c)) (ge_impl (aq_ge q)) (retry (ld_cfg L)) 0 (aq_turns q) (Leader_newLease (aq_token q) L) s =
      (Granted f a, l, s1, ds)"
    and lost: "\<And>v. h_lost (fst (be_lead_wait e [lead_handle (aq_ge q) L l] s1 v) ! 0)" "be_lead_wait e = ce_lead_wait e'"
  shows "(\<exists>s' w'. basic_leader e c s w = (Inr (), s', w')) \<and>
    (\<exists>x s' w'. cluster_leader e' c s w = (Inl (Fatalf ''leader: %v'' x), s', w') \<and> errors_Is x ErrLeadershipLost)"
proof
  have loop: "acquire_loop (SingleOwner_TryAcquire (rdb (ld_client L))) (ge_impl (aq_ge q)) (retry (ld_cfg L)) 0 (aq_turns q) (Leader_newLease (aq_token q) L) s =
      (Granted f a, l, s1, ds)" using elected L by simp
  have b: "\<exists>L2 st2 s2 w2. basic_callback e 0 (L\<lparr>ld_active := Some 0, ld_fence := f\<rparr>) [lead_handle (aq_ge q) L l] s1 w = (Returned None, L2, st2, s2, w2) \<and> h_lost (st2 ! 0)" for w
    using lost(1) [of "sink w"]
    by (cases "be_lead_wait e [lead_handle (aq_ge q) L l] s1 (sink w)") (simp add: basic_callback_def Println_def Printf_def Let_def)
  have d: "\<exists>L2 st2 s2 w2. cluster_callback e' 0 (L\<lparr>ld_active := Some 0, ld_fence := f\<rparr>) [lead_handle (aq_ge q) L l] s1 w = (Returned None, L2, st2, s2, w2) \<and> h_lost (st2 ! 0)" for w
    using lost(1) [of "sink w"] lost(2)
    by (cases "be_lead_wait e [lead_handle (aq_ge q) L l] s1 (sink w)") (simp add: cluster_callback_def Println_def Printf_def)
  show "\<exists>s' w'. basic_leader e c s w = (Inr (), s', w')"
    using Run_lost [where fn = "basic_callback e" and tr = "be_lead_release e" and w = w, OF loop b] q L by (auto simp: basic_leader_def)
  show "\<exists>x s' w'. cluster_leader e' c s w = (Inl (Fatalf ''leader: %v'' x), s', w') \<and> errors_Is x ErrLeadershipLost"
    using Run_lost [where fn = "cluster_callback e'" and tr = "ce_lead_release e'" and w = w, OF loop d] q L by (auto simp: cluster_leader_def Let_def)
qed

section \<open>Witnesses\<close>

definition wit_acquiring :: "int \<Rightarrow> acquiring" where
  "wit_acquiring T = \<lparr>aq_ge = wit_genv, aq_token = ''t'', aq_turns = [wit_turn\<lparr>tn_env := wit_env\<lparr>acq_net := Reply [] T\<rparr>\<rparr>]\<rparr>"

definition wit_basic :: "(mem, unit) basic_env" where
  "wit_basic = \<lparr>be_ping = None, be_lock = wit_acquiring 3, be_sleep = \<lambda>st s v. (st, s, v), be_unlock = Reply [] 104,
     be_acquire = wit_acquiring 105, be_available = Reply [] 106, be_release = Reply [] 107, be_rlock = wit_acquiring 108,
     be_runlock = Reply [] 109, be_wlock = wit_acquiring 110, be_wunlock = Reply [] 111, be_rate = [wit_rt 0 112], be_strict = wit_rt 0 113,
     be_lead = wit_acquiring 114, be_lead_wait = \<lambda>st s v. (st, s, v), be_lead_done = False, be_lead_release = Reply [] 1615\<rparr>"

definition wit_api :: "(unit, unit) prom_api" where
  "wit_api = \<lparr>api_Inc = \<lambda>_ _ w. w, api_Observe = \<lambda>_ _ _ w. w, api_MustRegister = \<lambda>_ _ w. Some w, api_DefaultRegisterer = ()\<rparr>"

definition wit_otel :: "(unit, unit) otel" where
  "wit_otel = \<lparr>ot_Start = \<lambda>_ _ w. ((), w), ot_RecordError = \<lambda>_ _ w. w, ot_SetStatusError = \<lambda>_ _ w. w, ot_End = \<lambda>_ w. w\<rparr>"

lemma wit_prompt: "prompt (wit_acquiring T) T (10 * Second)"
  by (simp add: prompt_def wit_acquiring_def wit_genv_def wit_env_def requestExpiry_def)

lemma wit_on_time: "basic_on_time wit_basic 0 [3, 104, 105, 106, 107, 108, 109, 110, 111, 112, 113, 114, 1615]"
  by (simp add: basic_on_time_def wit_basic_def wit_prompt [simplified] wit_rt_def UnixMilli_def)

theorem basic_completes_witness:
  "\<exists>s' w'. basic_main wit_api wit_otel (\<lambda>_. mem_redis) (\<lambda>_. 0) 2 wit_basic [] empty_mem \<lparr>stdout = [], sink = ()\<rparr> = (Inr (), s', w') \<and>
     stdout w' = basic_output \<and> mem_db s' (Key ''order:10001'') = None"
proof -
  let ?w = "\<lparr>stdout = [], sink = ()\<rparr>" and ?ts = "[3, 104, 105, 106, 107, 108, 109, 110, 111, 112, 113, 114, 1615]"
  have "undisturbed wit_basic" "be_ping wit_basic = None" by (simp_all add: undisturbed_def wit_basic_def)
  moreover have "\<exists>pm. Prometheus_New wit_api None (sink ?w) = Some (pm, ())"
    by (simp add: Prometheus_New_def NewWithResources_def wit_api_def)
  moreover have "unused (mem_db empty_mem) n" for n by (simp add: unused_def empty_mem_db)
  moreover have "basic_on_time wit_basic (mclock empty_mem) ?ts" using wit_on_time by (simp only: empty_lock(3))
  ultimately show ?thesis
    using basic_completes [OF mem_server, where dial = "\<lambda>_. mem_redis" and addr = "[]" and fuel = 2 and e = wit_basic and s = empty_mem and ts = ?ts
        and api = wit_api and w = ?w and v = "()" and global = wit_otel and impl = "\<lambda>_. 0"] by auto
qed

text \<open>A lease that is lost while the callback waits.\<close>

definition wit_cluster :: "(mem, unit) cluster_env" where
  "wit_cluster = \<lparr>ce_ping = None, ce_lock = wit_acquiring 3, ce_unlock = Reply [] 4, ce_acquire = wit_acquiring 5, ce_release = Reply [] 6,
     ce_rlock = wit_acquiring 7, ce_runlock = Reply [] 8, ce_wlock = wit_acquiring 9, ce_wunlock = Reply [] 10, ce_rate = [wit_rt 0 11],
     ce_lead = wit_acquiring 114, ce_lead_wait = \<lambda>st s v. (map markLost st, s, v), ce_lead_release = Fail [] Canceled\<rparr>"

theorem lost_leadership_verdicts_witness:
  "\<exists>x s' w'. cluster_leader wit_cluster (New mem_redis []) empty_mem \<lparr>stdout = [], sink = ()\<rparr> = (Inl (Fatalf ''leader: %v'' x), s', w') \<and>
     errors_Is x ErrLeadershipLost"
proof -
  let ?c = "New mem_redis [] :: (mem, unit world) client" and ?q = "wit_acquiring 114"
  let ?L = "Client_Leader ?c ''scheduler'' []" and ?e = "wit_basic\<lparr>be_lead_wait := ce_lead_wait wit_cluster\<rparr>"
  let ?a = "wit_turn\<lparr>tn_env := wit_env\<lparr>acq_net := Reply [] 114\<rparr>\<rparr>" and ?l = "Leader_newLease ''t'' ?L"
  have cfg: "ttl (resolved ?c []) = 10 * Second" by (rule demo_config(2) [OF demo_clients(2)])
  have env: "acq_net (tn_env ?a) = Reply [] 114" "acq_replied (tn_env ?a) < requestExpiry (acq_started (tn_env ?a)) (10 * Second)"
    by (simp_all add: wit_env_def requestExpiry_def)
  have "unused (mem_db empty_mem) ''scheduler''" by (simp add: unused_def empty_mem_db)
  then obtain f l s1 where "SingleOwner_TryAcquire mem_redis (tn_env ?a) ?l empty_mem = (Inr f, l, s1)"
    using redis_server.exclusive_session [OF mem_server, of empty_mem "''scheduler''" ?l 114 115 "tn_env ?a"] env cfg by (auto simp: empty_lock(3))
  then have "acquire_loop (SingleOwner_TryAcquire (rdb ?c)) (ge_impl (aq_ge ?q)) (retry (ld_cfg ?L)) 0 (aq_turns ?q) (Leader_newLease (aq_token ?q) ?L) empty_mem =
      (Granted f ?a, l, s1, [])"
    by (simp add: wit_acquiring_def New_def)
  from lost_leadership_verdicts [OF refl _ _ this, of ?e wit_cluster "\<lparr>stdout = [], sink = ()\<rparr>"] show ?thesis
    by (simp add: wit_basic_def wit_cluster_def markLost_def)
qed

end
