(* ===== verification/Cluster.thy ===== *)
theory Cluster
  imports Examples
begin

text \<open>
  \<^verbatim>\<open>examples/cluster/main.go\<close> runs through as well: the parts of the example over the same lemmas,
  and the whole program.
\<close>

text \<open>The server answers the eleven requests at the times \<open>ts\<close>.\<close>

definition cluster_on_time :: "('s, 'v) cluster_env \<Rightarrow> int \<Rightarrow> int list \<Rightarrow> bool" where
  "cluster_on_time e now ts =
     (length ts = 11 \<and> sorted (now # ts) \<and>
      prompt (ce_lock e) (ts ! 0) (10 * Second) \<and> ce_unlock e = Reply [] (ts ! 1) \<and> ts ! 1 < ts ! 0 + 10000 \<and>
      prompt (ce_acquire e) (ts ! 2) (10 * Second) \<and> ce_release e = Reply [] (ts ! 3) \<and>
      prompt (ce_rlock e) (ts ! 4) (10 * Second) \<and> ce_runlock e = Reply [] (ts ! 5) \<and>
      prompt (ce_wlock e) (ts ! 6) (10 * Second) \<and> ce_wunlock e = Reply [] (ts ! 7) \<and> ts ! 7 < ts ! 6 + 10000 \<and>
      ce_rate e \<noteq> [] \<and> rt_net (hd (ce_rate e)) = Reply [] (ts ! 8) \<and> \<bar>UnixMilli (rt_now (hd (ce_rate e)))\<bar> < 2 ^ 53 \<and>
      prompt (ce_lead e) (ts ! 9) (10 * Second) \<and> ce_lead_release e = Reply [] (ts ! 10) \<and> ts ! 10 < ts ! 9 + 10000)"

lemma cluster_times:
  assumes "cluster_on_time e now ts"
  shows "now \<le> ts ! 0" "ts ! 0 \<le> ts ! 1" "ts ! 1 \<le> ts ! 2" "ts ! 2 \<le> ts ! 3" "ts ! 3 \<le> ts ! 4" "ts ! 4 \<le> ts ! 5" "ts ! 5 \<le> ts ! 6"
    "ts ! 6 \<le> ts ! 7" "ts ! 7 \<le> ts ! 8" "ts ! 8 \<le> ts ! 9" "ts ! 9 \<le> ts ! 10"
  using assms sorted_steps(1) [of now ts] sorted_steps(2) [of now ts]
  by (simp_all add: cluster_on_time_def eval_nat_numeral del: sorted_simps)

context redis_server
begin

lemma cluster_mutex_runs:
  assumes "demo_client R c" "cluster_on_time e now ts" "unused (db s) ''order:10001''" "clock s \<le> ts ! 0"
  obtains s' w' where "cluster_mutex e c s w = (Inr (), s', w')" "did clock db ''order:10001'' (ts ! 1) s s'" "db s' (Key ''order:10001'') = None"
    "stdout w' = stdout w @ [(''mutex locked, fencing token = %d'', [PUint 1])]"
proof -
  have t: "prompt (ce_lock e) (ts ! 0) (10 * Second)" "ce_unlock e = Reply [] (ts ! 1)" "ts ! 1 < ts ! 0 + 10000"
    using assms(2) by (simp_all add: cluster_on_time_def)
  obtain m' g s1 w1 s2 where lock: "Mutex_Lock (aq_ge (ce_lock e)) (aq_token (ce_lock e)) (aq_turns (ce_lock e)) (Client_Mutex c ''order:10001'' []) [] s w =
        (Some (Inr 0), m', [g], s1, w1)" "Guard_FencingToken g = 1" "stdout w1 = stdout w"
    and unlock: "\<And>w. \<exists>st2 w2. unlock_at (SingleOwner_ops R) (Reply [] (ts ! 1)) 0 [g] s1 w = (None, st2, s2, w2) \<and> stdout w2 = stdout w"
    and did: "did clock db ''order:10001'' (ts ! 1) s s2" "db s2 (Key ''order:10001'') = None"
    by (rule mutex_part [OF assms(1) refl demo_config(2) [OF assms(1)] assms(3) t(1) assms(4) cluster_times(2) [OF assms(2)] t(3), of w]) blast
  define w3 where "w3 = Printf ''mutex locked, fencing token = %d'' [PUint 1] w1"
  obtain st2 w4 where u: "unlock_at (SingleOwner_ops R) (Reply [] (ts ! 1)) 0 [g] s1 w3 = (None, st2, s2, w4)" "stdout w4 = stdout w3"
    using unlock by blast
  have "cluster_mutex e c s w = (Inr (), s2, w4)"
    using u(1) t(2) lock(1,2) demo_config(1) [OF assms(1)] by (simp add: cluster_mutex_def w3_def)
  then show ?thesis using that did u(2) lock(3) by (simp add: w3_def)
qed

lemma cluster_semaphore_runs:
  assumes "demo_client R c" "cluster_on_time e now ts" "unused (db s) ''ai:gpt5''" "clock s \<le> ts ! 2"
  obtains s' w' where "cluster_semaphore e c s w = (Inr (), s', w')" "did clock db ''ai:gpt5'' (ts ! 3) s s'" "db s' (Key ''ai:gpt5'') = None"
    "stdout w' = stdout w @ [(''semaphore permit acquired'', [])]"
proof -
  have t: "prompt (ce_acquire e) (ts ! 2) (10 * Second)" "ce_release e = Reply [] (ts ! 3)"
    using assms(2) by (simp_all add: cluster_on_time_def)
  obtain se where se: "Client_Semaphore c ''ai:gpt5'' 20 [] = Some se" by (simp add: Client_Semaphore_def)
  obtain p s1 w1 m t0 where acq: "Semaphore_Acquire (aq_ge (ce_acquire e)) (aq_token (ce_acquire e)) (aq_turns (ce_acquire e)) 1 se s w = (Some (Inr p), s1, w1)"
      "stdout w1 = stdout w" "did clock db ''ai:gpt5'' (ts ! 2) s s1" "pool_at (db s1) (Key ''ai:gpt5'') [(m, t0)]"
    and rel: "\<And>s2 T2. pool_at (db s2) (Key ''ai:gpt5'') [(m, t0)] \<Longrightarrow> clock s2 \<le> T2 \<Longrightarrow> \<exists>s3. did clock db ''ai:gpt5'' T2 s2 s3 \<and>
       db s3 (Key ''ai:gpt5'') = None \<and> (\<forall>w. \<exists>p2 w2. Permit_Release R (Reply [] T2) p s2 w = (None, p2, s3, w2) \<and> stdout w2 = stdout w)"
    by (rule semaphore_part [OF assms(1) se assms(3) t(1) assms(4), of w]) blast
  define w3 where "w3 = Println ''semaphore permit acquired'' w1"
  obtain s3 p2 w4 where r: "did clock db ''ai:gpt5'' (ts ! 3) s1 s3" "db s3 (Key ''ai:gpt5'') = None"
      "Permit_Release R (Reply [] (ts ! 3)) p s1 w3 = (None, p2, s3, w4)" "stdout w4 = stdout w3"
    using rel [OF acq(4), of "ts ! 3"] did_clock [OF acq(3)] cluster_times(4) [OF assms(2)] by (metis (no_types))
  have "cluster_semaphore e c s w = (Inr (), s3, w4)"
    using se acq(1) r(3) t demo_config(1) [OF assms(1)] by (simp add: cluster_semaphore_def w3_def)
  then show ?thesis using that [OF _ did_trans [OF acq(3) r(1)] r(2)] r(4) acq(2) by (simp add: w3_def)
qed

lemma cluster_rwmutex_runs:
  assumes "demo_client R c" "cluster_on_time e now ts" "unused (db s) ''config:tenant:1001''" "clock s \<le> ts ! 4" "1 < fuel"
  obtains s' w' where "cluster_rwmutex fuel e c s w = (Inr (), s', w')" "did clock db ''config:tenant:1001'' (ts ! 7) s s'"
    "\<forall>x \<in> {''writer'', ''readers'', ''waiters''}. db s' (Derived (Key ''config:tenant:1001'') x) = None" "stdout w' = stdout w"
proof -
  let ?n = "''config:tenant:1001''"
  have t: "prompt (ce_rlock e) (ts ! 4) (10 * Second)" "ce_runlock e = Reply [] (ts ! 5)"
    "prompt (ce_wlock e) (ts ! 6) (10 * Second)" "ce_wunlock e = Reply [] (ts ! 7)" "ts ! 7 < ts ! 6 + 10000"
    using assms(2) by (simp_all add: cluster_on_time_def)
  define m where "m = Client_RWMutex c ?n []"
  note le = cluster_times [OF assms(2)]
  obtain g s1 w1 s2 rst where rl: "RWMutex_RLock fuel (aq_ge (ce_rlock e)) (aq_token (ce_rlock e)) (aq_turns (ce_rlock e)) m [] s w =
        (Some (Inr 0), RWMutex_setReadHolder 0 m, [g], s1, w1)" "stdout w1 = stdout w"
    and ru: "\<And>w. \<exists>st2 w2. unlock_at (RWReader_ops R fuel) (Reply [] (ts ! 5)) 0 [g] s1 w = (None, st2, s2, w2) \<and> stdout w2 = stdout w"
    and d2: "did clock db ?n (ts ! 5) s s2" and rst: "shows_rw (db s2) (rm_keys m) rst" "rw_idle rst"
    by (rule reader_part [OF assms(1) m_def assms(5,3) t(1) assms(4) le(6), of w]) blast
  obtain st3 w3 where u: "unlock_at (RWReader_ops R fuel) (Reply [] (ts ! 5)) 0 [g] s1 w1 = (None, st3, s2, w3)" "stdout w3 = stdout w1" using ru by blast
  let ?m' = "RWMutex_setReadHolder 0 m"
  have m': "rm_client ?m' = c" "rm_cfg ?m' = resolved c []" "rm_keys ?m' = rm_keys (Client_RWMutex c ?n [])" by (simp_all add: m_def)
  have idle: "shows_rw (db s2) (rm_keys ?m') rst" "clock s2 \<le> ts ! 6" using rst(1) did_clock [OF d2] le(7) by simp_all
  obtain m'' g' s4 w4 s5 where wl: "RWMutex_Lock fuel (aq_ge (ce_wlock e)) (aq_token (ce_wlock e)) (aq_turns (ce_wlock e)) ?m' st3 s2 w3 =
        (Some (Inr (length st3)), m'', st3 @ [g'], s4, w4)" "stdout w4 = stdout w3"
    and wu: "\<And>w. \<exists>st2 w2. unlock_at (RWWriter_ops R fuel) (Reply [] (ts ! 7)) (length st3) (st3 @ [g']) s4 w = (None, st2, s5, w2) \<and> stdout w2 = stdout w"
    and d5: "did clock db ?n (ts ! 7) s2 s5" and free: "db s5 (Writer (rm_keys ?m')) = None" "db s5 (Readers (rm_keys ?m')) = None" "db s5 (Waiters (rm_keys ?m')) = None"
    by (rule writer_part [OF assms(1) m' assms(5) idle(1) rst(2) t(3) idle(2) le(8) t(5), of st3 w3]) blast
  obtain st6 w6 where v: "unlock_at (RWWriter_ops R fuel) (Reply [] (ts ! 7)) (length st3) (st3 @ [g']) s4 w4 = (None, st6, s5, w6)" "stdout w6 = stdout w4" using wu by blast
  have "cluster_rwmutex fuel e c s w = (Inr (), s5, w6)"
    using rl(1) u(1) wl(1) v(1) t demo_config(1) [OF assms(1)] by (simp add: cluster_rwmutex_def m_def)
  then show ?thesis using that did_trans [OF d2 d5] free u(2) v(2) rl(2) wl(2) by (simp add: m_def)
qed

lemma cluster_limiter_runs:
  assumes "demo_client R c" "cluster_on_time e now ts" "unused (db s) ''tenant:1001''" "clock s \<le> ts ! 8"
  obtains s' w' where "cluster_limiter impl e c s w = (Inr (), s', w')" "did clock db ''tenant:1001'' (ts ! 8) s s'" "stdout w' = stdout w"
proof -
  obtain t us where t: "ce_rate e = t # us" "rt_net t = Reply [] (ts ! 8)" "\<bar>UnixMilli (rt_now t)\<bar> < 2 ^ 53"
    using assms(2) by (cases "ce_rate e") (auto simp: cluster_on_time_def)
  have sil: "silent (metrics c) (tracer c)" using assms(1) by (simp add: demo_client_def)
  obtain finish w1 where tr: "t_Start (tracer c) ''distsync.ratelimit.allow'' w = (finish, w1)" by fastforce
  obtain s1 where "Allow impl t (Fin 1) (hundred c ''tenant:1001'' AlgorithmSlidingWindow) s w = (Inr (True, 0, None), s1, finish None w1)"
    "did clock db ''tenant:1001'' (ts ! 8) s s1"
    using limiter_session [OF assms(3) demo_config(1) [OF assms(1)] assms(4) t(2,3) _ tr] by blast
  then show ?thesis using that t(1) silentD(4,5) [OF sil tr] by (simp add: cluster_limiter_def hundred_constructed checked_acquire_def)
qed

lemma cluster_leader_runs:
  assumes "demo_client R c" "\<forall>st s v. ce_lead_wait e st s v = (st, s, v)" "cluster_on_time e now ts" "unused (db s) ''scheduler''" "clock s \<le> ts ! 9"
  obtains s' w' where "cluster_leader e c s w = (Inr (), s', w')" "did clock db ''scheduler'' (ts ! 10) s s'" "db s' (Key ''scheduler'') = None"
    "stdout w' = stdout w @ [(''leader elected'', []), (''all primitives OK on a real Redis Cluster'', [])]"
proof -
  have t: "prompt (ce_lead e) (ts ! 9) (10 * Second)" "ce_lead_release e = Reply [] (ts ! 10)" "ts ! 10 < ts ! 9 + 10000"
    using assms(3) by (simp_all add: cluster_on_time_def)
  have fn: "\<exists>w'. cluster_callback e 0 L st s w = (Returned None, L, st, s, w') \<and> stdout w' = stdout w @ [(''leader elected'', [])]"
    for L st s w using assms(2) by (simp add: cluster_callback_def Let_def)
  obtain L' st' s2 w2 where "Leader_Run (aq_ge (ce_lead e)) (aq_token (ce_lead e)) (aq_turns (ce_lead e)) (Reply [] (ts ! 10)) (Some (cluster_callback e))
        (Client_Leader c ''scheduler'' []) [] s w = (Some (Returned None), L', st', s2, w2)"
      "stdout w2 = stdout w @ [(''leader elected'', [])]" "did clock db ''scheduler'' (ts ! 10) s s2" "db s2 (Key ''scheduler'') = None"
    by (rule leader_part [where fn = "cluster_callback e" and w = w and lines = "[(''leader elected'', [])]",
        OF assms(1,4) t(1) assms(5) cluster_times(11) [OF assms(3)] t(3) fn]) blast
  then show ?thesis using that t(2) by (simp add: cluster_leader_def)
qed

end

lemma cluster_plain: "plain_name ''ai:gpt5''"
  by (simp add: plain_name_def)

context redis_server
begin

lemma cluster_locks_run:
  assumes c: "demo_client R c" and fuel: "1 < fuel" and env: "cluster_on_time e (clock s) ts"
    and names: "unused (db s) ''order:10001''" "unused (db s) ''ai:gpt5''" "unused (db s) ''config:tenant:1001''"
  obtains s3 w3 where "\<And>k :: (_, _, unit) prog. followed_by (cluster_mutex e c) (\<lambda>_. followed_by (cluster_semaphore e c) (\<lambda>_. followed_by (cluster_rwmutex fuel e c) (\<lambda>_. k))) s w = k s3 w3"
    "stdout w3 = stdout w @ [(''mutex locked, fencing token = %d'', [PUint 1]), (''semaphore permit acquired'', [])]" "clock s3 = ts ! 7"
    "spares db [''order:10001'', ''ai:gpt5'', ''config:tenant:1001''] s s3" "db s3 (Key ''order:10001'') = None" "db s3 (Key ''ai:gpt5'') = None"
    "\<forall>x \<in> {''writer'', ''readers'', ''waiters''}. db s3 (Derived (Key ''config:tenant:1001'') x) = None"
proof -
  note le = cluster_times [OF env] and plain = demo_plain cluster_plain
  obtain s1 w1 where p1: "cluster_mutex e c s w = (Inr (), s1, w1)" and d1: "did clock db ''order:10001'' (ts ! 1) s s1" and k1: "db s1 (Key ''order:10001'') = None"
    and o1: "stdout w1 = stdout w @ [(''mutex locked, fencing token = %d'', [PUint 1])]"
    by (rule cluster_mutex_runs [OF c env names(1) le(1), of w]) blast
  note sp1 = spares_did [OF d1]
  have "unused (db s1) ''ai:gpt5''" "clock s1 \<le> ts ! 2"
    using spares_unused [OF sp1 _ _ names(2)] plain did_clock [OF d1] le(3) by simp_all
  then obtain s2 w2 where p2: "cluster_semaphore e c s1 w1 = (Inr (), s2, w2)" and d2: "did clock db ''ai:gpt5'' (ts ! 3) s1 s2" and k2: "db s2 (Key ''ai:gpt5'') = None"
    and o2: "stdout w2 = stdout w1 @ [(''semaphore permit acquired'', [])]"
    by (rule cluster_semaphore_runs [OF c env, where w = w1]) blast
  note sp2 = spares_append [OF sp1 spares_did [OF d2]]
  have "unused (db s2) ''config:tenant:1001''" "clock s2 \<le> ts ! 4"
    using spares_unused [OF sp2 _ _ names(3)] plain did_clock [OF d2] le(5) by simp_all
  then obtain s3 w3 where p3: "cluster_rwmutex fuel e c s2 w2 = (Inr (), s3, w3)" and d3: "did clock db ''config:tenant:1001'' (ts ! 7) s2 s3"
    and k3: "\<forall>x \<in> {''writer'', ''readers'', ''waiters''}. db s3 (Derived (Key ''config:tenant:1001'') x) = None" and o3: "stdout w3 = stdout w2"
    by (rule cluster_rwmutex_runs [OF c env _ _ fuel, where w = w2]) blast
  note r3 = spares_did [OF d3]
  note r2 = spares_append [OF spares_did [OF d2] r3]
  have "db s3 (Key ''order:10001'') = None" by (rule spares_keys(1) [where db = db, OF r2 _ demo_plain(1) k1]) (simp add: plain)
  moreover have "db s3 (Key ''ai:gpt5'') = None" by (rule spares_keys(1) [where db = db, OF r3 _ cluster_plain k2]) (simp add: plain)
  moreover have "spares db [''order:10001'', ''ai:gpt5'', ''config:tenant:1001''] s s3" using spares_append [OF sp2 r3] by simp
  moreover have "stdout w3 = stdout w @ [(''mutex locked, fencing token = %d'', [PUint 1]), (''semaphore permit acquired'', [])]" by (simp add: o1 o2 o3)
  ultimately show ?thesis using p1 p2 p3 k3 did_clock [OF d3] by (intro that [of s3 w3]) (simp_all only: followed_simps)
qed

lemma cluster_parts_run:
  assumes c: "demo_client R c" and fuel: "1 < fuel" and env: "\<forall>st s v. ce_lead_wait e st s v = (st, s, v)" "cluster_on_time e (clock s) ts"
    and names: "unused (db s) ''order:10001''" "unused (db s) ''ai:gpt5''" "unused (db s) ''config:tenant:1001''" "unused (db s) ''tenant:1001''"
      "unused (db s) ''scheduler''"
  obtains s' w' where "followed_by (cluster_mutex e c) (\<lambda>_. followed_by (cluster_semaphore e c) (\<lambda>_. followed_by (cluster_rwmutex fuel e c) (\<lambda>_.
      followed_by (cluster_limiter impl e c) (\<lambda>_. cluster_leader e c)))) s w = (Inr (), s', w')"
    "stdout w' = stdout w @ [(''mutex locked, fencing token = %d'', [PUint 1]), (''semaphore permit acquired'', []), (''leader elected'', []),
       (''all primitives OK on a real Redis Cluster'', [])]"
    "db s' (Key ''order:10001'') = None" "db s' (Key ''ai:gpt5'') = None" "db s' (Key ''scheduler'') = None"
    "\<forall>x \<in> {''writer'', ''readers'', ''waiters''}. db s' (Derived (Key ''config:tenant:1001'') x) = None"
proof -
  note le = cluster_times [OF env(2)] and plain = demo_plain cluster_plain
  obtain s3 w3 where p3: "\<And>k :: (_, _, unit) prog. followed_by (cluster_mutex e c) (\<lambda>_. followed_by (cluster_semaphore e c) (\<lambda>_. followed_by (cluster_rwmutex fuel e c) (\<lambda>_. k))) s w = k s3 w3"
    and o3: "stdout w3 = stdout w @ [(''mutex locked, fencing token = %d'', [PUint 1]), (''semaphore permit acquired'', [])]" and c3: "clock s3 = ts ! 7"
    and sp3: "spares db [''order:10001'', ''ai:gpt5'', ''config:tenant:1001''] s s3"
    and k3: "db s3 (Key ''order:10001'') = None" "db s3 (Key ''ai:gpt5'') = None" "\<forall>x \<in> {''writer'', ''readers'', ''waiters''}. db s3 (Derived (Key ''config:tenant:1001'') x) = None"
    by (rule cluster_locks_run [OF c fuel env(2) names(1-3), of w]) blast
  have "unused (db s3) ''tenant:1001''" "clock s3 \<le> ts ! 8"
    using spares_unused [OF sp3 _ _ names(4)] plain c3 le(9) by simp_all
  then obtain s4 w4 where p4: "cluster_limiter impl e c s3 w3 = (Inr (), s4, w4)" and d4: "did clock db ''tenant:1001'' (ts ! 8) s3 s4" and o4: "stdout w4 = stdout w3"
    by (rule cluster_limiter_runs [OF c env(2), where w = w3 and impl = impl]) blast
  note sp4 = spares_append [OF sp3 spares_did [OF d4]]
  have "unused (db s4) ''scheduler''" "clock s4 \<le> ts ! 9"
    using spares_unused [OF sp4 _ _ names(5)] plain did_clock [OF d4] le(10) by simp_all
  then obtain s5 w5 where p5: "cluster_leader e c s4 w4 = (Inr (), s5, w5)" and d5: "did clock db ''scheduler'' (ts ! 10) s4 s5" and k5: "db s5 (Key ''scheduler'') = None"
    and o5: "stdout w5 = stdout w4 @ [(''leader elected'', []), (''all primitives OK on a real Redis Cluster'', [])]"
    by (rule cluster_leader_runs [OF c env, where w = w4]) blast
  note r4 = spares_append [OF spares_did [OF d4] spares_did [OF d5]]
  have "db s5 (Key ''order:10001'') = None" by (rule spares_keys(1) [where db = db, OF r4 _ demo_plain(1) k3(1)]) (simp add: plain)
  moreover have "db s5 (Key ''ai:gpt5'') = None" by (rule spares_keys(1) [where db = db, OF r4 _ cluster_plain k3(2)]) (simp add: plain)
  moreover have "db s5 (Derived (Key ''config:tenant:1001'') x) = None" if "x \<in> {''writer'', ''readers'', ''waiters''}" for x
    by (rule spares_keys(2) [where db = db, OF r4 _ demo_plain(3) bspec [OF k3(3) that]]) (simp add: plain)
  moreover have "stdout w5 = stdout w @ [(''mutex locked, fencing token = %d'', [PUint 1]), (''semaphore permit acquired'', []), (''leader elected'', []),
       (''all primitives OK on a real Redis Cluster'', [])]" by (simp add: o3 o4 o5)
  ultimately show ?thesis using p4 p5 k5 by (intro that [of s5 w5] ballI) (simp_all only: p3 followed_simps)
qed

end

text \<open>
  The cluster example runs through on a server where its names are unused, over a network that is on
  time, when its context ends by its deadline and not by a loss: it prints its four lines and
  leaves no lock, permit, queue or leadership behind.
\<close>

theorem cluster_completes:
  assumes server: "redis_server R clock db" and dial: "dial (cluster_addrs addrs) = R" and fuel: "1 < fuel"
    and env: "ce_ping e = None" "\<forall>st s v. ce_lead_wait e st s v = (st, s, v)" "cluster_on_time e (clock s) ts"
    and names: "\<forall>n \<in> {''order:10001'', ''ai:gpt5'', ''config:tenant:1001'', ''tenant:1001'', ''scheduler''}. unused (db s) n"
  shows "\<exists>s' w'. cluster_main dial impl fuel e addrs s w = (Inr (), s', w') \<and>
    stdout w' = stdout w @ [(''mutex locked, fencing token = %d'', [PUint 1]), (''semaphore permit acquired'', []), (''leader elected'', []),
      (''all primitives OK on a real Redis Cluster'', [])] \<and>
    db s' (Key ''order:10001'') = None \<and> db s' (Key ''ai:gpt5'') = None \<and> db s' (Key ''scheduler'') = None \<and>
    (\<forall>x \<in> {''writer'', ''readers'', ''waiters''}. db s' (Derived (Key ''config:tenant:1001'') x) = None)"
proof -
  obtain s' w' where "followed_by (cluster_mutex e (New R [])) (\<lambda>_. followed_by (cluster_semaphore e (New R [])) (\<lambda>_.
      followed_by (cluster_rwmutex fuel e (New R [])) (\<lambda>_. followed_by (cluster_limiter impl e (New R [])) (\<lambda>_. cluster_leader e (New R []))))) s w = (Inr (), s', w')"
    "stdout w' = stdout w @ [(''mutex locked, fencing token = %d'', [PUint 1]), (''semaphore permit acquired'', []), (''leader elected'', []),
      (''all primitives OK on a real Redis Cluster'', [])]"
    "db s' (Key ''order:10001'') = None" "db s' (Key ''ai:gpt5'') = None" "db s' (Key ''scheduler'') = None"
    "\<forall>x \<in> {''writer'', ''readers'', ''waiters''}. db s' (Derived (Key ''config:tenant:1001'') x) = None"
    by (rule redis_server.cluster_parts_run [OF server demo_clients(2) fuel env(2,3), where impl = impl and w = w]) (use names in auto)
  then show ?thesis using dial env(1) by (simp add: cluster_main_def)
qed

text \<open>The default addresses are used exactly when the variable is unset or empty.\<close>

lemma Split_not_Nil: "Split s \<noteq> []"
  by (induction s) (auto split: list.splits)

lemma Split_single_empty: "Split s = [[]] \<longleftrightarrow> s = []"
  using Split_not_Nil [of "tl s"] by (cases s) (auto split: list.splits)

lemma cluster_addrs_default: "cluster_addrs s = (if s = [] then [''127.0.0.1:7000'', ''127.0.0.1:7001'', ''127.0.0.1:7002''] else Split s)"
  using Split_single_empty [of s] by (auto simp: cluster_addrs_def Let_def length_Suc_conv)

end
