(* ===== verification/Spec2Isabelle.thy ===== *)
theory Spec2Isabelle
  imports Exclusion Capacity Rwprops Guards Cluster
begin

text \<open>
  Verification of distsync, a Go library of distributed synchronisation over Redis or Valkey:
  mutex, read-write lock, counting semaphore, leader election and rate limiter.

  \<^bold>\<open>The program.\<close> Every decision is taken by a Lua script that the server runs atomically
  (\<^verbatim>\<open>internal/lua\<close>). A lease (\<^verbatim>\<open>internal/lease\<close>) runs its scripts through go-redis and keeps what the
  client knows: its token and a local deadline that is earlier than the server's. A handle
  (\<^verbatim>\<open>guard.go\<close>) owns an acquired lease: it cancels a context when the lease is lost, renews or
  watches it in a background loop, and releases it. The primitives (\<^verbatim>\<open>mutex.go\<close>, \<^verbatim>\<open>rwmutex.go\<close>,
  \<^verbatim>\<open>semaphore.go\<close>, \<^verbatim>\<open>leader.go\<close>, \<^verbatim>\<open>once.go\<close>) acquire a lease in a loop with backoff and hand out its
  handle; the rate limiter (\<^verbatim>\<open>ratelimiter.go\<close>) runs a script for each decision. Metrics and tracing
  are interfaces the client is built with.

  \<^bold>\<open>Theories and sources.\<close>
  \<^item> \<^verbatim>\<open>Prelude\<close>: time, \<^verbatim>\<open>int64\<close>, the error values (\<^verbatim>\<open>errors.go\<close>) with \<^verbatim>\<open>errors.Is\<close> and \<^verbatim>\<open>errors.Join\<close>.
    \<^verbatim>\<open>Float64\<close>, \<^verbatim>\<open>Rounding\<close>: binary64 arithmetic, defined by rounding exact results to nearest even,
    and its laws.
  \<^item> \<^verbatim>\<open>Redis\<close>: the server, which is a parameter: the locale \<open>redis_server\<close> states the documented
    behaviour of each command and of expiry; \<open>mem_redis\<close> is a concrete server that satisfies it.
    \<^verbatim>\<open>Script\<close>: Lua computations, their symbolic execution, and \<^verbatim>\<open>Script.Run\<close> of go-redis over a
    network that loses requests and replies and retries.
  \<^item> \<^verbatim>\<open>Lease\<close> (\<^verbatim>\<open>internal/lease/lease.go\<close>), \<^verbatim>\<open>Single\<close> (\<^verbatim>\<open>single.go\<close>, \<^verbatim>\<open>single_*.lua\<close>), \<^verbatim>\<open>Permit\<close>
    (\<^verbatim>\<open>permit.go\<close>, \<^verbatim>\<open>sem_*.lua\<close>), \<^verbatim>\<open>Rwlock\<close> (\<^verbatim>\<open>rw.go\<close>, \<^verbatim>\<open>rw_*.lua\<close>): the leases with their scripts, and
    the abstract lock, pool and queue the scripts refine. \<^verbatim>\<open>Exclusion\<close> and \<^verbatim>\<open>Capacity\<close>: systems of any
    number of clients, as step relations over requests, lost and late replies, renewals,
    releases and the passing of time. \<^verbatim>\<open>Rwfair\<close>, \<^verbatim>\<open>Rwprops\<close>: the arrival queue and its guarantees.
  \<^item> \<^verbatim>\<open>Keys\<close> (\<^verbatim>\<open>internal/redis/key.go\<close>), \<^verbatim>\<open>Options\<close> (\<^verbatim>\<open>options.go\<close>, \<^verbatim>\<open>dist.go\<close>, \<^verbatim>\<open>metrics.go\<close>), \<^verbatim>\<open>Sinks\<close>
    (\<^verbatim>\<open>metrics/prometheus.go\<close>, \<^verbatim>\<open>telemetry/telemetry.go\<close>).
  \<^item> \<^verbatim>\<open>Renewer\<close> (\<^verbatim>\<open>internal/lease/renewer.go\<close>): the loop and concurrent \<^verbatim>\<open>Start\<close> and \<^verbatim>\<open>Stop\<close> calls as an
    interleaving step relation. \<^verbatim>\<open>Handle\<close> and \<^verbatim>\<open>Guards\<close> (\<^verbatim>\<open>guard.go\<close>): the handle over the locale
    \<open>lease_api\<close>, the contract of the \<^verbatim>\<open>Lease\<close> interface, and \<open>timed_lease\<close>, which adds how far a renewal
    extends a lease; both are interpreted for all four leases.
  \<^item> \<^verbatim>\<open>Acquisition\<close>: the loop the primitives share. \<^verbatim>\<open>Mutex\<close> (\<^verbatim>\<open>mutex.go\<close>, \<^verbatim>\<open>once.go\<close>), \<^verbatim>\<open>Rwmutex\<close>
    (\<^verbatim>\<open>rwmutex.go\<close>), \<^verbatim>\<open>Semaphore\<close> (\<^verbatim>\<open>semaphore.go\<close>), \<^verbatim>\<open>Leader\<close> (\<^verbatim>\<open>leader.go\<close>).
  \<^item> \<^verbatim>\<open>Buckets\<close> (\<^verbatim>\<open>ratelimit.lua\<close>, \<^verbatim>\<open>ratelimit_leaky.lua\<close>; the locale \<open>bucket_script\<close> is what both promise,
    and every server with either script is an instance), \<^verbatim>\<open>Windows\<close> (\<^verbatim>\<open>ratelimit_fixed.lua\<close>,
    \<^verbatim>\<open>ratelimit_sliding.lua\<close>), \<^verbatim>\<open>RateLimiter\<close> (\<^verbatim>\<open>ratelimiter.go\<close>).
  \<^item> \<^verbatim>\<open>Registry\<close> (\<^verbatim>\<open>internal/lua/scripts.go\<close>): the scripts by name, with the positional lists \<^verbatim>\<open>KEYS\<close> and
    \<^verbatim>\<open>ARGV\<close> of every call in the Go code, and the keys each script uses.
  \<^item> \<^verbatim>\<open>Scenario\<close>: the primitives on unused names over a prompt network, one session each. \<^verbatim>\<open>Examples\<close>,
    \<^verbatim>\<open>Cluster\<close> (\<^verbatim>\<open>examples/basic/main.go\<close>, \<^verbatim>\<open>examples/cluster/main.go\<close>): the example programs, composed of
    the models of the library calls they make, with their output and their ways to exit.

  \<^bold>\<open>How the code is modelled.\<close> A struct is a record with a prefix for its fields, a method is a
  function of the same name behind the name of its type (\<^verbatim>\<open>Mutex_Lock\<close>). State is passed: the
  server \<open>'s\<close>, the sink of metrics and traces \<open>'w\<close>, and for pointers that are shared a store (a list;
  the pointer is a position). What a call observes of its environment is an argument: clock
  readings, random numbers, the network of each request (\<open>Reply\<close> and \<open>Fail\<close> with the times at which
  the server ran it), the state of a context. An error is a value; a panic is \<^term>\<open>None\<close>, the left of a
  sum, or a constructor of its own. Where a loop runs until something outside ends it, the list of
  its turns is an argument and a list that is used up is a call still running.

  \<^bold>\<open>What is shown.\<close>
  \<^item> Leases: mutual exclusion with clocks of any offset that run up to one percent slow,
    increasing fences, the capacity of the semaphore, exclusion of readers and writers, first come
    first served, the outcome of every operation, harmless stale releases, idempotent retries.
  \<^item> Lifecycle: the context of a guard follows its lease in every interleaving; \<^verbatim>\<open>Stop\<close> joins the
    loop and returns; releases complete once; renewals on every branch.
  \<^item> Primitives: outcomes and round trips down to the server, the holder pointer, \<^verbatim>\<open>Once\<close>, the end
    of a leadership with its joined errors, the queue as a refused or interrupted caller leaves it.
  \<^item> Rate limiters: the budget of the token bucket with its rounding error, the leaky bucket as its
    mirror image, the exact windows, the safety of the constructor, the input rules, and the end of
    the polling loop. Buckets and the sliding window are analysed for client times that do not go
    back from one decision to the next. Configuration: bounds of backoff and renewal intervals.
  \<^item> Composition: a call and a command outside of scripts use only keys of their name, so that a
    properly named primitive stays on one cluster slot and primitives of different names do not
    interfere; the example programs run from their first line to their last and leave nothing held.
  \<^item> Shortcomings of the code are theorems as well: a queue that is blocked by a clean-up that failed
    halfway, a place in the queue that is not given up after an error, leases of at most a
    millisecond, short leases whose waiters count as crashed, names without a proper hash tag, a
    mutex, a semaphore and a token bucket that share a name, a sliding window that admits nearly
    twice its limit when requests are reordered by two milliseconds, a delayed request that leads
    to two holders of a mutex, and an example that takes a lost leadership for another error.

  \<^bold>\<open>Bounds.\<close> The purge loop of the read-write scripts has fuel; one more than the length of the
  queue and the caller is enough, and the theorems assume just that; on an unused name two are
  enough. Fences and counts are below \<open>2\<^sup>5\<^sup>3\<close>, where Lua is exact; arrival numbers are modelled as they
  are below \<open>10\<^sup>1\<^sup>4\<close>, where the script writes them in full. The systems of \<^verbatim>\<open>Exclusion\<close> and \<^verbatim>\<open>Capacity\<close>
  have times to live of whole milliseconds and execute no request after its call has returned.
  Times are below \<open>2\<^sup>5\<^sup>2\<close> milliseconds. The analysis of the buckets is for
  capacities and rates between \<open>2\<^sup>-\<^sup>4\<^sup>0\<^sup>0\<close> and \<open>2\<^sup>4\<^sup>0\<^sup>0\<close>.

  \<^bold>\<open>Not modelled.\<close> The constructors of go-redis and of the Prometheus and OpenTelemetry clients, which
  are parameters; heartbeats that come due between two calls of an example program; the panic on a
  nil context as a step of each operation (\<open>ctxNonNil\<close> is the check, the operations are what follows
  it); the text of error messages beyond what tells them apart; failover and persistence of the
  server, which the documentation of the library excludes from its guarantees.
\<close>

end
